(* ===== verification/Prelude.thy ===== *)
theory Prelude
  imports Main "HOL-Library.Word" "HOL-Library.Multiset"
begin

section \<open>Prelude\<close>

text \<open>
  What every component shares: the machine integers and byte strings of the Rust code, the
  saturating operations of the standard library, Rust's \<open>Result\<close> as a sum (\<open>Inl\<close> the
  error, \<open>Inr\<close> the value), the iterator searches \<open>position\<close>, \<open>rposition\<close> and
  \<open>find_map\<close>, itertools' \<open>unique\<close>, and the lemmas about them. The simplification
  facts that carry the component proofs are collected in \<open>search_simps\<close> (iterator
  searches) and \<open>result_simps\<close> (sums used as results).
\<close>

named_theorems search_simps
named_theorems result_simps

subsection \<open>Machine types\<close>

type_synonym u8 = "8 word"
type_synonym u16 = "16 word"
type_synonym u32 = "32 word"
type_synonym u64 = "64 word"
type_synonym u128 = "128 word"
type_synonym u256 = "256 word"

type_synonym bytes = "u8 list"
type_synonym address = "160 word"
type_synonym b256 = "256 word"

text \<open>
  Errors and halt reasons of reth and revm are opaque to this code, which only stores and
  forwards them: the model carries them as strings.
\<close>

type_synonym provider_error = string
type_synonym evm_error = string
type_synonym halt_reason = string

subsection \<open>Saturating arithmetic\<close>

definition saturating_sub :: "'a::len word \<Rightarrow> 'a word \<Rightarrow> 'a word" where
  "saturating_sub a b = (if a < b then 0 else a - b)"

definition saturating_mul :: "'a::len word \<Rightarrow> 'a word \<Rightarrow> 'a word" where
  "saturating_mul a b =
     (if unat a * unat b < 2 ^ LENGTH('a) then a * b else - 1)"

lemma saturating_sub_le: "saturating_sub a b \<le> a"
  by (simp add: saturating_sub_def word_le_nat_alt word_less_nat_alt unat_sub_if_size)

lemma unat_saturating_sub: "unat (saturating_sub a b) = unat a - unat b"
  by (auto simp: saturating_sub_def word_less_nat_alt unat_sub_if_size word_le_nat_alt)

lemma unat_saturating_mul:
  "unat (saturating_mul a (b :: 'a::len word)) = min (unat a * unat b) (2 ^ LENGTH('a) - 1)"
proof -
  have "unat (- 1 :: 'a word) = 2 ^ LENGTH('a) - 1"
    by (simp add: unsigned_minus_1_eq_mask mask_eq_exp_minus_1)
  moreover have "m < n \<longleftrightarrow> m \<le> n - 1" if "0 < n" for m n :: nat
    using that by arith
  ultimately show ?thesis
    by (simp add: saturating_mul_def unat_word_ariths min_def)
qed

text \<open>Option's derived order of Rust: \<open>None\<close> is below every \<open>Some\<close>.\<close>

fun option_min :: "'a::linorder option \<Rightarrow> 'a option \<Rightarrow> 'a option" where
  "option_min None b = None"
| "option_min (Some a) None = None"
| "option_min (Some a) (Some b) = Some (min a b)"

subsection \<open>Results\<close>

fun is_ok :: "'e + 'a \<Rightarrow> bool" where
  "is_ok (Inl e) = False"
| "is_ok (Inr a) = True"

fun map_err :: "('e \<Rightarrow> 'f) \<Rightarrow> 'e + 'a \<Rightarrow> 'f + 'a" where
  "map_err f (Inl e) = Inl (f e)"
| "map_err f (Inr a) = Inr a"

fun map_ok :: "('a \<Rightarrow> 'b) \<Rightarrow> 'e + 'a \<Rightarrow> 'e + 'b" where
  "map_ok f (Inl e) = Inl e"
| "map_ok f (Inr a) = Inr (f a)"

text \<open>The \<open>?\<close> operator: stop at an error, go on with the value otherwise.\<close>

fun and_then :: "'e + 'a \<Rightarrow> ('a \<Rightarrow> 'e + 'b) \<Rightarrow> 'e + 'b" where
  "and_then (Inl e) f = Inl e"
| "and_then (Inr a) f = f a"

text \<open>\<open>collect::<Result<Vec<_>, _>>()\<close>: the first error, or all values in order.\<close>

fun collect_results :: "('e + 'a) list \<Rightarrow> 'e + 'a list" where
  "collect_results [] = Inr []"
| "collect_results (r # rs) =
     and_then r (\<lambda>a. and_then (collect_results rs) (\<lambda>as. Inr (a # as)))"

lemma map_ok_Inr [result_simps]: "map_ok f r = Inr b \<longleftrightarrow> (\<exists>a. r = Inr a \<and> b = f a)"
  by (cases r) auto

lemma map_ok_Inl [result_simps]: "map_ok f r = Inl e \<longleftrightarrow> r = Inl e"
  by (cases r) simp_all

lemma map_err_Inr [result_simps]: "map_err f r = Inr b \<longleftrightarrow> r = Inr b"
  by (cases r) auto

lemma map_err_Inl [result_simps]: "map_err f r = Inl e \<longleftrightarrow> (\<exists>e'. r = Inl e' \<and> e = f e')"
  by (cases r) auto

lemma and_then_Inr [result_simps]: "and_then r f = Inr b \<longleftrightarrow> (\<exists>a. r = Inr a \<and> f a = Inr b)"
  by (cases r) auto

lemma is_ok_iff [result_simps]: "is_ok r \<longleftrightarrow> (\<exists>a. r = Inr a)"
  by (cases r) auto

lemma collect_results_Inr:
  "collect_results rs = Inr as \<longleftrightarrow> rs = map Inr as"
  by (induction rs arbitrary: as) (auto simp: result_simps)

subsection \<open>Iterator searches\<close>

fun position :: "('a \<Rightarrow> bool) \<Rightarrow> 'a list \<Rightarrow> nat option" where
  "position p [] = None"
| "position p (x # xs) = (if p x then Some 0 else map_option Suc (position p xs))"

definition rposition :: "('a \<Rightarrow> bool) \<Rightarrow> 'a list \<Rightarrow> nat option" where
  "rposition p xs = map_option (\<lambda>i. length xs - Suc i) (position p (rev xs))"

fun find_map :: "('a \<Rightarrow> 'b option) \<Rightarrow> 'a list \<Rightarrow> 'b option" where
  "find_map f [] = None"
| "find_map f (x # xs) = (case f x of Some b \<Rightarrow> Some b | None \<Rightarrow> find_map f xs)"

definition list_get :: "'a list \<Rightarrow> nat \<Rightarrow> 'a option" where
  "list_get xs i = (if i < length xs then Some (xs ! i) else None)"

text \<open>\<open>Itertools::unique\<close> keeps the first occurrence of each element.\<close>

fun unique :: "'a list \<Rightarrow> 'a list" where
  "unique [] = []"
| "unique (x # xs) = x # filter (\<lambda>y. y \<noteq> x) (unique xs)"

lemma position_None [search_simps]: "position p xs = None \<longleftrightarrow> (\<forall>x \<in> set xs. \<not> p x)"
  by (induction xs) auto

lemma position_Some [search_simps]:
  "position p xs = Some i \<longleftrightarrow> i < length xs \<and> p (xs ! i) \<and> (\<forall>j < i. \<not> p (xs ! j))"
proof (induction xs arbitrary: i)
  case Nil
  then show ?case by simp
next
  case (Cons x xs)
  then show ?case
    by (cases i) (auto simp: less_Suc_eq_0_disj)
qed

lemma position_append:
  "position p (xs @ ys) =
     (case position p xs of Some i \<Rightarrow> Some i | None \<Rightarrow> map_option (\<lambda>i. i + length xs) (position p ys))"
  by (induction xs) (auto split: option.splits simp: option.map_comp comp_def option.map_ident)

lemma rposition_None [search_simps]: "rposition p xs = None \<longleftrightarrow> (\<forall>x \<in> set xs. \<not> p x)"
  by (simp add: rposition_def search_simps)

lemma rposition_SomeD:
  assumes "rposition p xs = Some i"
  shows "i < length xs" "p (xs ! i)" "\<And>j. i < j \<Longrightarrow> j < length xs \<Longrightarrow> \<not> p (xs ! j)"
proof -
  from assms obtain k where k: "position p (rev xs) = Some k" and i: "i = length xs - Suc k"
    by (auto simp: rposition_def)
  from k have kl: "k < length xs" and pk: "p (rev xs ! k)" and least: "\<forall>j < k. \<not> p (rev xs ! j)"
    by (simp_all add: position_Some)
  show "i < length xs" using kl i by simp
  show "p (xs ! i)" using pk kl i by (simp add: rev_nth)
  fix j assume "i < j" "j < length xs"
  then have "length xs - Suc j < k" using kl i by arith
  with least have "\<not> p (rev xs ! (length xs - Suc j))" by blast
  then show "\<not> p (xs ! j)" using \<open>j < length xs\<close> by (simp add: rev_nth)
qed

lemma rposition_snoc [search_simps]:
  "rposition p (xs @ [x]) = (if p x then Some (length xs) else rposition p xs)"
proof (cases "p x")
  case False
  then show ?thesis
    by (simp add: rposition_def option.map_comp comp_def)
qed (simp add: rposition_def)

lemma find_map_append [search_simps]:
  "find_map f (xs @ ys) = (case find_map f xs of Some b \<Rightarrow> Some b | None \<Rightarrow> find_map f ys)"
  by (induction xs) (auto split: option.splits)

lemma find_map_None [search_simps]: "find_map f xs = None \<longleftrightarrow> (\<forall>x \<in> set xs. f x = None)"
  by (induction xs) (auto split: option.splits)

lemma find_append_None: "find p xs = None \<Longrightarrow> find p (xs @ ys) = find p ys"
  by (induction xs) (auto split: if_splits)

lemma list_get_Some [search_simps]: "list_get xs i = Some x \<longleftrightarrow> i < length xs \<and> xs ! i = x"
  by (auto simp: list_get_def)

lemma list_get_None [search_simps]: "list_get xs i = None \<longleftrightarrow> length xs \<le> i"
  by (auto simp: list_get_def)

lemma set_unique [simp]: "set (unique xs) = set xs"
  by (induction xs) auto

lemma distinct_unique [simp]: "distinct (unique xs)"
  by (induction xs) auto

end
