(* ===== verification/Pipelines.thy ===== *)
theory Pipelines
  imports Prelude
begin

section \<open>Pipelines and step paths\<close>

text \<open>
  The structure of a pipeline with its builder methods
  (\<open>crates/pipeline/src/pipelines/mod.rs\<close>), the paths that name its steps (the first half of
  \<open>exec/navi.rs\<close>) and the iterator over all of them (\<open>iter.rs\<close>). A step instance is an
  element of \<open>'s\<close>, a limits factory one of \<open>'l\<close>.

  Operations that panic on some input return an option whose \<open>None\<close> is the panic; where the
  code itself returns an \<open>Option\<close>, that is the inner option. Indices are \<open>nat\<close>: a vector has
  fewer than \<open>2 ^ 63\<close> elements, so incrementing an index of one cannot wrap.

  Not modelled: the pipeline's event bus and the glue that turns tuples and closures into
  pipelines.
\<close>

subsection \<open>Pipelines\<close>

datatype behavior = Once | Loop

datatype ('s, 'l) pipeline =
    Pipeline (prologue: "'s option") (epilogue: "'s option")
      (steps: "('s, 'l) step_or_pipeline list") (pl_limits: "'l option") (pl_name: string)
and ('s, 'l) step_or_pipeline = Step 's | Nested behavior "('s, 'l) pipeline"

definition pipeline_named :: "string \<Rightarrow> ('s, 'l) pipeline" where
  "pipeline_named name = Pipeline None None [] None name"

definition with_prologue :: "('s, 'l) pipeline \<Rightarrow> 's \<Rightarrow> ('s, 'l) pipeline" where
  "with_prologue p s = Pipeline (Some s) (epilogue p) (steps p) (pl_limits p) (pl_name p)"

definition with_prologue_if :: "('s, 'l) pipeline \<Rightarrow> bool \<Rightarrow> 's \<Rightarrow> ('s, 'l) pipeline" where
  "with_prologue_if p cond s = (if cond then with_prologue p s else p)"

definition with_epilogue :: "('s, 'l) pipeline \<Rightarrow> 's \<Rightarrow> ('s, 'l) pipeline" where
  "with_epilogue p s = Pipeline (prologue p) (Some s) (steps p) (pl_limits p) (pl_name p)"

definition with_epilogue_if :: "('s, 'l) pipeline \<Rightarrow> bool \<Rightarrow> 's \<Rightarrow> ('s, 'l) pipeline" where
  "with_epilogue_if p cond s = (if cond then with_epilogue p s else p)"

definition with_step :: "('s, 'l) pipeline \<Rightarrow> 's \<Rightarrow> ('s, 'l) pipeline" where
  "with_step p s = Pipeline (prologue p) (epilogue p) (steps p @ [Step s]) (pl_limits p) (pl_name p)"

definition with_step_if :: "('s, 'l) pipeline \<Rightarrow> bool \<Rightarrow> 's \<Rightarrow> ('s, 'l) pipeline" where
  "with_step_if p cond s = (if cond then with_step p s else p)"

definition with_pipeline ::
    "('s, 'l) pipeline \<Rightarrow> behavior \<Rightarrow> ('s, 'l) pipeline \<Rightarrow> ('s, 'l) pipeline" where
  "with_pipeline p b q =
     Pipeline (prologue p) (epilogue p) (steps p @ [Nested b q]) (pl_limits p) (pl_name p)"

definition with_limits :: "('s, 'l) pipeline \<Rightarrow> 'l \<Rightarrow> ('s, 'l) pipeline" where
  "with_limits p l = Pipeline (prologue p) (epilogue p) (steps p) (Some l) (pl_name p)"

definition pipeline_is_empty :: "('s, 'l) pipeline \<Rightarrow> bool" where
  "pipeline_is_empty p \<longleftrightarrow> prologue p = None \<and> epilogue p = None \<and> steps p = []"

subsection \<open>Step paths\<close>

type_synonym step_path = "nat list"

definition PROLOGUE_INDEX :: nat where "PROLOGUE_INDEX = 0"
definition EPILOGUE_INDEX :: nat where "EPILOGUE_INDEX = 2 ^ 64 - 1"
definition STEP0_INDEX :: nat where "STEP0_INDEX = PROLOGUE_INDEX + 1"

definition sp_depth :: "step_path \<Rightarrow> nat" where
  "sp_depth p = length p"

definition is_toplevel :: "step_path \<Rightarrow> bool" where
  "is_toplevel p \<longleftrightarrow> sp_depth p = 1"

definition sp_leaf :: "step_path \<Rightarrow> nat option" where
  "sp_leaf p = (if p = [] then None else Some (last p))"

definition sp_is_prologue :: "step_path \<Rightarrow> bool option" where
  "sp_is_prologue p = map_option (\<lambda>l. l = PROLOGUE_INDEX) (sp_leaf p)"

definition sp_is_epilogue :: "step_path \<Rightarrow> bool option" where
  "sp_is_epilogue p = map_option (\<lambda>l. l = EPILOGUE_INDEX) (sp_leaf p)"

definition sp_root :: "step_path \<Rightarrow> step_path option" where
  "sp_root p = (if p = [] then None else Some [hd p])"

definition remove_root :: "step_path \<Rightarrow> step_path option option" where
  "remove_root p =
     (if is_toplevel p then Some None else if p = [] then None else Some (Some (tl p)))"

definition remove_leaf :: "step_path \<Rightarrow> step_path option option" where
  "remove_leaf p =
     (if is_toplevel p then Some None else if p = [] then None else Some (Some (butlast p)))"

definition increment_leaf :: "step_path \<Rightarrow> step_path" where
  "increment_leaf p = (if p = [] then [] else butlast p @ [last p + 1])"

definition replace_leaf :: "nat \<Rightarrow> step_path \<Rightarrow> step_path option" where
  "replace_leaf l p = (if p = [] then None else Some (butlast p @ [l]))"

definition is_ancestor_of :: "step_path \<Rightarrow> step_path \<Rightarrow> bool" where
  "is_ancestor_of p q \<longleftrightarrow> take (length p) q = p"

fun common_ancestor :: "step_path \<Rightarrow> step_path \<Rightarrow> step_path" where
  "common_ancestor (i # p) (j # q) = (if i = j then i # common_ancestor p q else [])"
| "common_ancestor _ _ = []"

text \<open>
  The two loops of \<open>between\<close>: the paths that extend \<open>current\<close> one index at a time until
  \<open>target\<close>. \<open>current\<close> is a prefix of \<open>target\<close> there; past its end the code would panic and
  the function stops.
\<close>

function extend_to :: "step_path \<Rightarrow> step_path \<Rightarrow> step_path list" where
  "extend_to current target =
     (if current = target \<or> length target \<le> length current then []
      else let c = current @ [target ! length current] in c # extend_to c target)"
  by pat_completeness auto
termination
  by (relation "measure (\<lambda>(c, t). length t - length c)") auto

declare extend_to.simps [simp del]

definition sp_between :: "step_path \<Rightarrow> step_path \<Rightarrow> step_path list" where
  "sp_between self other =
     (if \<not> is_ancestor_of self other \<and> \<not> is_ancestor_of other self then []
      else let ancestor = common_ancestor self other in
        if ancestor = self then extend_to self other
        else if ancestor = other then rev (extend_to other self)
        else [])"

definition sp_prologue :: step_path where "sp_prologue = [PROLOGUE_INDEX]"
definition sp_epilogue :: step_path where "sp_epilogue = [EPILOGUE_INDEX]"
definition sp_step :: "nat \<Rightarrow> step_path" where "sp_step i = [i + STEP0_INDEX]"
definition sp_step0 :: step_path where "sp_step0 = sp_step 0"
definition sp_concat :: "step_path \<Rightarrow> step_path \<Rightarrow> step_path" where "sp_concat p q = p @ q"

lemmas index_defs = PROLOGUE_INDEX_def EPILOGUE_INDEX_def STEP0_INDEX_def

lemma extend_to_eq:
  assumes "take (length c) t = c"
  shows "extend_to c t = map (\<lambda>k. take k t) [Suc (length c)..<Suc (length t)]"
  using assms
proof (induction c t rule: extend_to.induct)
  case (1 c t)
  have le: "length c \<le> length t" using "1.prems" by (metis length_take min.cobounded1)
  show ?case
  proof (cases "length c = length t")
    case True
    then show ?thesis by (subst extend_to.simps) simp
  next
    case False
    with le have lt: "length c < length t" by simp
    then have step: "take (Suc (length c)) t = c @ [t ! length c]"
      using "1.prems" by (simp add: take_Suc_conv_app_nth)
    have ne: "\<not> (c = t \<or> length t \<le> length c)" using lt by auto
    have "extend_to (c @ [t ! length c]) t =
        map (\<lambda>k. take k t) [Suc (Suc (length c))..<Suc (length t)]"
      using "1.IH" [OF ne refl] step by (simp del: upt_Suc)
    then show ?thesis
      using lt step by (subst extend_to.simps) (auto simp: Let_def upt_conv_Cons simp del: upt_Suc)
  qed
qed

lemma common_ancestor_prefix:
  "take (length (common_ancestor p q)) p = common_ancestor p q"
  "take (length (common_ancestor p q)) q = common_ancestor p q"
  by (induction p q rule: common_ancestor.induct) auto

lemma common_ancestor_of_prefix:
  "take (length p) q = p \<Longrightarrow> common_ancestor p q = p \<and> common_ancestor q p = p"
proof (induction p arbitrary: q)
  case Nil
  then show ?case by (cases q) auto
next
  case (Cons i p)
  then show ?case by (cases q) auto
qed

lemma sp_between_down:
  "take (length p) q = p \<Longrightarrow> sp_between p q = map (\<lambda>k. take k q) [Suc (length p)..<Suc (length q)]"
  by (simp add: sp_between_def is_ancestor_of_def common_ancestor_of_prefix extend_to_eq)

lemma sp_between_up:
  assumes "take (length p) q = p"
  shows "sp_between q p = rev (map (\<lambda>k. take k q) [Suc (length p)..<Suc (length q)])"
proof (cases "p = q")
  case True
  then show ?thesis using sp_between_down [of q q] by simp
next
  case False
  then show ?thesis
    using assms
    by (simp add: sp_between_def is_ancestor_of_def common_ancestor_of_prefix extend_to_eq)
qed

subsection \<open>The iterator over all step paths\<close>

record ('s, 'l) frame =
  fr_pipeline :: "('s, 'l) pipeline"
  fr_path :: step_path
  next_ix :: nat
  yielded_prologue :: bool
  yielded_epilogue :: bool

definition new_frame :: "('s, 'l) pipeline \<Rightarrow> step_path \<Rightarrow> ('s, 'l) frame" where
  "new_frame p path =
     \<lparr>fr_pipeline = p, fr_path = path, next_ix = 0, yielded_prologue = False, yielded_epilogue = False\<rparr>"

text \<open>The measure of the iterator: the items a frame has not visited yet, nested ones included.\<close>

primrec pipeline_weight :: "('s, 'l) pipeline \<Rightarrow> nat"
  and item_weight :: "('s, 'l) step_or_pipeline \<Rightarrow> nat" where
  "pipeline_weight (Pipeline pro epi items l name) = 3 + sum_list (map item_weight items)"
| "item_weight (Step s) = 1"
| "item_weight (Nested b p) = 1 + pipeline_weight p"

definition frame_weight :: "('s, 'l) frame \<Rightarrow> nat" where
  "frame_weight f =
     1 + (if yielded_prologue f then 0 else 1) + (if yielded_epilogue f then 0 else 1)
       + sum_list (map item_weight (drop (next_ix f) (steps (fr_pipeline f))))"

lemma weight_new_frame: "frame_weight (new_frame p path) = pipeline_weight p"
  by (cases p) (simp add: frame_weight_def new_frame_def)

lemma frame_weight_pos: "0 < frame_weight f"
  by (simp add: frame_weight_def)

lemma weight_drop_step:
  "next_ix f < length (steps (fr_pipeline f)) \<Longrightarrow>
   frame_weight f = frame_weight (f\<lparr>next_ix := next_ix f + 1\<rparr>) +
     item_weight (steps (fr_pipeline f) ! next_ix f)"
  by (simp add: frame_weight_def Cons_nth_drop_Suc [symmetric])

text \<open>\<open>Iterator::next\<close> on the stack of frames, its top first.\<close>

function iter_next :: "('s, 'l) frame list \<Rightarrow> step_path option \<times> ('s, 'l) frame list" where
  "iter_next [] = (None, [])"
| "iter_next (f # stack) =
     (if \<not> yielded_prologue f \<and> prologue (fr_pipeline f) \<noteq> None
      then (Some (fr_path f @ sp_prologue), f\<lparr>yielded_prologue := True\<rparr> # stack)
      else if next_ix f < length (steps (fr_pipeline f))
      then let ix = next_ix f; f' = f\<lparr>next_ix := ix + 1\<rparr> in
        (case steps (fr_pipeline f) ! ix of
           Step s \<Rightarrow> (Some (fr_path f @ sp_step ix), f' # stack)
         | Nested b p \<Rightarrow> iter_next (new_frame p (fr_path f @ sp_step ix) # f' # stack))
      else if \<not> yielded_epilogue f \<and> epilogue (fr_pipeline f) \<noteq> None
      then (Some (fr_path f @ sp_epilogue), f\<lparr>yielded_epilogue := True\<rparr> # stack)
      else iter_next stack)"
  by pat_completeness auto
termination
  by (relation "measure (\<lambda>st. sum_list (map frame_weight st))")
    (auto simp: weight_new_frame weight_drop_step frame_weight_pos)

declare iter_next.simps(2) [simp del]

lemma iter_next_weight:
  "iter_next st = (Some p, st') \<Longrightarrow> sum_list (map frame_weight st') < sum_list (map frame_weight st)"
proof (induction st rule: iter_next.induct)
  case (2 f stack)
  show ?case
  proof (cases "\<not> yielded_prologue f \<and> prologue (fr_pipeline f) \<noteq> None")
    case True
    with 2(3) show ?thesis by (auto simp: iter_next.simps(2) frame_weight_def)
  next
    case np: False
    show ?thesis
    proof (cases "next_ix f < length (steps (fr_pipeline f))")
      case True
      show ?thesis
      proof (cases "steps (fr_pipeline f) ! next_ix f")
        case (Step s)
        with 2(3) np True weight_drop_step [OF True] show ?thesis
          by (auto simp: iter_next.simps(2) Let_def)
      next
        case (Nested b q)
        with 2(1) [OF np True refl refl Nested] 2(3) np True weight_drop_step [OF True] show ?thesis
          by (auto simp: iter_next.simps(2) Let_def weight_new_frame)
      qed
    next
      case False
      with 2(2) 2(3) np show ?thesis
        using frame_weight_pos [of f]
        by (auto simp: iter_next.simps(2) split: if_splits) (auto simp: frame_weight_def)
    qed
  qed
qed simp

text \<open>All paths the iterator yields, \<open>iter_steps\<close> of the pipeline.\<close>

function iter_collect :: "('s, 'l) frame list \<Rightarrow> step_path list" where
  "iter_collect st =
     (case iter_next st of (None, st') \<Rightarrow> [] | (Some p, st') \<Rightarrow> p # iter_collect st')"
  by pat_completeness auto
termination
  by (relation "measure (\<lambda>st. sum_list (map frame_weight st))") 
    (simp_all, metis iter_next_weight)

declare iter_collect.simps [simp del]

definition iter_steps :: "('s, 'l) pipeline \<Rightarrow> step_path list" where
  "iter_steps p = iter_collect [new_frame p []]"

subsection \<open>Reference enumeration\<close>

text \<open>
  The paths of a pipeline in order: prologue, items, epilogue; the paths of a nested pipeline
  follow the index of its item.
\<close>

primrec all_paths :: "('s, 'l) pipeline \<Rightarrow> step_path list"
  and item_paths :: "('s, 'l) step_or_pipeline \<Rightarrow> step_path list" where
  "all_paths (Pipeline pro epi items l name) =
     (if pro = None then [] else [sp_prologue])
     @ concat (map (\<lambda>(ix, ps). map ((@) (sp_step ix)) ps) (enumerate 0 (map item_paths items)))
     @ (if epi = None then [] else [sp_epilogue])"
| "item_paths (Step s) = [[]]"
| "item_paths (Nested b p) = all_paths p"

text \<open>A path leads to a step of the pipeline.\<close>

fun valid_path :: "('s, 'l) pipeline \<Rightarrow> step_path \<Rightarrow> bool" where
  "valid_path p [] \<longleftrightarrow> False"
| "valid_path p (l # rest) \<longleftrightarrow>
     (if rest = [] \<and> l = PROLOGUE_INDEX then prologue p \<noteq> None
      else if rest = [] \<and> l = EPILOGUE_INDEX then epilogue p \<noteq> None
      else if 1 \<le> l \<and> l \<le> length (steps p)
      then (case steps p ! (l - 1) of
              Step s \<Rightarrow> rest = []
            | Nested b q \<Rightarrow> valid_path q rest)
      else False)"

text \<open>Vectors are shorter than \<open>2 ^ 63\<close>, so no item has the epilogue's index.\<close>

primrec small_pipeline :: "('s, 'l) pipeline \<Rightarrow> bool"
  and small_item :: "('s, 'l) step_or_pipeline \<Rightarrow> bool" where
  "small_pipeline (Pipeline pro epi items l name) \<longleftrightarrow>
     length items < 2 ^ 63 \<and> list_all small_item items"
| "small_item (Step s) = True"
| "small_item (Nested b p) = small_pipeline p"

subsection \<open>The iterator yields the reference enumeration\<close>

definition items_rest :: "step_path \<Rightarrow> nat \<Rightarrow> ('s, 'l) step_or_pipeline list \<Rightarrow> step_path list" where
  "items_rest path n items =
     concat (map (\<lambda>(ix, ps). map ((@) (path @ sp_step ix)) ps) (enumerate n (map item_paths items)))"

lemma items_rest_simps [simp]:
  "items_rest path n [] = []"
  "items_rest path n (x # xs) = map ((@) (path @ sp_step n)) (item_paths x) @ items_rest path (Suc n) xs"
  by (simp_all add: items_rest_def)

definition frame_rest :: "('s, 'l) frame \<Rightarrow> step_path list" where
  "frame_rest f =
     (if \<not> yielded_prologue f \<and> prologue (fr_pipeline f) \<noteq> None then [fr_path f @ sp_prologue] else [])
     @ items_rest (fr_path f) (next_ix f) (drop (next_ix f) (steps (fr_pipeline f)))
     @ (if \<not> yielded_epilogue f \<and> epilogue (fr_pipeline f) \<noteq> None then [fr_path f @ sp_epilogue] else [])"

lemma map_append_items_rest: "map ((@) path) (items_rest [] n xs) = items_rest path n xs"
  by (induction xs arbitrary: n) auto

lemma frame_rest_new: "frame_rest (new_frame p path) = map ((@) path) (all_paths p)"
proof (cases p)
  case (Pipeline pro epi items l name)
  have "map ((@) path) (concat (map (\<lambda>(ix, ps). map ((@) (sp_step ix)) ps)
      (enumerate 0 (map item_paths items)))) = items_rest path 0 items"
    using map_append_items_rest [of path 0 items] by (simp add: items_rest_def)
  with Pipeline show ?thesis by (simp add: frame_rest_def new_frame_def)
qed

lemma frame_rest_item:
  assumes "\<not> (\<not> yielded_prologue f \<and> prologue (fr_pipeline f) \<noteq> None)"
    and "next_ix f < length (steps (fr_pipeline f))"
  shows "frame_rest f = map ((@) (fr_path f @ sp_step (next_ix f)))
      (item_paths (steps (fr_pipeline f) ! next_ix f)) @ frame_rest (f\<lparr>next_ix := next_ix f + 1\<rparr>)"
  using assms by (auto simp: frame_rest_def Cons_nth_drop_Suc [symmetric])

lemma iter_next_rest:
  "concat (map frame_rest st) =
     (case iter_next st of (None, st') \<Rightarrow> [] | (Some p, st') \<Rightarrow> p # concat (map frame_rest st'))"
proof (induction st rule: iter_next.induct)
  case (2 f stack)
  show ?case
  proof (cases "\<not> yielded_prologue f \<and> prologue (fr_pipeline f) \<noteq> None")
    case True
    then show ?thesis
      by (simp add: iter_next.simps(2) frame_rest_def [of f]
          frame_rest_def [of "f\<lparr>yielded_prologue := True\<rparr>"])
  next
    case np: False
    show ?thesis
    proof (cases "next_ix f < length (steps (fr_pipeline f))")
      case True
      note item = frame_rest_item [OF np True]
      show ?thesis
      proof (cases "steps (fr_pipeline f) ! next_ix f")
        case (Step s)
        with item np True show ?thesis by (auto simp: iter_next.simps(2) Let_def)
      next
        case (Nested b q)
        with item np True 2(1) [OF np True refl refl Nested] show ?thesis
          by (auto simp: iter_next.simps(2) Let_def frame_rest_new)
      qed
    next
      case False
      with np 2(2) show ?thesis
        by (cases "\<not> yielded_epilogue f \<and> epilogue (fr_pipeline f) \<noteq> None")
          (auto simp: iter_next.simps(2) frame_rest_def [of f]
            frame_rest_def [of "f\<lparr>yielded_epilogue := True\<rparr>"])
    qed
  qed
qed simp

lemma iter_collect_rest: "iter_collect st = concat (map frame_rest st)"
proof (induction st rule: iter_collect.induct)
  case (1 st)
  then show ?case
    by (subst iter_collect.simps, subst iter_next_rest)
      (auto split: prod.split option.split)
qed

lemma map_append_Nil: "map ((@) []) xs = xs"
  by (induction xs) auto

lemma iter_steps_all_paths: "iter_steps p = all_paths p"
  by (simp add: iter_steps_def iter_collect_rest frame_rest_new map_append_Nil)

subsection \<open>The reference enumerates the valid paths\<close>

lemma set_items_rest:
  "set (items_rest path n xs) = {path @ [Suc (n + i)] @ q | i q. i < length xs \<and> q \<in> set (item_paths (xs ! i))}"
proof (induction xs arbitrary: n)
  case (Cons x xs)
  have "{path @ [Suc (n + i)] @ q | i q. i < length (x # xs) \<and> q \<in> set (item_paths ((x # xs) ! i))} =
     {path @ [Suc n] @ q | q. q \<in> set (item_paths x)} \<union>
     {path @ [Suc (Suc n + i)] @ q | i q. i < length xs \<and> q \<in> set (item_paths (xs ! i))}"
    by (auto simp: less_Suc_eq_0_disj)
  with Cons show ?case by (auto simp: sp_step_def index_defs)
qed simp

lemma items_rest_distinct:
  "(\<And>x. x \<in> set xs \<Longrightarrow> distinct (item_paths x)) \<Longrightarrow> distinct (items_rest path n xs)"
proof (induction xs arbitrary: n)
  case (Cons x xs)
  have "set (map ((@) (path @ sp_step n)) (item_paths x)) \<inter> set (items_rest path (Suc n) xs) = {}"
    by (auto simp: set_items_rest sp_step_def index_defs)
  with Cons show ?case
    by (auto simp: distinct_map inj_on_def)
qed simp

lemma all_paths_items:
  "all_paths p = (if prologue p = None then [] else [sp_prologue])
     @ items_rest [] 0 (steps p) @ (if epilogue p = None then [] else [sp_epilogue])"
  by (cases p) (simp add: items_rest_def)

lemma small_steps:
  assumes "small_pipeline p"
  shows "length (steps p) < 2 ^ 63" "x \<in> set (steps p) \<Longrightarrow> small_item x"
  using assms by (cases p; simp add: list_all_iff)+

lemma valid_path_iff:
  "small_pipeline p \<Longrightarrow> path \<in> set (all_paths p) \<longleftrightarrow> valid_path p path"
proof (induction path arbitrary: p)
  case Nil
  show ?case by (auto simp: all_paths_items set_items_rest sp_prologue_def sp_epilogue_def)
next
  case (Cons l rest)
  have len: "length (steps p) < 2 ^ 63" using small_steps(1) [OF Cons.prems] .
  have item: "rest \<in> set (item_paths (steps p ! i)) \<longleftrightarrow>
      (case steps p ! i of Step s \<Rightarrow> rest = [] | Nested b q \<Rightarrow> valid_path q rest)"
    if "i < length (steps p)" for i
    using small_steps(2) [OF Cons.prems, OF nth_mem [OF that]] Cons.IH
    by (cases "steps p ! i") auto
  have "l # rest \<in> set (items_rest [] 0 (steps p)) \<longleftrightarrow>
      1 \<le> l \<and> l \<le> length (steps p) \<and> rest \<in> set (item_paths (steps p ! (l - 1)))"
    by (cases l) (auto simp: set_items_rest Suc_le_eq)
  then have "l # rest \<in> set (items_rest [] 0 (steps p)) \<longleftrightarrow>
      1 \<le> l \<and> l \<le> length (steps p) \<and>
      (case steps p ! (l - 1) of Step s \<Rightarrow> rest = [] | Nested b q \<Rightarrow> valid_path q rest)"
    using item [of "l - 1"] by (cases l) (auto simp: Suc_le_eq)
  then show ?case
    using len by (auto simp: all_paths_items sp_prologue_def sp_epilogue_def index_defs)
qed

lemma distinct_all_paths:
  fixes p :: "('s, 'l) pipeline" and x :: "('s, 'l) step_or_pipeline"
  shows "small_pipeline p \<Longrightarrow> distinct (all_paths p)"
    and "small_item x \<Longrightarrow> distinct (item_paths x)"
proof (induction p and x rule: pipeline.induct step_or_pipeline.induct)
  case (Pipeline pro epi items l name)
  then have items: "distinct (items_rest [] 0 items)"
    by (intro items_rest_distinct) (auto simp: list_all_iff)
  have len: "length items < 2 ^ 63" using Pipeline.prems by simp
  have "[PROLOGUE_INDEX] \<notin> set (items_rest [] 0 items)"
    by (auto simp: set_items_rest index_defs)
  moreover have "[EPILOGUE_INDEX] \<notin> set (items_rest [] 0 items)"
    using len by (auto simp: set_items_rest index_defs)
  moreover have "PROLOGUE_INDEX \<noteq> EPILOGUE_INDEX" by (simp add: index_defs)
  ultimately show ?case
    using items by (auto simp: all_paths_items sp_prologue_def sp_epilogue_def simp del: all_paths.simps)
qed auto

subsection \<open>Properties\<close>

text \<open>A sample: a prologue, one step and a loop of two steps with an epilogue.\<close>

definition sample_pipeline :: "(nat, nat) pipeline" where
  "sample_pipeline =
     with_pipeline (with_step (with_prologue (pipeline_named ''sample'') 0) 1) Loop
       (with_epilogue (with_step (with_step (pipeline_named ''inner'') 2) 3) 4)"

lemmas sample_pipeline_defs =
  sample_pipeline_def with_pipeline_def with_step_def with_prologue_def with_epilogue_def
  pipeline_named_def

lemma sample_pipeline_small: "small_pipeline sample_pipeline"
  by (simp add: sample_pipeline_defs)

text \<open>
  The iterator over step paths terminates and yields every path that leads to a step,
  of nested pipelines too, exactly once and no other path, in the order prologue, items,
  epilogue of each pipeline.
\<close>

theorem iter_steps_complete:
  assumes "small_pipeline p"
  shows "iter_steps p = all_paths p \<and> set (iter_steps p) = {path. valid_path p path} \<and>
    distinct (iter_steps p)"
  using assms by (auto simp: iter_steps_all_paths valid_path_iff distinct_all_paths(1))

theorem iter_steps_complete_witness:
  "iter_steps sample_pipeline = [[0], [1], [2, 1], [2, 2], [2, EPILOGUE_INDEX]]"
  using iter_steps_complete [OF sample_pipeline_small]
  by (simp add: sample_pipeline_defs sp_prologue_def sp_epilogue_def sp_step_def STEP0_INDEX_def
      PROLOGUE_INDEX_def)

end
