(* ===== verification/Navi.thy ===== *)
theory Navi
  imports Pipelines
begin

section \<open>The step navigator\<close>

text \<open>
  \<open>StepNavigator\<close> of \<open>crates/pipeline/src/pipelines/exec/navi.rs\<close>: a path with the list of the
  pipelines that enclose its step, outermost first, and the choice of the next step from the
  outcome of the current one. The code climbs from the step towards the root. The reference
  \<open>spec_next\<close> goes the other way: it is defined by recursion on the structure of the pipeline
  and says what a nested pipeline does with an outcome before what its parent does.

  Every operation returns an option whose \<open>None\<close> is a panic of the code (an \<open>expect\<close>, an
  \<open>assert\<close> or an \<open>unreachable\<close>); the inner option is the one the code returns.
\<close>

type_synonym ('s, 'l) navigator = "step_path \<times> ('s, 'l) pipeline list"

subsection \<open>Operations\<close>

definition nav_pipeline :: "('s, 'l) navigator \<Rightarrow> ('s, 'l) pipeline option" where
  "nav_pipeline n = (if snd n = [] then None else Some (last (snd n)))"

definition nav_root_pipeline :: "('s, 'l) navigator \<Rightarrow> ('s, 'l) pipeline option" where
  "nav_root_pipeline n = (if snd n = [] then None else Some (hd (snd n)))"

definition nav_join :: "('s, 'l) navigator \<Rightarrow> ('s, 'l) navigator \<Rightarrow> ('s, 'l) navigator" where
  "nav_join a b = (fst a @ fst b, snd a @ snd b)"

lemma nested_weight:
  "i < length (steps p) \<Longrightarrow> steps p ! i = Nested b q \<Longrightarrow> pipeline_weight q < pipeline_weight p"
proof (cases p)
  case (Pipeline pro epi items l name)
  assume i: "i < length (steps p)" "steps p ! i = Nested b q"
  with Pipeline have "Nested b q \<in> set items" by (metis nth_mem pipeline.sel(3))
  then have "item_weight (Nested b q) \<le> sum_list (map item_weight items)"
    by (intro member_le_sum_list) (auto simp: image_iff intro!: bexI [of _ "Nested b q"])
  with Pipeline show ?thesis by simp
qed

text \<open>\<open>entrypoint\<close> and \<open>enter\<close> call each other: an item that is a pipeline is entered at its entrypoint.\<close>

function entrypoint :: "('s, 'l) pipeline \<Rightarrow> ('s, 'l) navigator option option"
  and enter :: "('s, 'l) navigator \<Rightarrow> ('s, 'l) navigator option option" where
  "entrypoint p =
     (if pipeline_is_empty p then Some None
      else if prologue p \<noteq> None then Some (Some (sp_prologue, [p]))
      else if steps p = [] then
        (if epilogue p \<noteq> None then Some (Some (sp_epilogue, [p])) else Some None)
      else enter (sp_step0, [p]))"
| "enter n =
     (case nav_pipeline n of
        None \<Rightarrow> None
      | Some enclosing \<Rightarrow>
          (case sp_leaf (fst n) of
             None \<Rightarrow> None
           | Some leaf \<Rightarrow>
               if leaf = PROLOGUE_INDEX \<or> leaf = EPILOGUE_INDEX then
                 (if prologue enclosing \<noteq> None \<or> epilogue enclosing \<noteq> None then Some (Some n) else None)
               else if leaf < STEP0_INDEX then None
               else (case list_get (steps enclosing) (leaf - STEP0_INDEX) of
                       None \<Rightarrow> Some None
                     | Some (Step s) \<Rightarrow> Some (Some n)
                     | Some (Nested b nested) \<Rightarrow>
                         (case entrypoint nested of
                            None \<Rightarrow> None
                          | Some None \<Rightarrow> Some None
                          | Some (Some e) \<Rightarrow> Some (Some (nav_join n e))))))"
  by pat_completeness auto
termination
  by (relation "measure (\<lambda>x. case x of Inl p \<Rightarrow> 2 * pipeline_weight p + 1
                           | Inr n \<Rightarrow> 2 * pipeline_weight (last (snd n)))")
    (auto simp: nav_pipeline_def list_get_Some split: if_splits dest: nested_weight)

declare entrypoint.simps [simp del] enter.simps [simp del]

text \<open>\<open>StepPath::navigator\<close>: the loop collects the enclosing pipelines.\<close>

fun navigator_loop ::
    "('s, 'l) pipeline list \<Rightarrow> ('s, 'l) pipeline \<Rightarrow> step_path \<Rightarrow> ('s, 'l) pipeline list option" where
  "navigator_loop anc p [] = Some (anc @ [p])"
| "navigator_loop anc p [l] = Some (anc @ [p])"
| "navigator_loop anc p (l # l' # rest) =
     (if l < STEP0_INDEX then None
      else case list_get (steps p) (l - STEP0_INDEX) of
             Some (Nested b q) \<Rightarrow> navigator_loop (anc @ [p]) q (l' # rest)
           | _ \<Rightarrow> None)"

definition navigator :: "step_path \<Rightarrow> ('s, 'l) pipeline \<Rightarrow> ('s, 'l) navigator option option" where
  "navigator path root =
     (if path = [] then None
      else case navigator_loop [] root path of
             None \<Rightarrow> Some None
           | Some ancestors \<Rightarrow> enter (path, ancestors))"

definition nav_instance :: "('s, 'l) navigator \<Rightarrow> 's option" where
  "nav_instance n =
     (case (sp_leaf (fst n), nav_pipeline n) of
        (Some leaf, Some enclosing) \<Rightarrow>
          if leaf = PROLOGUE_INDEX then prologue enclosing
          else if leaf = EPILOGUE_INDEX then epilogue enclosing
          else (case list_get (steps enclosing) (leaf - STEP0_INDEX) of
                  Some (Step s) \<Rightarrow> Some s
                | _ \<Rightarrow> None)
      | _ \<Rightarrow> None)"

definition nav_behavior :: "('s, 'l) navigator \<Rightarrow> behavior option" where
  "nav_behavior n =
     (if is_toplevel (fst n) then Some Once
      else case remove_leaf (fst n) of
        Some (Some parent_path) \<Rightarrow>
          (case (list_get (rev (snd n)) 1, sp_leaf parent_path) of
             (Some grandparent, Some l) \<Rightarrow>
               if l < STEP0_INDEX then None
               else (case list_get (steps grandparent) (l - STEP0_INDEX) of
                       Some (Nested b q) \<Rightarrow> Some b
                     | _ \<Rightarrow> None)
           | _ \<Rightarrow> None)
      | _ \<Rightarrow> None)"

definition nav_ancestor :: "('s, 'l) navigator \<Rightarrow> ('s, 'l) navigator option option" where
  "nav_ancestor n =
     (case remove_leaf (fst n) of
        None \<Rightarrow> None
      | Some None \<Rightarrow> Some None
      | Some (Some path) \<Rightarrow> if snd n = [] then None else Some (Some (path, butlast (snd n))))"

lemma nav_ancestor_length:
  "nav_ancestor n = Some (Some a) \<Longrightarrow> length (fst a) < length (fst n)"
  by (auto simp: nav_ancestor_def remove_leaf_def split: if_splits option.splits)

definition nav_with_leaf :: "nat \<Rightarrow> ('s, 'l) navigator \<Rightarrow> ('s, 'l) navigator option" where
  "nav_with_leaf l n = map_option (\<lambda>path. (path, snd n)) (replace_leaf l (fst n))"

function after_loop :: "('s, 'l) navigator \<Rightarrow> ('s, 'l) navigator option option"
  and after_prologue :: "('s, 'l) navigator \<Rightarrow> ('s, 'l) navigator option option"
  and next_in_parent :: "('s, 'l) navigator \<Rightarrow> ('s, 'l) navigator option option" where
  "after_loop n =
     (case nav_pipeline n of
        None \<Rightarrow> None
      | Some enclosing \<Rightarrow>
          if epilogue enclosing \<noteq> None then map_option Some (nav_with_leaf EPILOGUE_INDEX n)
          else next_in_parent n)"
| "after_prologue n =
     (case nav_pipeline n of
        None \<Rightarrow> None
      | Some enclosing \<Rightarrow>
          if steps enclosing = [] then after_loop n
          else (case nav_with_leaf STEP0_INDEX n of None \<Rightarrow> None | Some m \<Rightarrow> enter m))"
| "next_in_parent n =
     (case nav_ancestor n of
        None \<Rightarrow> None
      | Some None \<Rightarrow> Some None
      | Some (Some ancestor) \<Rightarrow>
          (case sp_leaf (fst ancestor) of
             None \<Rightarrow> None
           | Some leaf \<Rightarrow>
               if leaf < STEP0_INDEX then Some None
               else (case nav_pipeline ancestor of
                       None \<Rightarrow> None
                     | Some enclosing \<Rightarrow>
                         if leaf - STEP0_INDEX + 1 \<ge> length (steps enclosing) then
                           (case nav_behavior ancestor of
                              None \<Rightarrow> None
                            | Some Loop \<Rightarrow> after_prologue ancestor
                            | Some Once \<Rightarrow> after_loop ancestor)
                         else enter (increment_leaf (fst ancestor), snd ancestor))))"
  by pat_completeness auto
termination
  by (relation "measure (\<lambda>x. case x of
        Inl n \<Rightarrow> 3 * length (fst n) + 1
      | Inr (Inl n) \<Rightarrow> 3 * length (fst n) + 2
      | Inr (Inr n) \<Rightarrow> 3 * length (fst n))")
    (auto dest: nav_ancestor_length)

declare after_loop.simps [simp del] after_prologue.simps [simp del] next_in_parent.simps [simp del]

definition next_ok :: "('s, 'l) navigator \<Rightarrow> ('s, 'l) navigator option option" where
  "next_ok n =
     (case (sp_leaf (fst n), nav_pipeline n) of
        (Some leaf, Some enclosing) \<Rightarrow>
          if leaf = EPILOGUE_INDEX then next_in_parent n
          else if leaf = PROLOGUE_INDEX then after_prologue n
          else if steps enclosing = [] then None
          else if leaf < STEP0_INDEX then None
          else let position = leaf - STEP0_INDEX;
                   is_last = (position + 1 \<ge> length (steps enclosing))
               in (case (nav_behavior n, is_last) of
                     (None, _) \<Rightarrow> None
                   | (Some Loop, True) \<Rightarrow>
                       (case nav_with_leaf STEP0_INDEX n of None \<Rightarrow> None | Some m \<Rightarrow> enter m)
                   | (Some Once, True) \<Rightarrow> after_loop n
                   | (Some _, False) \<Rightarrow> enter (increment_leaf (fst n), snd n))
      | _ \<Rightarrow> None)"

definition next_break :: "('s, 'l) navigator \<Rightarrow> ('s, 'l) navigator option option" where
  "next_break n =
     (case sp_leaf (fst n) of
        None \<Rightarrow> None
      | Some leaf \<Rightarrow> if leaf = EPILOGUE_INDEX then next_in_parent n else after_loop n)"

subsection \<open>Reference semantics\<close>

text \<open>The outcome of a step as far as navigation is concerned.\<close>

datatype flow = FlowOk | FlowBreak

datatype next_item = Goto step_path | Done

text \<open>The first step of a pipeline that has one in every nested pipeline.\<close>

fun first_of :: "('s, 'l) pipeline \<Rightarrow> step_path" where
  "first_of (Pipeline (Some s) epi items l name) = [PROLOGUE_INDEX]"
| "first_of (Pipeline None epi [] l name) = [EPILOGUE_INDEX]"
| "first_of (Pipeline None epi (Step s # items) l name) = [STEP0_INDEX]"
| "first_of (Pipeline None epi (Nested b q # items) l name) = STEP0_INDEX # first_of q"

definition item_entry :: "('s, 'l) pipeline \<Rightarrow> nat \<Rightarrow> step_path" where
  "item_entry p i = (case steps p ! i of Step s \<Rightarrow> [Suc i] | Nested b q \<Rightarrow> Suc i # first_of q)"

definition spec_after_loop :: "('s, 'l) pipeline \<Rightarrow> next_item" where
  "spec_after_loop p = (if epilogue p = None then Done else Goto [EPILOGUE_INDEX])"

text \<open>What follows the item at index \<open>i\<close> when it is finished.\<close>

definition spec_advance :: "behavior \<Rightarrow> ('s, 'l) pipeline \<Rightarrow> nat \<Rightarrow> next_item" where
  "spec_advance b p i =
     (if Suc i < length (steps p) then Goto (item_entry p (Suc i))
      else if b = Loop then Goto (item_entry p 0)
      else spec_after_loop p)"

fun spec_next :: "behavior \<Rightarrow> ('s, 'l) pipeline \<Rightarrow> step_path \<Rightarrow> flow \<Rightarrow> next_item" where
  "spec_next b p [] fl = Done"
| "spec_next b p [l] fl =
     (if l = EPILOGUE_INDEX then Done
      else if fl = FlowBreak then spec_after_loop p
      else if l = PROLOGUE_INDEX then
        (if steps p = [] then spec_after_loop p else Goto (item_entry p 0))
      else spec_advance b p (l - 1))"
| "spec_next b p (l # l' # rest) fl =
     (case steps p ! (l - 1) of
        Nested b' q \<Rightarrow>
          (case spec_next b' q (l' # rest) fl of
             Goto r \<Rightarrow> Goto (l # r)
           | Done \<Rightarrow> spec_advance b p (l - 1))
      | Step s \<Rightarrow> Done)"

text \<open>No nested pipeline is without a step.\<close>

primrec inhabited :: "('s, 'l) pipeline \<Rightarrow> bool"
  and item_inhabited :: "('s, 'l) step_or_pipeline \<Rightarrow> bool" where
  "inhabited (Pipeline pro epi items l name) \<longleftrightarrow>
     (pro \<noteq> None \<or> epi \<noteq> None \<or> items \<noteq> []) \<and> list_all item_inhabited items"
| "item_inhabited (Step s) = True"
| "item_inhabited (Nested b p) = inhabited p"

text \<open>The pipelines that enclose the step at a path.\<close>

fun anc_chain :: "('s, 'l) pipeline \<Rightarrow> step_path \<Rightarrow> ('s, 'l) pipeline list" where
  "anc_chain p [] = [p]"
| "anc_chain p [l] = [p]"
| "anc_chain p (l # l' # rest) =
     (case steps p ! (l - 1) of Nested b q \<Rightarrow> p # anc_chain q (l' # rest) | Step s \<Rightarrow> [p])"

definition nav_at :: "('s, 'l) pipeline \<Rightarrow> step_path \<Rightarrow> ('s, 'l) navigator" where
  "nav_at p path = (path, anc_chain p path)"

subsection \<open>Entering an item\<close>

lemma inhabited_item:
  "inhabited p \<Longrightarrow> i < length (steps p) \<Longrightarrow> steps p ! i = Nested b q \<Longrightarrow> inhabited q"
  by (cases p) (metis inhabited.simps item_inhabited.simps(2) list_all_length pipeline.sel(3))

lemma small_nested:
  "small_pipeline p \<Longrightarrow> i < length (steps p) \<Longrightarrow> steps p ! i = Nested b q \<Longrightarrow> small_pipeline q"
  by (metis small_item.simps(2) small_steps(2) nth_mem)

lemma small_index: "small_pipeline p \<Longrightarrow> i < length (steps p) \<Longrightarrow> Suc i \<noteq> EPILOGUE_INDEX"
  using small_steps(1) [of p] by (auto simp: index_defs)

lemma first_of_ne [simp]: "first_of p \<noteq> []"
  by (induction p rule: first_of.induct) auto

lemma anc_chain_Cons:
  "rest \<noteq> [] \<Longrightarrow> steps p ! (l - 1) = Nested b q \<Longrightarrow> anc_chain p (l # rest) = p # anc_chain q rest"
  by (cases rest) auto

lemma anc_chain_ne [simp]: "anc_chain p path \<noteq> []"
  by (cases "(p, path)" rule: anc_chain.cases) (auto split: step_or_pipeline.split)

lemma valid_first_of: "inhabited p \<Longrightarrow> small_pipeline p \<Longrightarrow> valid_path p (first_of p)"
proof (induction p rule: first_of.induct)
  case (4 epi b q items l name)
  then show ?case by (simp add: index_defs)
qed (auto simp: index_defs)

lemma valid_item_entry:
  assumes "inhabited p" "small_pipeline p" "i < length (steps p)"
  shows "valid_path p (item_entry p i)"
proof (cases "steps p ! i")
  case (Step s)
  then show ?thesis
    using assms small_index [OF assms(2,3)] by (simp add: item_entry_def index_defs)
next
  case (Nested b q)
  with assms have "inhabited q" "small_pipeline q" by (blast intro: inhabited_item small_nested)+
  then have "valid_path q (first_of q)" by (rule valid_first_of)
  with Nested assms(3) show ?thesis by (simp add: item_entry_def)
qed

text \<open>\<open>enter\<close> and \<open>entrypoint\<close> find the first step below an item of the innermost pipeline.\<close>

lemma enter_item:
  assumes "\<And>b q. steps p ! i = Nested b q \<Longrightarrow> entrypoint q = Some (Some (nav_at q (first_of q)))"
    and "i < length (steps p)" "small_pipeline p"
  shows "enter (pre @ [Suc i], anc @ [p]) =
    Some (Some (pre @ item_entry p i, anc @ anc_chain p (item_entry p i)))"
proof -
  have "Suc i \<noteq> EPILOGUE_INDEX" using small_index assms(2,3) by blast
  then have leaf: "sp_leaf (pre @ [Suc i]) = Some (Suc i)" "Suc i \<noteq> PROLOGUE_INDEX" "\<not> Suc i < STEP0_INDEX"
    "Suc i - STEP0_INDEX = i" "Suc i \<noteq> EPILOGUE_INDEX"
    by (simp_all add: sp_leaf_def index_defs)
  show ?thesis
  proof (cases "steps p ! i")
    case (Step s)
    with assms(2) leaf show ?thesis
      by (subst enter.simps) (simp add: nav_pipeline_def list_get_def item_entry_def)
  next
    case (Nested b q)
    with assms leaf show ?thesis
      by (subst enter.simps)
        (simp add: nav_pipeline_def list_get_def item_entry_def nav_join_def nav_at_def
          anc_chain_Cons)
  qed
qed

lemma entrypoint_first:
  "inhabited p \<Longrightarrow> small_pipeline p \<Longrightarrow> entrypoint p = Some (Some (nav_at p (first_of p)))"
proof (induction p rule: first_of.induct)
  case (1 s epi items l name)
  then show ?case by (subst entrypoint.simps) (simp add: pipeline_is_empty_def sp_prologue_def nav_at_def)
next
  case (2 epi l name)
  then show ?case
    by (subst entrypoint.simps) (simp add: pipeline_is_empty_def sp_epilogue_def nav_at_def)
next
  case (3 epi s items l name)
  let ?p = "Pipeline None epi (Step s # items) l name :: ('a, 'b) pipeline"
  have "enter ([] @ [Suc 0], [] @ [?p]) = Some (Some ([] @ item_entry ?p 0, [] @ anc_chain ?p (item_entry ?p 0)))"
    by (rule enter_item) (use 3 in auto)
  then show ?case
    by (subst entrypoint.simps)
      (simp add: pipeline_is_empty_def sp_step0_def sp_step_def index_defs nav_at_def item_entry_def)
next
  case (4 epi b q items l name)
  let ?p = "Pipeline None epi (Nested b q # items) l name :: ('a, 'b) pipeline"
  have "enter ([] @ [Suc 0], [] @ [?p]) = Some (Some ([] @ item_entry ?p 0, [] @ anc_chain ?p (item_entry ?p 0)))"
    by (rule enter_item) (use 4 in auto)
  then show ?case
    by (subst entrypoint.simps)
      (simp add: pipeline_is_empty_def sp_step0_def sp_step_def index_defs nav_at_def item_entry_def)
qed

lemma enter_item_inhabited:
  assumes "inhabited p" "small_pipeline p" "i < length (steps p)"
  shows "enter (pre @ [Suc i], anc @ [p]) =
    Some (Some (pre @ item_entry p i, anc @ anc_chain p (item_entry p i)))"
  by (rule enter_item)
    (use assms in \<open>auto intro: entrypoint_first inhabited_item small_nested\<close>)

subsection \<open>The navigator of a valid path\<close>

lemma navigator_loop_chain:
  "valid_path p path \<Longrightarrow> navigator_loop anc p path = Some (anc @ anc_chain p path)"
proof (induction anc p path rule: navigator_loop.induct)
  case (3 anc p l l' rest)
  then obtain b q where "1 \<le> l" "l \<le> length (steps p)" "steps p ! (l - 1) = Nested b q"
    "valid_path q (l' # rest)"
    by (auto split: if_splits step_or_pipeline.splits)
  with 3 show ?case by (auto simp: index_defs list_get_def)
qed auto

lemma valid_last:
  "valid_path p path \<Longrightarrow> valid_path (last (anc_chain p path)) [last path]"
proof (induction p path rule: anc_chain.induct)
  case (3 p l l' rest)
  then obtain b q where q: "steps p ! (l - 1) = Nested b q" "valid_path q (l' # rest)"
    by (auto split: if_splits step_or_pipeline.splits)
  then have "valid_path (last (anc_chain q (l' # rest))) [last (l' # rest)]" by (rule 3(1))
  with q(1) show ?case by (simp del: valid_path.simps)
qed auto

lemma valid_path_ne: "valid_path p path \<Longrightarrow> path \<noteq> []"
  by auto

lemma navigator_valid:
  assumes "valid_path p path"
  shows "navigator path p = Some (Some (nav_at p path))" "\<exists>s. nav_instance (nav_at p path) = Some s"
proof -
  let ?l = "last path" and ?q = "last (anc_chain p path)"
  have v: "valid_path ?q [?l]" using valid_last [OF assms] .
  have ne: "path \<noteq> []" using assms by auto
  have "enter (path, anc_chain p path) = Some (Some (path, anc_chain p path))"
    using v ne
    by (subst enter.simps)
      (auto simp: nav_pipeline_def sp_leaf_def list_get_def index_defs split: if_splits
        step_or_pipeline.splits)
  then show "navigator path p = Some (Some (nav_at p path))"
    using ne navigator_loop_chain [OF assms, of "[]"] by (simp add: navigator_def nav_at_def)
  show "\<exists>s. nav_instance (nav_at p path) = Some s"
    using v ne
    by (auto simp: nav_instance_def nav_at_def nav_pipeline_def sp_leaf_def list_get_def
        index_defs split: if_splits step_or_pipeline.splits)
qed

subsection \<open>The navigator implements the reference\<close>

text \<open>
  The place of a pipeline \<open>p\<close> with behavior \<open>b\<close> in the whole: the path \<open>pre\<close> to it and the
  pipelines \<open>anc\<close> around it.
\<close>

definition nav_context ::
    "behavior \<Rightarrow> ('s, 'l) pipeline \<Rightarrow> step_path \<Rightarrow> ('s, 'l) pipeline list \<Rightarrow> bool" where
  "nav_context b p pre anc \<longleftrightarrow>
     pre = [] \<and> anc = [] \<and> b = Once \<or>
     pre \<noteq> [] \<and> anc \<noteq> [] \<and> 1 \<le> last pre \<and> last pre \<le> length (steps (last anc)) \<and>
       steps (last anc) ! (last pre - 1) = Nested b p"

lemma nav_behavior_context:
  assumes "nav_context b p pre anc"
  shows "nav_behavior (pre @ [l], anc @ [p]) = Some b"
proof (cases "pre = []")
  case True
  with assms show ?thesis
    by (simp add: nav_context_def nav_behavior_def is_toplevel_def sp_depth_def)
next
  case False
  with assms have c: "anc \<noteq> []" "1 \<le> last pre" "last pre \<le> length (steps (last anc))"
    "steps (last anc) ! (last pre - 1) = Nested b p"
    by (auto simp: nav_context_def)
  have "list_get (rev (anc @ [p])) 1 = Some (last anc)"
    using c(1) by (cases anc rule: rev_cases) (simp_all add: list_get_def)
  with False c show ?thesis
    by (auto simp: nav_behavior_def is_toplevel_def sp_depth_def remove_leaf_def sp_leaf_def
        list_get_def index_defs)
qed

lemma next_in_parent_indep:
  "next_in_parent (pre @ [l], anc @ [p]) = next_in_parent (pre @ [l'], anc @ [p'])"
  by (subst (1 2) next_in_parent.simps)
    (simp add: nav_ancestor_def remove_leaf_def is_toplevel_def sp_depth_def)

definition next_result ::
    "step_path \<Rightarrow> ('s, 'l) pipeline list \<Rightarrow> ('s, 'l) pipeline \<Rightarrow> next_item \<Rightarrow>
     ('s, 'l) navigator option option" where
  "next_result pre anc p nx =
     (case nx of
        Goto r \<Rightarrow> Some (Some (pre @ r, anc @ anc_chain p r))
      | Done \<Rightarrow> next_in_parent (pre @ [PROLOGUE_INDEX], anc @ [p]))"

lemma next_result_simps [simp]:
  "next_result pre anc p (Goto r) = Some (Some (pre @ r, anc @ anc_chain p r))"
  "next_result pre anc p Done = next_in_parent (pre @ [PROLOGUE_INDEX], anc @ [p])"
  by (simp_all add: next_result_def)

lemma after_loop_result:
  "after_loop (pre @ [l], anc @ [p]) = next_result pre anc p (spec_after_loop p)"
proof (cases "epilogue p")
  case None
  then show ?thesis
    using next_in_parent_indep [of pre l anc p PROLOGUE_INDEX p]
    by (subst after_loop.simps) (simp add: nav_pipeline_def spec_after_loop_def)
next
  case (Some s)
  then show ?thesis
    by (subst after_loop.simps)
      (simp add: nav_pipeline_def spec_after_loop_def nav_with_leaf_def replace_leaf_def)
qed

lemma after_prologue_result:
  assumes "inhabited p" "small_pipeline p"
  shows "after_prologue (pre @ [l], anc @ [p]) =
    next_result pre anc p (if steps p = [] then spec_after_loop p else Goto (item_entry p 0))"
proof (cases "steps p = []")
  case True
  then show ?thesis
    by (subst after_prologue.simps) (simp add: nav_pipeline_def after_loop_result)
next
  case False
  then show ?thesis
    using enter_item_inhabited [OF assms, of 0 pre anc]
    by (subst after_prologue.simps)
      (simp add: nav_pipeline_def nav_with_leaf_def replace_leaf_def index_defs)
qed

lemma next_in_parent_result:
  assumes "inhabited p" "small_pipeline p" "nav_context b p pre anc"
    and "1 \<le> l" "l \<le> length (steps p)"
  shows "next_in_parent ((pre @ [l]) @ [x], (anc @ [p]) @ [q]) =
    next_result pre anc p (spec_advance b p (l - 1))"
proof -
  note beh = nav_behavior_context [OF assms(3), of l]
  have anc: "nav_ancestor (pre @ [l, x], anc @ [p, q]) = Some (Some (pre @ [l], anc @ [p]))"
    by (simp add: nav_ancestor_def remove_leaf_def is_toplevel_def sp_depth_def butlast_append)
  have pl: "nav_pipeline (pre @ [l], anc @ [p]) = Some p" "sp_leaf (pre @ [l]) = Some l"
    by (simp_all add: nav_pipeline_def sp_leaf_def)
  have inc: "increment_leaf (pre @ [l]) = pre @ [Suc l]" by (simp add: increment_leaf_def)
  have l: "\<not> l < STEP0_INDEX" "l - STEP0_INDEX + 1 = l" "Suc (l - 1) = l"
    using assms(4) by (auto simp: index_defs)
  show ?thesis
  proof (cases "l < length (steps p)")
    case True
    then show ?thesis
      using enter_item_inhabited [OF assms(1,2) True, of pre anc] l
      by (subst next_in_parent.simps)
        (simp add: anc pl inc spec_advance_def)
  next
    case False
    with assms have ne: "steps p \<noteq> []" by auto
    show ?thesis
    proof (cases b)
      case Once
      with False l show ?thesis
        by (subst next_in_parent.simps) (simp add: anc pl beh spec_advance_def after_loop_result)
    next
      case Loop
      with False l ne show ?thesis
        by (subst next_in_parent.simps)
          (simp add: anc pl beh spec_advance_def after_prologue_result [OF assms(1,2)])
    qed
  qed
qed

definition next_flow :: "flow \<Rightarrow> ('s, 'l) navigator \<Rightarrow> ('s, 'l) navigator option option" where
  "next_flow fl n = (case fl of FlowOk \<Rightarrow> next_ok n | FlowBreak \<Rightarrow> next_break n)"

lemma next_flow_leaf:
  assumes "inhabited p" "small_pipeline p" "nav_context b p pre anc" "valid_path p [l]"
  shows "next_flow fl (pre @ [l], anc @ [p]) = next_result pre anc p (spec_next b p [l] fl)"
proof -
  have pl: "nav_pipeline (pre @ [l], anc @ [p]) = Some p" "sp_leaf (pre @ [l]) = Some l"
    by (simp_all add: nav_pipeline_def sp_leaf_def)
  note nip = next_in_parent_indep [of pre l anc p PROLOGUE_INDEX p]
  show ?thesis
  proof (cases fl)
    case FlowBreak
    with nip pl show ?thesis
      by (cases "l = EPILOGUE_INDEX") (simp_all add: next_flow_def next_break_def after_loop_result)
  next
    case ok: FlowOk
    consider "l = EPILOGUE_INDEX" | "l = PROLOGUE_INDEX" "l \<noteq> EPILOGUE_INDEX"
      | "l \<noteq> EPILOGUE_INDEX" "l \<noteq> PROLOGUE_INDEX" by blast
    then show ?thesis
    proof cases
      case 1
      with nip pl ok show ?thesis by (simp add: next_flow_def next_ok_def)
    next
      case 2
      with pl ok show ?thesis
        by (simp add: next_flow_def next_ok_def after_prologue_result [OF assms(1,2)])
    next
      case 3
      with assms(4) have l: "1 \<le> l" "l \<le> length (steps p)" by (auto split: if_splits)
      then have ls: "steps p \<noteq> []" "\<not> l < STEP0_INDEX" "l - STEP0_INDEX + 1 = l" "Suc (l - 1) = l"
        by (auto simp: index_defs)
      have enter_next: "enter (pre @ [Suc l], anc @ [p]) =
          Some (Some (pre @ item_entry p l, anc @ anc_chain p (item_entry p l)))" if "l < length (steps p)"
        using enter_item_inhabited [OF assms(1,2) that] .
      have enter_0: "enter (pre @ [STEP0_INDEX], anc @ [p]) =
          Some (Some (pre @ item_entry p 0, anc @ anc_chain p (item_entry p 0)))"
        using enter_item_inhabited [OF assms(1,2), of 0 pre anc] ls by (simp add: index_defs)
      show ?thesis
        using 3 pl ok ls enter_next enter_0 nav_behavior_context [OF assms(3), of l]
        by (cases b; cases "l < length (steps p)")
          (simp_all add: next_flow_def next_ok_def Let_def spec_advance_def after_loop_result
            nav_with_leaf_def replace_leaf_def increment_leaf_def)
    qed
  qed
qed

lemma next_flow_result:
  "inhabited p \<Longrightarrow> small_pipeline p \<Longrightarrow> nav_context b p pre anc \<Longrightarrow> valid_path p path \<Longrightarrow>
   next_flow fl (pre @ path, anc @ anc_chain p path) = next_result pre anc p (spec_next b p path fl)"
proof (induction b p path fl arbitrary: pre anc rule: spec_next.induct)
  case (2 b p l fl)
  then show ?case using next_flow_leaf by (simp del: valid_path.simps spec_next.simps)
next
  case (3 b p l l' rest fl)
  then obtain b' q where l: "1 \<le> l" "l \<le> length (steps p)" and q: "steps p ! (l - 1) = Nested b' q"
    "valid_path q (l' # rest)"
    by (auto split: if_splits step_or_pipeline.splits)
  have inner: "inhabited q" "small_pipeline q"
    using 3(2,3) l q inhabited_item [of p "l - 1"] small_nested [of p "l - 1"] by auto
  have "nav_context b' q (pre @ [l]) (anc @ [p])" using l q by (simp add: nav_context_def)
  from 3(1) [OF q(1) inner this q(2)]
  have IH: "next_flow fl (pre @ l # l' # rest, anc @ p # anc_chain q (l' # rest)) =
      next_result (pre @ [l]) (anc @ [p]) q (spec_next b' q (l' # rest) fl)"
    by (simp del: spec_next.simps)
  show ?case
  proof (cases "spec_next b' q (l' # rest) fl")
    case (Goto r)
    then have "r \<noteq> []"
      using IH by (cases rest) (auto simp: spec_advance_def spec_after_loop_def item_entry_def
          split: if_splits step_or_pipeline.splits next_item.splits)
    with Goto IH q show ?thesis by (simp add: anc_chain_Cons)
  next
    case Done
    with IH q next_in_parent_result [OF 3(2-4) l, of PROLOGUE_INDEX q] show ?thesis by simp
  qed
qed auto

lemma spec_advance_valid:
  assumes "inhabited p" "small_pipeline p" "i < length (steps p)" "spec_advance b p i = Goto r"
  shows "valid_path p r"
  using assms valid_item_entry [OF assms(1,2), of 0, OF order.strict_trans1 [OF _ assms(3)]]
    valid_item_entry [OF assms(1,2), of "Suc i"]
  by (auto simp: spec_advance_def spec_after_loop_def index_defs split: if_splits)

lemma spec_next_valid:
  "inhabited p \<Longrightarrow> small_pipeline p \<Longrightarrow> valid_path p path \<Longrightarrow> spec_next b p path fl = Goto r \<Longrightarrow>
   valid_path p r"
proof (induction b p path fl arbitrary: r rule: spec_next.induct)
  case (2 b p l fl)
  show ?case
  proof (cases "l \<noteq> EPILOGUE_INDEX \<and> l \<noteq> PROLOGUE_INDEX \<and> fl \<noteq> FlowBreak")
    case True
    with 2 have "l - 1 < length (steps p)" "spec_advance b p (l - 1) = Goto r"
      by (auto split: if_splits)
    with 2 show ?thesis using spec_advance_valid by blast
  next
    case False
    with 2 valid_item_entry [OF 2(1,2), of 0] show ?thesis
      by (auto simp: spec_after_loop_def index_defs split: if_splits)
  qed
next
  case (3 b p l l' rest fl)
  then obtain b' q where l: "1 \<le> l" "l \<le> length (steps p)" and q: "steps p ! (l - 1) = Nested b' q"
    "valid_path q (l' # rest)"
    by (auto split: if_splits step_or_pipeline.splits)
  have inner: "inhabited q" "small_pipeline q"
    using 3(2,3) l q inhabited_item [of p "l - 1"] small_nested [of p "l - 1"] by auto
  show ?case
  proof (cases "spec_next b' q (l' # rest) fl")
    case (Goto r')
    with 3(5) q(1) have r: "r = l # r'" by simp
    have "valid_path q r'" using 3(1) [OF q(1) inner q(2) Goto] .
    with valid_path_ne [OF this] q(1) l show ?thesis by (simp add: r)
  next
    case Done
    with 3(5) q(1) have "spec_advance b p (l - 1) = Goto r" by simp
    moreover have "l - 1 < length (steps p)" using l by simp
    ultimately show ?thesis using spec_advance_valid [OF 3(2,3)] by blast
  qed
qed simp

lemma spec_next_Done:
  "valid_path p path \<Longrightarrow> spec_next b p path fl = Done \<Longrightarrow> epilogue p = None \<or> path = [EPILOGUE_INDEX]"
proof (induction b p path fl rule: spec_next.induct)
  case (2 b p l fl)
  then show ?case by (auto simp: spec_after_loop_def spec_advance_def split: if_splits)
next
  case (3 b p l l' rest fl)
  then obtain b' q where q: "steps p ! (l - 1) = Nested b' q"
    by (auto split: if_splits step_or_pipeline.splits)
  with 3(3) show ?case
    by (auto simp: spec_advance_def spec_after_loop_def split: next_item.splits if_splits)
qed simp

lemma next_in_parent_top: "next_in_parent ([l], [p]) = Some None"
  by (subst next_in_parent.simps) (simp add: nav_ancestor_def remove_leaf_def is_toplevel_def sp_depth_def)

lemma next_flow_spec:
  assumes "inhabited p" "small_pipeline p" "valid_path p path"
  shows "next_flow fl (nav_at p path) =
    Some (case spec_next Once p path fl of Goto r \<Rightarrow> Some (nav_at p r) | Done \<Rightarrow> None)"
  using next_flow_result [OF assms(1,2) _ assms(3), of Once "[]" "[]" fl]
  by (simp add: nav_context_def nav_at_def next_in_parent_top split: next_item.split)

subsection \<open>Properties\<close>

lemma sample_pipeline_ok: "inhabited sample_pipeline" "valid_path sample_pipeline [2, 2]"
  by (simp_all add: sample_pipeline_defs index_defs)

text \<open>
  Claim C8: the navigator implements the structured semantics of nested pipelines and never
  panics. In a pipeline without empty nested pipelines, the step that follows a step that
  returned \<open>Ok\<close> or \<open>Break\<close> is the one the reference gives, and it exists in the pipeline; the
  pipeline ends where the reference is done.
\<close>

theorem navigator_implements_reference:
  assumes "inhabited p" "small_pipeline p" "valid_path p path"
  shows "next_ok (nav_at p path) =
      Some (case spec_next Once p path FlowOk of Goto r \<Rightarrow> Some (nav_at p r) | Done \<Rightarrow> None) \<and>
    next_break (nav_at p path) =
      Some (case spec_next Once p path FlowBreak of Goto r \<Rightarrow> Some (nav_at p r) | Done \<Rightarrow> None) \<and>
    (\<forall>fl r. spec_next Once p path fl = Goto r \<longrightarrow> valid_path p r)"
  using next_flow_spec [OF assms, of FlowOk] next_flow_spec [OF assms, of FlowBreak]
    spec_next_valid [OF assms]
  by (simp add: next_flow_def)

theorem navigator_implements_reference_witness:
  "next_ok (nav_at sample_pipeline [2, 2]) = Some (Some (nav_at sample_pipeline [2, 1])) \<and>
   next_break (nav_at sample_pipeline [2, 2]) = Some (Some (nav_at sample_pipeline [2, EPILOGUE_INDEX]))"
  using navigator_implements_reference [OF sample_pipeline_ok(1) sample_pipeline_small sample_pipeline_ok(2)]
  by (simp add: sample_pipeline_defs spec_advance_def spec_after_loop_def item_entry_def index_defs)

text \<open>
  Every path that the iterator yields is resolved by the navigator to a navigator at
  that very path, whose step instance exists; and the entrypoint of a pipeline with a step in
  every nested pipeline is the navigator of a valid path. The executor's \<open>expect\<close> calls on
  step paths therefore never fail.
\<close>

theorem navigator_resolves_every_step:
  assumes "small_pipeline p" "inhabited p"
  shows "(\<forall>path \<in> set (iter_steps p). navigator path p = Some (Some (nav_at p path)) \<and>
      nav_instance (nav_at p path) \<noteq> None) \<and>
    (\<exists>path \<in> set (iter_steps p). entrypoint p = Some (Some (nav_at p path)))"
proof -
  have "path \<in> set (iter_steps p) \<longleftrightarrow> valid_path p path" for path
    by (simp add: iter_steps_all_paths valid_path_iff [OF assms(1)])
  then show ?thesis
    using navigator_valid entrypoint_first [OF assms(2,1)] valid_first_of [OF assms(2,1)]
    by fastforce
qed

theorem navigator_resolves_every_step_witness:
  "navigator [2, 1] sample_pipeline = Some (Some (nav_at sample_pipeline [2, 1]))"
proof -
  have "[2, 1] \<in> set (iter_steps sample_pipeline)"
    by (simp add: iter_steps_all_paths sample_pipeline_defs sp_step_def index_defs)
  then show ?thesis
    using navigator_resolves_every_step [OF sample_pipeline_small sample_pipeline_ok(1)] by blast
qed

text \<open>
  The epilogue of the top-level pipeline is never skipped: if the pipeline has one, no
  step outside it ends the pipeline, whatever the step returns.
\<close>

theorem epilogue_runs_last:
  assumes "inhabited p" "small_pipeline p" "valid_path p path" "epilogue p \<noteq> None"
    and "next_flow fl (nav_at p path) = Some None"
  shows "path = [EPILOGUE_INDEX]"
  using assms spec_next_Done [OF assms(3), of Once fl]
  by (auto simp: next_flow_spec split: next_item.splits)

theorem epilogue_runs_last_witness:
  "next_flow FlowBreak (nav_at (with_epilogue sample_pipeline 9) [1]) \<noteq> Some None"
proof -
  let ?p = "with_epilogue sample_pipeline 9"
  have p: "inhabited ?p" "small_pipeline ?p" "valid_path ?p [1]" "epilogue ?p \<noteq> None"
    by (simp_all add: sample_pipeline_defs index_defs)
  show ?thesis
    using epilogue_runs_last [OF p, of FlowBreak] by (auto simp: EPILOGUE_INDEX_def)
qed

text \<open>
  An empty nested pipeline ends the whole pipeline. When the item after a step is a
  pipeline without steps, the navigator finds no next step after \<open>Ok\<close>, although later items and
  the epilogue are there to run.
\<close>

theorem empty_nested_pipeline_ends_pipeline:
  assumes "steps p = items @ Step s # Nested b q # rest" "pipeline_is_empty q" "small_pipeline p"
  shows "next_ok (nav_at p [length items + 1]) = Some None"
proof -
  let ?l = "length items + 1"
  have nth: "steps p ! ?l = Nested b q" and len: "?l < length (steps p)"
    using assms(1) by (simp_all add: nth_append)
  have idx: "?l \<noteq> EPILOGUE_INDEX" "Suc ?l \<noteq> EPILOGUE_INDEX"
    using small_steps(1) [OF assms(3)] len by (auto simp: index_defs)
  have "enter ([Suc ?l], [p]) = Some None"
    using nth len idx assms(2)
    by (subst enter.simps)
      (simp add: nav_pipeline_def sp_leaf_def list_get_def index_defs entrypoint.simps)
  then show ?thesis
    using len idx
    by (simp add: next_ok_def nav_at_def sp_leaf_def nav_pipeline_def nav_behavior_def is_toplevel_def
        sp_depth_def increment_leaf_def Let_def STEP0_INDEX_def PROLOGUE_INDEX_def)
      (auto split: if_splits)
qed

theorem empty_nested_pipeline_ends_pipeline_witness:
  "next_ok (nav_at (with_epilogue (with_step (with_pipeline (with_step (pipeline_named ''p'') 1) Once
     (pipeline_named ''empty'')) 2) 3) [1]) = (Some None :: (nat, nat) navigator option option)"
proof -
  let ?p = "with_epilogue (with_step (with_pipeline (with_step (pipeline_named ''p'') 1) Once
     (pipeline_named ''empty'')) 2) 3 :: (nat, nat) pipeline"
  show ?thesis
    using empty_nested_pipeline_ends_pipeline [of ?p "[]" 1 Once "pipeline_named ''empty''" "[Step 2]"]
    by (simp add: sample_pipeline_defs pipeline_is_empty_def)
qed

end
