(* ===== verification/Bundles.thy ===== *)
theory Bundles
  imports Prelude
begin

section \<open>Bundles\<close>

text \<open>
  Transactions as the code observes them, the \<open>Bundle\<close> trait with its extension trait
  (\<open>crates/core/src/platform/bundle/mod.rs\<close>, \<open>ext.rs\<close>) and its one implementation,
  \<open>FlashbotsBundle\<close> (\<open>flashbots.rs\<close>). The trait is the locale
  \<open>bundle_trait\<close>: the operations its clients call and the laws its documentation
  promises of \<open>without_transaction\<close>. It is interpreted on the \<open>FlashbotsBundle\<close>
  operations, and execution and revert protection use the facts of that interpretation.

  Not modelled: serde glue (\<open>Serialize\<close>, \<open>Deserialize\<close>) and \<open>Debug\<close>. Keccak,
  EIP-2718 decoding and signature recovery are parameters.
\<close>

subsection \<open>Transactions\<close>

text \<open>
  \<open>Recovered<types::Transaction<P>>\<close> is a reth type. The code reads it only through
  accessors; the record holds one field for each accessor that the code calls.
\<close>

record recovered_tx =
  tx_hash :: b256
  tx_signer :: address
  tx_nonce :: u64
  tx_encoded_2718 :: bytes
  tx_gas_limit :: u64
  tx_max_fee_per_gas :: u128
  tx_blob_gas_used :: "u64 option"
  tx_is_deposit :: bool
  tx_effective_tip_per_gas :: "u64 \<Rightarrow> u128 option"

subsection \<open>Eligibility\<close>

datatype eligibility = Eligible | TemporarilyIneligible | PermanentlyIneligible

definition eligibility_then :: "eligibility \<Rightarrow> (unit \<Rightarrow> 'a) \<Rightarrow> 'a option" where
  "eligibility_then e f = (if e = Eligible then Some (f ()) else None)"

definition eligibility_then_some :: "eligibility \<Rightarrow> 'a \<Rightarrow> 'a option" where
  "eligibility_then_some e t = (if e = Eligible then Some t else None)"

definition eligibility_into_bool :: "eligibility \<Rightarrow> bool" where
  "eligibility_into_bool e \<longleftrightarrow> e = Eligible"

definition eligibility_not :: "eligibility \<Rightarrow> bool" where
  "eligibility_not e \<longleftrightarrow> \<not> eligibility_into_bool e"

datatype bundle_conversion_error = Decoding string | Signature string

subsection \<open>FlashbotsBundle\<close>

text \<open>The fields of alloy's \<open>EthSendBundle\<close> that the code reads or writes.\<close>

record eth_send_bundle =
  txs :: "bytes list"
  block_number :: u64
  min_timestamp :: "u64 option"
  max_timestamp :: "u64 option"
  reverting_tx_hashes :: "b256 list"
  replacement_uuid :: "bytes option"
  dropping_tx_hashes :: "b256 list"
  refund_percent :: "u8 option"
  refund_recipient :: "address option"
  refund_tx_hashes :: "b256 list"

record flashbots_bundle =
  inner :: eth_send_bundle
  recovered :: "recovered_tx list"

definition default_eth_send_bundle :: eth_send_bundle where
  "default_eth_send_bundle =
     \<lparr>txs = [], block_number = 0, min_timestamp = None, max_timestamp = None,
      reverting_tx_hashes = [], replacement_uuid = None, dropping_tx_hashes = [],
      refund_percent = None, refund_recipient = None, refund_tx_hashes = []\<rparr>"

definition bundle_default :: flashbots_bundle where
  "bundle_default = \<lparr>inner = default_eth_send_bundle, recovered = []\<rparr>"

definition with_transaction :: "flashbots_bundle \<Rightarrow> recovered_tx \<Rightarrow> flashbots_bundle" where
  "with_transaction b tx =
     (if \<not> list_ex (\<lambda>t. tx_hash t = tx_hash tx) (recovered b)
      then b\<lparr>inner := (inner b)\<lparr>txs := txs (inner b) @ [tx_encoded_2718 tx]\<rparr>,
             recovered := recovered b @ [tx]\<rparr>
      else b)"

definition mark_as_revertable :: "flashbots_bundle \<Rightarrow> b256 \<Rightarrow> flashbots_bundle" where
  "mark_as_revertable b h =
     (if h \<notin> set (reverting_tx_hashes (inner b))
      then b\<lparr>inner := (inner b)\<lparr>reverting_tx_hashes := reverting_tx_hashes (inner b) @ [h]\<rparr>\<rparr>
      else b)"

definition mark_as_optional :: "flashbots_bundle \<Rightarrow> b256 \<Rightarrow> flashbots_bundle" where
  "mark_as_optional b h =
     (if h \<notin> set (dropping_tx_hashes (inner b))
      then b\<lparr>inner := (inner b)\<lparr>dropping_tx_hashes := dropping_tx_hashes (inner b) @ [h]\<rparr>\<rparr>
      else b)"

definition with_optional_transaction ::
    "flashbots_bundle \<Rightarrow> recovered_tx \<Rightarrow> flashbots_bundle" where
  "with_optional_transaction b tx = mark_as_optional (with_transaction b tx) (tx_hash tx)"

definition with_max_timestamp :: "flashbots_bundle \<Rightarrow> u64 \<Rightarrow> flashbots_bundle" where
  "with_max_timestamp b ts = b\<lparr>inner := (inner b)\<lparr>max_timestamp := Some ts\<rparr>\<rparr>"

definition with_min_timestamp :: "flashbots_bundle \<Rightarrow> u64 \<Rightarrow> flashbots_bundle" where
  "with_min_timestamp b ts = b\<lparr>inner := (inner b)\<lparr>min_timestamp := Some ts\<rparr>\<rparr>"

definition with_block_number :: "flashbots_bundle \<Rightarrow> u64 \<Rightarrow> flashbots_bundle" where
  "with_block_number b n = b\<lparr>inner := (inner b)\<lparr>block_number := n\<rparr>\<rparr>"

text \<open>The \<open>Bundle\<close> trait's methods. \<open>Vec::remove\<close> takes one position out.\<close>

definition bundle_transactions :: "flashbots_bundle \<Rightarrow> recovered_tx list" where
  "bundle_transactions b = recovered b"

definition list_remove :: "nat \<Rightarrow> 'a list \<Rightarrow> 'a list" where
  "list_remove i xs = take i xs @ drop (Suc i) xs"

definition without_transaction :: "flashbots_bundle \<Rightarrow> b256 \<Rightarrow> flashbots_bundle" where
  "without_transaction b h =
     (let b1 = (case position (\<lambda>t. tx_hash t = h) (recovered b) of
                  Some i \<Rightarrow> b\<lparr>inner := (inner b)\<lparr>txs := list_remove i (txs (inner b))\<rparr>,
                              recovered := list_remove i (recovered b)\<rparr>
                | None \<Rightarrow> b)
      in b1\<lparr>inner := (inner b1)
            \<lparr>reverting_tx_hashes := filter (\<lambda>r. r \<noteq> h) (reverting_tx_hashes (inner b1)),
             dropping_tx_hashes := filter (\<lambda>d. d \<noteq> h) (dropping_tx_hashes (inner b1))\<rparr>\<rparr>)"

definition is_allowed_to_fail :: "flashbots_bundle \<Rightarrow> b256 \<Rightarrow> bool" where
  "is_allowed_to_fail b h \<longleftrightarrow> h \<in> set (reverting_tx_hashes (inner b))"

definition is_optional :: "flashbots_bundle \<Rightarrow> b256 \<Rightarrow> bool" where
  "is_optional b h \<longleftrightarrow> h \<in> set (dropping_tx_hashes (inner b))"

definition eligibility_at :: "flashbots_bundle \<Rightarrow> u64 \<Rightarrow> u64 \<Rightarrow> eligibility" where
  "eligibility_at b timestamp number =
     (if bundle_transactions b = [] then PermanentlyIneligible
      else if (case max_timestamp (inner b) of None \<Rightarrow> False | Some max_ts \<Rightarrow> max_ts < timestamp)
      then PermanentlyIneligible
      else if block_number (inner b) \<noteq> 0 \<and> block_number (inner b) < number
      then PermanentlyIneligible
      else if (case min_timestamp (inner b) of None \<Rightarrow> False | Some min_ts \<Rightarrow> min_ts > timestamp)
      then TemporarilyIneligible
      else if block_number (inner b) \<noteq> 0 \<and> block_number (inner b) > number
      then TemporarilyIneligible
      else Eligible)"

definition is_permanently_ineligible :: "flashbots_bundle \<Rightarrow> u64 \<Rightarrow> u64 \<Rightarrow> bool" where
  "is_permanently_ineligible b timestamp number \<longleftrightarrow>
     eligibility_at b timestamp number = PermanentlyIneligible"

text \<open>
  The bytes fed to the Keccak hasher, in order. \<open>to_be_bytes n w\<close> is the big-endian
  encoding of \<open>w\<close> in \<open>n\<close> bytes; the hash function itself is the parameter
  \<open>keccak\<close>.
\<close>

definition to_be_bytes :: "nat \<Rightarrow> 'a::len word \<Rightarrow> bytes" where
  "to_be_bytes n w = map (\<lambda>i. ucast (drop_bit (8 * i) w)) (rev [0..<n])"

definition bundle_hash_input :: "flashbots_bundle \<Rightarrow> bytes" where
  "bundle_hash_input b =
     (let i = inner b in
        concat (map (\<lambda>t. to_be_bytes 32 (tx_hash t)) (bundle_transactions b))
        @ to_be_bytes 8 (block_number i)
        @ (case min_timestamp i of None \<Rightarrow> [] | Some ts \<Rightarrow> to_be_bytes 8 ts)
        @ (case max_timestamp i of None \<Rightarrow> [] | Some ts \<Rightarrow> to_be_bytes 8 ts)
        @ concat (map (to_be_bytes 32) (reverting_tx_hashes i))
        @ (case replacement_uuid i of None \<Rightarrow> [] | Some u \<Rightarrow> u)
        @ concat (map (to_be_bytes 32) (dropping_tx_hashes i))
        @ (case refund_percent i of None \<Rightarrow> [] | Some p \<Rightarrow> to_be_bytes 1 p)
        @ (case refund_recipient i of None \<Rightarrow> [] | Some a \<Rightarrow> to_be_bytes 20 a)
        @ concat (map (to_be_bytes 32) (refund_tx_hashes i)))"

definition bundle_hash :: "(bytes \<Rightarrow> b256) \<Rightarrow> flashbots_bundle \<Rightarrow> b256" where
  "bundle_hash keccak b = keccak (bundle_hash_input b)"

text \<open>\<open>PartialEq\<close> is equality of hashes.\<close>

definition bundle_eq :: "(bytes \<Rightarrow> b256) \<Rightarrow> flashbots_bundle \<Rightarrow> flashbots_bundle \<Rightarrow> bool" where
  "bundle_eq keccak a b \<longleftrightarrow> bundle_hash keccak a = bundle_hash keccak b"

text \<open>A transaction paired with its bytes, as \<open>WithEncoded\<close>.\<close>

definition transactions_encoded :: "flashbots_bundle \<Rightarrow> (recovered_tx \<times> bytes) list" where
  "transactions_encoded b = zip (recovered b) (txs (inner b))"

text \<open>\<open>TryFrom<EthSendBundle>\<close>, with decoding and signature recovery as parameters.\<close>

definition bundle_try_from ::
    "(bytes \<Rightarrow> string + 'tx) \<Rightarrow> ('tx \<Rightarrow> string + recovered_tx) \<Rightarrow> eth_send_bundle
     \<Rightarrow> bundle_conversion_error + flashbots_bundle" where
  "bundle_try_from decode_2718 try_into_recovered i =
     and_then (map_err Decoding (collect_results (map decode_2718 (txs i)))) (\<lambda>decoded.
     and_then (map_err Signature (collect_results (map try_into_recovered decoded))) (\<lambda>rec.
     Inr \<lparr>inner = i, recovered = rec\<rparr>))"

subsection \<open>BundleExt\<close>

definition failable_txs :: "flashbots_bundle \<Rightarrow> recovered_tx list" where
  "failable_txs b = filter (\<lambda>t. \<not> is_allowed_to_fail b (tx_hash t)) (bundle_transactions b)"

definition optional_txs :: "flashbots_bundle \<Rightarrow> recovered_tx list" where
  "optional_txs b = filter (\<lambda>t. is_optional b (tx_hash t)) (bundle_transactions b)"

definition required_txs :: "flashbots_bundle \<Rightarrow> recovered_tx list" where
  "required_txs b = filter (\<lambda>t. \<not> is_optional b (tx_hash t)) (bundle_transactions b)"

definition critical_txs :: "flashbots_bundle \<Rightarrow> recovered_tx list" where
  "critical_txs b =
     filter (\<lambda>t. \<not> is_allowed_to_fail b (tx_hash t) \<and> \<not> is_optional b (tx_hash t))
       (bundle_transactions b)"

subsection \<open>Well-formed bundles\<close>

text \<open>
  The two parallel vectors have one length (so \<open>Vec::remove\<close> in
  \<open>without_transaction\<close> is in range and the encoded iterator loses nothing) and no
  transaction occurs twice.
\<close>

definition bundle_wf :: "flashbots_bundle \<Rightarrow> bool" where
  "bundle_wf b \<longleftrightarrow>
     length (txs (inner b)) = length (recovered b) \<and> distinct (map tx_hash (recovered b))"

lemmas bundle_ops_defs =
  bundle_transactions_def without_transaction_def is_allowed_to_fail_def is_optional_def

lemma list_remove_position:
  assumes "distinct (map f xs)" "position (\<lambda>x. f x = h) xs = Some i"
  shows "list_remove i xs = filter (\<lambda>x. f x \<noteq> h) xs"
  using assms
proof (induction xs arbitrary: i)
  case (Cons x xs)
  show ?case
  proof (cases "f x = h")
    case True
    with Cons.prems have "i = 0" "\<forall>y \<in> set xs. f y \<noteq> h"
      by (auto simp: image_iff)
    with True show ?thesis by (simp add: list_remove_def)
  next
    case False
    with Cons.prems obtain j where "i = Suc j" "position (\<lambda>x. f x = h) xs = Some j" by auto
    with Cons False show ?thesis by (simp add: list_remove_def)
  qed
qed simp

lemma length_list_remove: "i < length xs \<Longrightarrow> length (list_remove i xs) = length xs - 1"
  by (simp add: list_remove_def)

lemma recovered_without:
  "recovered (without_transaction b h) =
     (case position (\<lambda>t. tx_hash t = h) (recovered b) of
        Some i \<Rightarrow> list_remove i (recovered b) | None \<Rightarrow> recovered b)"
  by (simp add: without_transaction_def Let_def split: option.split)

lemma txs_without:
  "txs (inner (without_transaction b h)) =
     (case position (\<lambda>t. tx_hash t = h) (recovered b) of
        Some i \<Rightarrow> list_remove i (txs (inner b)) | None \<Rightarrow> txs (inner b))"
  by (simp add: without_transaction_def Let_def split: option.split)

lemma fb_optional_without:
  "is_optional (without_transaction b h) h' \<longleftrightarrow> h' \<noteq> h \<and> is_optional b h'"
  by (auto simp: without_transaction_def is_optional_def Let_def split: option.split)

lemma fb_allowed_without:
  "is_allowed_to_fail (without_transaction b h) h' \<longleftrightarrow> h' \<noteq> h \<and> is_allowed_to_fail b h'"
  by (auto simp: without_transaction_def is_allowed_to_fail_def Let_def split: option.split)

lemma fb_transactions_without:
  assumes "bundle_wf b"
  shows "bundle_transactions (without_transaction b h) =
    filter (\<lambda>t. tx_hash t \<noteq> h) (bundle_transactions b)"
proof (cases "position (\<lambda>t. tx_hash t = h) (recovered b)")
  case None
  then have "\<forall>t \<in> set (recovered b). tx_hash t \<noteq> h" by (simp add: position_None)
  with None show ?thesis by (simp add: bundle_transactions_def recovered_without)
next
  case (Some i)
  with assms have "list_remove i (recovered b) = filter (\<lambda>t. tx_hash t \<noteq> h) (recovered b)"
    by (intro list_remove_position) (simp_all add: bundle_wf_def)
  with Some show ?thesis by (simp add: bundle_transactions_def recovered_without)
qed

lemma distinct_map_filter': "distinct (map f xs) \<Longrightarrow> distinct (map f (filter P xs))"
  by (simp add: distinct_map inj_on_def)

lemma fb_wf_without:
  assumes "bundle_wf b"
  shows "bundle_wf (without_transaction b h)"
proof -
  have "length (txs (inner (without_transaction b h))) = length (recovered (without_transaction b h))"
  proof (cases "position (\<lambda>t. tx_hash t = h) (recovered b)")
    case (Some i)
    then have "i < length (recovered b)" by (simp add: position_Some)
    with Some assms show ?thesis
      by (simp add: txs_without recovered_without bundle_wf_def length_list_remove)
  qed (use assms in \<open>simp add: txs_without recovered_without bundle_wf_def\<close>)
  moreover have "distinct (map tx_hash (recovered (without_transaction b h)))"
    using fb_transactions_without [OF assms, of h] assms
    by (simp add: bundle_transactions_def bundle_wf_def distinct_map_filter')
  ultimately show ?thesis by (simp add: bundle_wf_def)
qed

subsection \<open>The Bundle trait as an interface\<close>

text \<open>
  The laws \<open>bundle/mod.rs\<close> documents: \<open>without_transaction\<close> gives the same bundle
  without the named transaction, its other transactions in their order.
\<close>

locale bundle_trait =
  fixes transactions :: "'b \<Rightarrow> recovered_tx list"
    and without :: "'b \<Rightarrow> b256 \<Rightarrow> 'b"
    and optional :: "'b \<Rightarrow> b256 \<Rightarrow> bool"
    and allowed_to_fail :: "'b \<Rightarrow> b256 \<Rightarrow> bool"
    and wf :: "'b \<Rightarrow> bool"
  assumes wf_distinct: "wf b \<Longrightarrow> distinct (map tx_hash (transactions b))"
    and transactions_without: "wf b \<Longrightarrow>
      transactions (without b h) = filter (\<lambda>t. tx_hash t \<noteq> h) (transactions b)"
    and wf_without: "wf b \<Longrightarrow> wf (without b h)"
    and optional_without: "optional (without b h) h' \<longleftrightarrow> h' \<noteq> h \<and> optional b h'"
    and allowed_without: "allowed_to_fail (without b h) h' \<longleftrightarrow> h' \<noteq> h \<and> allowed_to_fail b h'"
begin

definition without_all :: "b256 list \<Rightarrow> 'b \<Rightarrow> 'b" where
  "without_all hs b = fold (\<lambda>h b. without b h) hs b"

lemma without_all_simps [simp]:
  "without_all [] b = b" "without_all (h # hs) b = without_all hs (without b h)"
  by (simp_all add: without_all_def)

lemma wf_without_all: "wf b \<Longrightarrow> wf (without_all hs b)"
  by (induction hs arbitrary: b) (auto intro: wf_without)

lemma transactions_without_all:
  "wf b \<Longrightarrow> transactions (without_all hs b) = filter (\<lambda>t. tx_hash t \<notin> set hs) (transactions b)"
proof (induction hs arbitrary: b)
  case (Cons h hs)
  then show ?case
    by (auto simp: transactions_without wf_without intro: filter_cong)
qed simp

lemma optional_without_all:
  "optional (without_all hs b) h \<longleftrightarrow> h \<notin> set hs \<and> optional b h"
  by (induction hs arbitrary: b) (auto simp: optional_without)

lemma allowed_without_all:
  "allowed_to_fail (without_all hs b) h \<longleftrightarrow> h \<notin> set hs \<and> allowed_to_fail b h"
  by (induction hs arbitrary: b) (auto simp: allowed_without)

end

interpretation fb: bundle_trait bundle_transactions without_transaction is_optional
    is_allowed_to_fail bundle_wf
proof unfold_locales
  show "distinct (map tx_hash (bundle_transactions b))" if "bundle_wf b" for b
    using that by (simp add: bundle_wf_def bundle_transactions_def)
qed (fact fb_transactions_without fb_wf_without fb_optional_without fb_allowed_without)+

subsection \<open>Construction keeps bundles well-formed\<close>

lemma wf_default: "bundle_wf bundle_default"
  by (simp add: bundle_wf_def bundle_default_def default_eth_send_bundle_def)

lemma wf_with_transaction: "bundle_wf b \<Longrightarrow> bundle_wf (with_transaction b tx)"
  by (auto simp: bundle_wf_def with_transaction_def list_ex_iff)

lemma wf_marks [simp]:
  "bundle_wf (mark_as_revertable b h) \<longleftrightarrow> bundle_wf b"
  "bundle_wf (mark_as_optional b h) \<longleftrightarrow> bundle_wf b"
  "bundle_wf (with_max_timestamp b ts) \<longleftrightarrow> bundle_wf b"
  "bundle_wf (with_min_timestamp b ts) \<longleftrightarrow> bundle_wf b"
  "bundle_wf (with_block_number b n) \<longleftrightarrow> bundle_wf b"
  by (simp_all add: bundle_wf_def mark_as_revertable_def mark_as_optional_def
      with_max_timestamp_def with_min_timestamp_def with_block_number_def)

text \<open>A bundle of plain transactions, as the builder methods make it.\<close>

definition bundle_of_txs :: "recovered_tx list \<Rightarrow> flashbots_bundle" where
  "bundle_of_txs ts = foldl with_transaction bundle_default ts"

lemma wf_bundle_of_txs: "bundle_wf (bundle_of_txs ts)"
proof -
  have "bundle_wf b \<Longrightarrow> bundle_wf (foldl with_transaction b ts)" for b
    by (induction ts arbitrary: b) (auto intro: wf_with_transaction)
  then show ?thesis by (simp add: bundle_of_txs_def wf_default)
qed

lemma with_without_new:
  assumes "bundle_wf b" "tx_hash tx \<notin> tx_hash ` set (bundle_transactions b)"
  shows "bundle_transactions (without_transaction (with_transaction b tx) (tx_hash tx)) =
    bundle_transactions b"
    "txs (inner (without_transaction (with_transaction b tx) (tx_hash tx))) = txs (inner b)"
proof -
  from assms(2) have new: "\<forall>t \<in> set (recovered b). tx_hash t \<noteq> tx_hash tx"
    by (auto simp: bundle_transactions_def image_iff)
  then have "position (\<lambda>t. tx_hash t = tx_hash tx) (recovered b) = None"
    by (simp add: position_None)
  with new have pos: "position (\<lambda>t. tx_hash t = tx_hash tx) (recovered (with_transaction b tx)) =
      Some (length (recovered b))"
    by (simp add: with_transaction_def position_append list_ex_iff)
  show "bundle_transactions (without_transaction (with_transaction b tx) (tx_hash tx)) =
      bundle_transactions b"
    using new pos
    by (auto simp: bundle_transactions_def recovered_without with_transaction_def list_remove_def
        list_ex_iff)
  show "txs (inner (without_transaction (with_transaction b tx) (tx_hash tx))) = txs (inner b)"
    using new pos assms(1)
    by (auto simp: txs_without with_transaction_def list_remove_def bundle_wf_def list_ex_iff)
qed

subsection \<open>Properties\<close>

text \<open>Sample data the witnesses of this library evaluate.\<close>

definition sample_tx :: "b256 \<Rightarrow> address \<Rightarrow> u64 \<Rightarrow> recovered_tx" where
  "sample_tx h s n =
     \<lparr>tx_hash = h, tx_signer = s, tx_nonce = n, tx_encoded_2718 = [ucast h],
      tx_gas_limit = 21000, tx_max_fee_per_gas = 10, tx_blob_gas_used = None,
      tx_is_deposit = False, tx_effective_tip_per_gas = (\<lambda>base. Some 1)\<rparr>"

lemma sample_tx_sel [simp]:
  "tx_hash (sample_tx h s n) = h" "tx_signer (sample_tx h s n) = s"
  "tx_nonce (sample_tx h s n) = n" "tx_encoded_2718 (sample_tx h s n) = [ucast h]"
  "tx_gas_limit (sample_tx h s n) = 21000" "tx_max_fee_per_gas (sample_tx h s n) = 10"
  "tx_blob_gas_used (sample_tx h s n) = None" "\<not> tx_is_deposit (sample_tx h s n)"
  "tx_effective_tip_per_gas (sample_tx h s n) base = Some 1"
  by (simp_all add: sample_tx_def)

definition sample_bundle :: flashbots_bundle where
  "sample_bundle = bundle_of_txs [sample_tx 1 7 0, sample_tx 2 7 1]"

lemma sample_bundle_simps [simp]:
  "inner sample_bundle = default_eth_send_bundle\<lparr>txs := [[1], [2]]\<rparr>"
  "recovered sample_bundle = [sample_tx 1 7 0, sample_tx 2 7 1]"
  by (simp_all add: sample_bundle_def bundle_of_txs_def with_transaction_def bundle_default_def
      default_eth_send_bundle_def)

lemma wf_sample_bundle [simp]: "bundle_wf sample_bundle"
  by (simp add: sample_bundle_def wf_bundle_of_txs)

text \<open>
  A bundle that was once permanently ineligible stays so at every later timestamp and
  block number, as the documentation of \<open>Eligibility::PermanentlyIneligible\<close> promises.
\<close>

theorem permanently_ineligible_stable:
  assumes "is_permanently_ineligible b ts n" "ts \<le> ts'" "n \<le> n'"
  shows "is_permanently_ineligible b ts' n'"
  using assms
  by (auto simp: is_permanently_ineligible_def eligibility_at_def split: if_splits option.splits)

theorem permanently_ineligible_stable_witness:
  "is_permanently_ineligible (with_max_timestamp sample_bundle 5) 9 4"
proof (rule permanently_ineligible_stable)
  show "is_permanently_ineligible (with_max_timestamp sample_bundle 5) 6 3"
    by (simp add: is_permanently_ineligible_def eligibility_at_def bundle_transactions_def
        with_max_timestamp_def)
qed simp_all

text \<open>
  The value of \<open>eligibility_at\<close> on every branch: a bundle is eligible exactly when it
  has a transaction, the timestamp lies in its window and the block number is the one it asks for
  (zero asks for none); the three answers are told apart by the upper bounds first.
\<close>

theorem eligibility_at_characterisation:
  "(eligibility_at b ts n = Eligible) =
     (bundle_transactions b \<noteq> [] \<and>
      (\<forall>m \<in> set_option (min_timestamp (inner b)). m \<le> ts) \<and>
      (\<forall>m \<in> set_option (max_timestamp (inner b)). ts \<le> m) \<and>
      block_number (inner b) \<in> {0, n}) \<and>
   (eligibility_at b ts n = PermanentlyIneligible) =
     (bundle_transactions b = [] \<or>
      (\<exists>m \<in> set_option (max_timestamp (inner b)). m < ts) \<or>
      block_number (inner b) \<noteq> 0 \<and> block_number (inner b) < n)"
  by (auto simp: eligibility_at_def split: option.splits)

theorem eligibility_at_characterisation_witness:
  "eligibility_at (with_min_timestamp (with_block_number sample_bundle 3) 5) 5 3 = Eligible"
  using eligibility_at_characterisation
    [of "with_min_timestamp (with_block_number sample_bundle 3) 5" 5 3]
  by (simp add: bundle_transactions_def with_min_timestamp_def with_block_number_def
      default_eth_send_bundle_def)

text \<open>
  Removing a transaction that was just added gives back the bundle's transactions and
  their encodings, the result is well-formed again, and no removal ever changes the order of
  the transactions that stay.
\<close>

theorem without_with_transaction_roundtrip:
  assumes "bundle_wf b" "tx_hash tx \<notin> tx_hash ` set (bundle_transactions b)"
  shows "bundle_transactions (without_transaction (with_transaction b tx) (tx_hash tx)) =
      bundle_transactions b \<and>
    transactions_encoded (without_transaction (with_transaction b tx) (tx_hash tx)) =
      transactions_encoded b \<and>
    bundle_wf (without_transaction (with_transaction b tx) (tx_hash tx)) \<and>
    bundle_transactions (without_transaction b h) =
      filter (\<lambda>t. tx_hash t \<noteq> h) (bundle_transactions b)"
  using with_without_new [OF assms] assms(1)
  by (simp add: transactions_encoded_def bundle_transactions_def [symmetric] fb.transactions_without
      fb.wf_without wf_with_transaction)

theorem without_with_transaction_roundtrip_witness:
  "bundle_transactions (without_transaction (with_transaction sample_bundle (sample_tx 3 7 2)) 3) =
     [sample_tx 1 7 0, sample_tx 2 7 1]"
  using without_with_transaction_roundtrip [of sample_bundle "sample_tx 3 7 2" 3]
  by (simp add: bundle_transactions_def)

text \<open>
  The hash does not separate a lower from an upper time bound. A bundle valid only
  from \<open>ts\<close> on and the same bundle valid only up to \<open>ts\<close> are equal for \<open>PartialEq\<close> and
  have one hash, whatever the hash function, although right after \<open>ts\<close> the first is eligible
  and the second is permanently ineligible.
\<close>

theorem bundle_hash_conflates_timestamps:
  assumes "min_timestamp (inner b) = None" "max_timestamp (inner b) = None"
    "bundle_transactions b \<noteq> []" "block_number (inner b) = 0" "ts < ts'"
  shows "bundle_eq keccak (with_min_timestamp b ts) (with_max_timestamp b ts) \<and>
    eligibility_at (with_min_timestamp b ts) ts' n = Eligible \<and>
    eligibility_at (with_max_timestamp b ts) ts' n = PermanentlyIneligible"
  using assms
  by (simp add: bundle_eq_def bundle_hash_def bundle_hash_input_def with_min_timestamp_def
      with_max_timestamp_def bundle_transactions_def Let_def eligibility_at_def)

theorem bundle_hash_conflates_timestamps_witness:
  "bundle_eq (\<lambda>bs. of_nat (length bs)) (with_min_timestamp sample_bundle 5)
     (with_max_timestamp sample_bundle 5)"
  using bundle_hash_conflates_timestamps [of sample_bundle 5 6]
  by (simp add: bundle_transactions_def default_eth_send_bundle_def)

text \<open>
  \<open>failable_txs\<close> yields exactly the transactions that are not allowed to fail, the
  complement of what its documentation says; the critical transactions are the failable ones
  it yields that are not optional.
\<close>

theorem failable_txs_inverted:
  "set (failable_txs b) =
     set (bundle_transactions b) - {t. is_allowed_to_fail b (tx_hash t)} \<and>
   set (critical_txs b) = set (failable_txs b) \<inter> set (required_txs b)"
  by (auto simp: failable_txs_def critical_txs_def required_txs_def)

text \<open>
  Decoding an \<open>eth_sendBundle\<close> request fails with the first undecodable transaction
  and otherwise recovers one transaction for every encoding, in order, so that
  \<open>transactions_encoded\<close> pairs each transaction with the bytes it was decoded from.
\<close>

theorem bundle_try_from_pairs:
  assumes "bundle_try_from dec recov i = Inr b"
  shows "inner b = i \<and> length (transactions_encoded b) = length (txs i) \<and>
    (\<forall>(tx, bs) \<in> set (transactions_encoded b).
       \<exists>raw. dec bs = Inr raw \<and> recov raw = Inr tx)"
proof -
  from assms obtain raws rs where
    d: "map dec (txs i) = map Inr raws" and r: "map recov raws = map Inr rs"
    and b: "b = \<lparr>inner = i, recovered = rs\<rparr>"
    by (auto simp: bundle_try_from_def result_simps collect_results_Inr)
  have lens: "length (txs i) = length raws" "length raws = length rs"
    using d r by (metis length_map)+
  have "dec (txs i ! k) = Inr (raws ! k) \<and> recov (raws ! k) = Inr (rs ! k)"
    if "k < length rs" for k
    using that lens d r by (metis nth_map)
  with b lens show ?thesis
    by (auto simp: transactions_encoded_def set_zip)
qed

theorem bundle_try_from_pairs_witness:
  "\<exists>b. bundle_try_from (\<lambda>bs. if bs = [] then Inl ''empty'' else Inr (hd bs))
          (\<lambda>k. Inr (sample_tx (ucast k) 7 0)) (inner sample_bundle) = Inr b \<and>
     length (transactions_encoded b) = 2"
proof -
  let ?b = "\<lparr>inner = inner sample_bundle, recovered = [sample_tx 1 7 0, sample_tx 2 7 0]\<rparr>"
  have "bundle_try_from (\<lambda>bs. if bs = [] then Inl ''empty'' else Inr (hd bs))
          (\<lambda>k. Inr (sample_tx (ucast k) 7 0)) (inner sample_bundle) = Inr ?b"
    by (simp add: bundle_try_from_def)
  from this bundle_try_from_pairs [OF this] show ?thesis by auto
qed

end
