(* ===== verification/Block_Context.thy ===== *)
theory Block_Context
  imports Bundles
begin

section \<open>Block context\<close>

text \<open>
  The data that execution and checkpoints stand on: account state and its changes, the state
  provider of the parent block, the EVM, and \<open>BlockContext\<close>
  (\<open>crates/core/src/payload/block.rs\<close>) with its extension trait (\<open>ext/block.rs\<close>) and the
  Optimism fork queries of \<open>platform/optimism/ext.rs\<close>.

  Reth, revm and alloy are not part of this repository. What the code calls of them appears as
  fields that are functions: \<open>state_provider\<close> (\<open>StateProvider\<close>), \<open>evm\<close>
  (\<open>ConfigureEvm\<close> with revm's \<open>State\<close>), the header's and the chain specification's fee
  functions. The EVM's per-transaction state change and its environment are never inspected by
  this code and are undetermined types.
\<close>

subsection \<open>State and state changes\<close>

record account_info =
  ai_balance :: u256
  ai_nonce :: u64
  ai_code_hash :: b256
  ai_code :: "bytes option"

record storage_slot =
  previous_or_original_value :: u256
  present_value :: u256

text \<open>
  revm's \<open>BundleAccount\<close>: \<open>ba_not_modified\<close> and \<open>ba_was_destroyed\<close> are the two
  status queries the code makes. The hash maps of \<open>BundleState\<close> are association lists in
  their iteration order.
\<close>

record bundle_account =
  ba_info :: "account_info option"
  ba_original_info :: "account_info option"
  ba_storage :: "(u256 \<times> storage_slot) list"
  ba_not_modified :: bool
  ba_was_destroyed :: bool

record bundle_state =
  bs_state :: "(address \<times> bundle_account) list"
  bs_contracts :: "(b256 \<times> bytes) list"

definition bs_account :: "bundle_state \<Rightarrow> address \<Rightarrow> bundle_account option" where
  "bs_account s a = map_of (bs_state s) a"

definition bs_bytecode :: "bundle_state \<Rightarrow> b256 \<Rightarrow> bytes option" where
  "bs_bytecode s h = map_of (bs_contracts s) h"

text \<open>The methods of \<open>StateProvider\<close> the code calls; \<open>basic_account\<close> with its conversion.\<close>

record state_provider =
  basic_account :: "address \<Rightarrow> provider_error + account_info option"
  account_balance :: "address \<Rightarrow> provider_error + u256 option"
  sp_storage :: "address \<Rightarrow> u256 \<Rightarrow> provider_error + u256 option"
  bytecode_by_hash :: "b256 \<Rightarrow> provider_error + bytes option"
  sp_block_hash :: "u64 \<Rightarrow> provider_error + b256 option"

text \<open>revm's \<open>DatabaseRef\<close>, what an EVM instance reads.\<close>

record database_ref =
  basic_ref :: "address \<Rightarrow> provider_error + account_info option"
  code_by_hash_ref :: "b256 \<Rightarrow> provider_error + bytes"
  storage_ref :: "address \<Rightarrow> u256 \<Rightarrow> provider_error + u256"
  block_hash_ref :: "u64 \<Rightarrow> provider_error + b256"

subsection \<open>The EVM\<close>

typedecl evm_state
typedecl evm_env

datatype tx_exec_result =
    Success (result_gas: u64)
  | Revert (result_gas: u64)
  | Halt (halt_reason: halt_reason) (result_gas: u64)

definition is_success :: "tx_exec_result \<Rightarrow> bool" where
  "is_success r = (case r of Success g \<Rightarrow> True | _ \<Rightarrow> False)"

datatype tx_input = Plain recovered_tx | WithEncoded bytes recovered_tx

text \<open>
  \<open>transact env db committed tx\<close> runs one transaction on the database \<open>db\<close> overlaid
  with the changes committed so far; \<open>take_bundle db committed\<close> is the aggregate change that
  \<open>State::merge_transitions\<close> and \<open>State::take_bundle\<close> give for them.
\<close>

record evm =
  transact :: "evm_env \<Rightarrow> database_ref \<Rightarrow> evm_state list \<Rightarrow> tx_input
                 \<Rightarrow> evm_error + tx_exec_result \<times> evm_state"
  take_bundle :: "database_ref \<Rightarrow> evm_state list \<Rightarrow> bundle_state"

subsection \<open>Headers, attributes, chain specification\<close>

type_synonym base_fee_params = "u128 \<times> u128"

record blob_params =
  target_blob_count :: u64
  max_blob_count :: u64
  update_fraction :: u128
  min_blob_fee :: u128
  max_blobs_per_tx :: u64
  blob_base_cost :: u64

record header =
  hdr_hash :: b256
  hdr_number :: u64
  hdr_timestamp :: u64
  hdr_gas_limit :: u64
  hdr_next_block_base_fee :: "base_fee_params \<Rightarrow> u64 option"
  hdr_blob_fee :: "blob_params \<Rightarrow> u128 option"

type_synonym withdrawal = "u64 \<times> u64 \<times> address \<times> u64"

record payload_attributes =
  attr_parent :: b256
  attr_payload_id :: u64
  attr_timestamp :: u64
  attr_suggested_fee_recipient :: address
  attr_prev_randao :: b256
  attr_parent_beacon_block_root :: "b256 option"
  attr_withdrawals :: "withdrawal list"
  attr_gas_limit :: "u64 option"
  attr_transactions :: "(bytes \<times> (recovered_tx option \<times> b256)) list"

text \<open>
  \<open>attr_transactions\<close> are the sequencer transactions of Optimism's attributes: the bytes, the
  transaction if its signer can be recovered, and its hash. A withdrawal is its index, the
  validator, the address and the amount.
\<close>

record chainspec =
  base_fee_params_at_timestamp :: "u64 \<Rightarrow> base_fee_params"
  blob_params_at_timestamp :: "u64 \<Rightarrow> blob_params option"
  max_blob_gas_per_block :: "blob_params \<Rightarrow> u64"
  is_ecotone_active_at_timestamp :: "u64 \<Rightarrow> bool"
  is_holocene_active_at_timestamp :: "u64 \<Rightarrow> bool"
  is_jovian_active_at_timestamp :: "u64 \<Rightarrow> bool"

subsection \<open>BlockContext\<close>

text \<open>revm's \<open>State\<close> over the provider: its database and the changes committed to it.\<close>

record base_state_db =
  database :: state_provider
  transitions :: "evm_state list"

text \<open>\<open>bc_addr\<close> is the address of the shared allocation (the \<open>Arc\<close>).\<close>

record block_context =
  bc_addr :: nat
  parent :: header
  attributes :: payload_attributes
  evm_env_of :: evm_env
  bc_base_state :: base_state_db
  evm_config :: evm
  bc_chainspec :: chainspec

datatype block_error = EvmEnv string | BlockExecution string | Provider provider_error

text \<open>
  \<open>BlockContext::new\<close>. The three steps that belong to reth and to the platform are
  parameters: the environment of the next block, the provider of the parent's state, and the
  changes that \<open>apply_pre_execution_changes\<close> commits to the base state. The provider is read
  through the cache of \<open>CachedStateProvider\<close>, which does not change what a read returns.
\<close>

definition block_context_new ::
    "(chainspec \<Rightarrow> header \<Rightarrow> payload_attributes \<Rightarrow> string + 'env) \<Rightarrow>
     (header \<Rightarrow> 'env \<Rightarrow> string + evm_env) \<Rightarrow>
     (b256 \<Rightarrow> provider_error + state_provider) \<Rightarrow>
     (header \<Rightarrow> 'env \<Rightarrow> string + (state_provider \<Rightarrow> string + evm_state list)) \<Rightarrow>
     (chainspec \<Rightarrow> evm) \<Rightarrow> nat \<Rightarrow> header \<Rightarrow> payload_attributes \<Rightarrow> chainspec \<Rightarrow>
     block_error + block_context" where
  "block_context_new next_block_environment_context next_evm_env state_by_block_hash
     builder_for_next_block evm_config_for addr par attribs spec =
     and_then (map_err EvmEnv (next_block_environment_context spec par attribs)) (\<lambda>block_env.
     and_then (map_err EvmEnv (next_evm_env par block_env)) (\<lambda>env.
     and_then (map_err Provider (state_by_block_hash (hdr_hash par))) (\<lambda>sp.
     and_then (map_err EvmEnv (builder_for_next_block par block_env)) (\<lambda>apply_pre_execution_changes.
     and_then (map_err BlockExecution (apply_pre_execution_changes sp)) (\<lambda>changes.
     Inr \<lparr>bc_addr = addr, parent = par, attributes = attribs, evm_env_of = env,
          bc_base_state = \<lparr>database = sp, transitions = changes\<rparr>,
          evm_config = evm_config_for spec, bc_chainspec = spec\<rparr>)))))"

text \<open>\<open>PartialEq\<close> compares the shared allocations.\<close>

definition block_context_eq :: "block_context \<Rightarrow> block_context \<Rightarrow> bool" where
  "block_context_eq a b \<longleftrightarrow> bc_addr a = bc_addr b"

definition base_state :: "block_context \<Rightarrow> state_provider" where
  "base_state b = database (bc_base_state b)"

subsection \<open>BlockExt\<close>

definition payload_id :: "block_context \<Rightarrow> u64" where
  "payload_id b = attr_payload_id (attributes b)"

definition timestamp :: "block_context \<Rightarrow> u64" where
  "timestamp b = attr_timestamp (attributes b)"

definition number :: "block_context \<Rightarrow> u64" where
  "number b = hdr_number (parent b) + 1"

definition base_fee :: "block_context \<Rightarrow> u64" where
  "base_fee b =
     (case hdr_next_block_base_fee (parent b)
             (base_fee_params_at_timestamp (bc_chainspec b) (attr_timestamp (attributes b))) of
        Some f \<Rightarrow> f | None \<Rightarrow> 0)"

definition blob_fee :: "block_context \<Rightarrow> u128 option" where
  "blob_fee b =
     map_option (\<lambda>p. case hdr_blob_fee (parent b) p of Some f \<Rightarrow> f | None \<Rightarrow> 0)
       (blob_params_at_timestamp (bc_chainspec b) (attr_timestamp (attributes b)))"

definition blob_gas_limit :: "block_context \<Rightarrow> u64" where
  "blob_gas_limit b =
     (case map_option (max_blob_gas_per_block (bc_chainspec b))
             (blob_params_at_timestamp (bc_chainspec b) (attr_timestamp (attributes b))) of
        Some g \<Rightarrow> g | None \<Rightarrow> 0)"

definition coinbase :: "block_context \<Rightarrow> address" where
  "coinbase b = attr_suggested_fee_recipient (attributes b)"

definition block_balance_of :: "block_context \<Rightarrow> address \<Rightarrow> provider_error + u256" where
  "block_balance_of b a =
     map_ok (\<lambda>bal. case bal of Some x \<Rightarrow> x | None \<Rightarrow> 0) (account_balance (base_state b) a)"

text \<open>\<open>Bundle::is_eligible\<close> on a block.\<close>

definition is_eligible :: "flashbots_bundle \<Rightarrow> block_context \<Rightarrow> eligibility" where
  "is_eligible b block = eligibility_at b (timestamp block) (number block)"

subsection \<open>BlockOpExt\<close>

definition is_ecotone_active :: "block_context \<Rightarrow> bool" where
  "is_ecotone_active b = is_ecotone_active_at_timestamp (bc_chainspec b) (timestamp b)"

definition is_holocene_active :: "block_context \<Rightarrow> bool" where
  "is_holocene_active b = is_holocene_active_at_timestamp (bc_chainspec b) (timestamp b)"

definition is_jovian_active :: "block_context \<Rightarrow> bool" where
  "is_jovian_active b = is_jovian_active_at_timestamp (bc_chainspec b) (timestamp b)"

lemma block_context_new_ok:
  assumes "block_context_new nbe env sbh bld ev addr par attribs spec = Inr b"
  shows "\<exists>e apply_pre. nbe spec par attribs = Inr e \<and> bld par e = Inr apply_pre \<and>
    sbh (hdr_hash par) = Inr (base_state b) \<and>
    apply_pre (base_state b) = Inr (transitions (bc_base_state b)) \<and> bc_addr b = addr \<and>
    parent b = par \<and> attributes b = attribs \<and> env par e = Inr (evm_env_of b) \<and>
    evm_config b = ev spec \<and> bc_chainspec b = spec"
  using assms by (auto simp: block_context_new_def result_simps base_state_def)

subsection \<open>Sample block\<close>

definition empty_bundle_state :: bundle_state where
  "empty_bundle_state = \<lparr>bs_state = [], bs_contracts = []\<rparr>"

definition sample_provider :: state_provider where
  "sample_provider =
     \<lparr>basic_account = (\<lambda>a. Inr None), account_balance = (\<lambda>a. Inr None),
      sp_storage = (\<lambda>a i. Inr None), bytecode_by_hash = (\<lambda>h. Inr None),
      sp_block_hash = (\<lambda>n. Inr None)\<rparr>"

text \<open>
  A concrete EVM for the witnesses: a transaction whose signer is \<open>13\<close> is invalid, one whose
  hash is odd succeeds and any other reverts; each uses \<open>21000\<close> gas. The aggregate state sets
  the nonce of account \<open>7\<close> to the number of committed changes.
\<close>

definition sample_transact :: "recovered_tx \<Rightarrow> evm_error + tx_exec_result \<times> evm_state" where
  "sample_transact tx =
     (if tx_signer tx = 13 then Inl ''invalid''
      else if bit (tx_hash tx) 0 then Inr (Success 21000, undefined)
      else Inr (Revert 21000, undefined))"

definition sample_account :: "u64 \<Rightarrow> bundle_account" where
  "sample_account n =
     \<lparr>ba_info = Some \<lparr>ai_balance = 5, ai_nonce = n, ai_code_hash = 0, ai_code = None\<rparr>,
      ba_original_info = None, ba_storage = [(1, \<lparr>previous_or_original_value = 0, present_value = 9\<rparr>)],
      ba_not_modified = False, ba_was_destroyed = False\<rparr>"

definition sample_evm :: evm where
  "sample_evm =
     \<lparr>transact = (\<lambda>env db cs i. case i of Plain tx \<Rightarrow> sample_transact tx
                                    | WithEncoded bs tx \<Rightarrow> sample_transact tx),
      take_bundle = (\<lambda>db cs. \<lparr>bs_state = [(7, sample_account (of_nat (length cs)))],
                                bs_contracts = []\<rparr>)\<rparr>"

definition sample_block :: block_context where
  "sample_block =
     \<lparr>bc_addr = 0,
      parent = \<lparr>hdr_hash = 99, hdr_number = 4, hdr_timestamp = 100, hdr_gas_limit = 1000000,
                hdr_next_block_base_fee = (\<lambda>p. Some 3), hdr_blob_fee = (\<lambda>p. None)\<rparr>,
      attributes = \<lparr>attr_parent = 99, attr_payload_id = 1, attr_timestamp = 112,
                    attr_suggested_fee_recipient = 55, attr_prev_randao = 0,
                    attr_parent_beacon_block_root = None, attr_withdrawals = [], attr_gas_limit = None, attr_transactions = []\<rparr>,
      evm_env_of = undefined,
      bc_base_state = \<lparr>database = sample_provider, transitions = []\<rparr>,
      evm_config = sample_evm,
      bc_chainspec = \<lparr>base_fee_params_at_timestamp = (\<lambda>t. (8, 2)),
                      blob_params_at_timestamp = (\<lambda>t. None), max_blob_gas_per_block = (\<lambda>p. 0),
                      is_ecotone_active_at_timestamp = (\<lambda>t. True),
                      is_holocene_active_at_timestamp = (\<lambda>t. True),
                      is_jovian_active_at_timestamp = (\<lambda>t. False)\<rparr>\<rparr>"

lemmas sample_block_defs =
  sample_block_def sample_evm_def sample_transact_def sample_provider_def

text \<open>
  The changes that are applied to the base state before the block's transactions are
  not visible through \<open>base_state\<close>: two contexts that differ only in what
  \<open>apply_pre_execution_changes\<close> commits have one base state, that of the parent block.
\<close>

theorem base_state_ignores_pre_execution:
  assumes "block_context_new nbe env sbh bld ev addr par attribs spec = Inr b"
    and "block_context_new nbe env sbh bld' ev addr par attribs spec = Inr b'"
  shows "base_state b = base_state b' \<and> block_balance_of b a = block_balance_of b' a \<and>
    block_context_eq b b'"
  using block_context_new_ok [OF assms(1)] block_context_new_ok [OF assms(2)]
  by (auto simp: block_balance_of_def block_context_eq_def)

theorem base_state_ignores_pre_execution_witness:
  "\<exists>b b'. block_context_new (\<lambda>c h a. Inr ()) (\<lambda>h e. Inr undefined) (\<lambda>h. Inr sample_provider)
       (\<lambda>h e. Inr (\<lambda>sp. Inr [undefined])) (\<lambda>c. sample_evm) 0 (parent sample_block)
       (attributes sample_block) (bc_chainspec sample_block) = Inr b \<and>
     block_context_new (\<lambda>c h a. Inr ()) (\<lambda>h e. Inr undefined) (\<lambda>h. Inr sample_provider)
       (\<lambda>h e. Inr (\<lambda>sp. Inr [])) (\<lambda>c. sample_evm) 0 (parent sample_block)
       (attributes sample_block) (bc_chainspec sample_block) = Inr b' \<and>
     transitions (bc_base_state b) \<noteq> transitions (bc_base_state b') \<and>
     base_state b = base_state b'"
proof -
  define new where "new bld = block_context_new (\<lambda>c h a. Inr ()) (\<lambda>h e. Inr undefined)
    (\<lambda>h. Inr sample_provider) bld (\<lambda>c. sample_evm) 0 (parent sample_block)
    (attributes sample_block) (bc_chainspec sample_block)" for bld
  obtain b where b: "new (\<lambda>h e. Inr (\<lambda>sp. Inr [undefined])) = Inr b"
      "transitions (bc_base_state b) = [undefined]"
    by (simp add: new_def block_context_new_def)
  obtain b' where b': "new (\<lambda>h e. Inr (\<lambda>sp. Inr [])) = Inr b'"
      "transitions (bc_base_state b') = []"
    by (simp add: new_def block_context_new_def)
  have "base_state b = base_state b'"
    using base_state_ignores_pre_execution [OF b(1) [unfolded new_def] b'(1) [unfolded new_def]]
    by simp
  with b b' show ?thesis unfolding new_def by (intro exI [of _ b] exI [of _ b']) simp
qed

end
