(* ===== verification/Limits.thy ===== *)
theory Limits
  imports Block_Context
begin

section \<open>Payload limits\<close>

text \<open>
  \<open>Limits\<close> and \<open>clamp\<close> (\<open>crates/core/src/platform/limits.rs\<close>), the limits that the two
  platforms create for a block (\<open>ethereum/limits.rs\<close>, \<open>optimism/limits.rs\<close>) and the scaling
  of an enclosing scope's limits (\<open>crates/pipeline/src/pipelines/limits.rs\<close>).

  \<open>usize\<close> is 64 bits wide. A \<open>Duration\<close> is its number of nanoseconds; its saturating
  operations stop at \<open>duration_max\<close>. The platforms' extension of the limits is the unit type
  for Ethereum and \<open>OpLimitsExt\<close> for Optimism: \<open>extra_limits\<close> has one constructor for each.
\<close>

subsection \<open>Data\<close>

record op_limits_ext =
  max_tx_da :: "u64 option"
  max_block_da :: "u64 option"
  max_block_da_footprint :: "u64 option"

datatype extra_limits = EthExt | OpExt op_limits_ext

type_synonym duration = nat

definition duration_max :: duration where
  "duration_max = (2 ^ 64 - 1) * 1000000000 + 999999999"

record limits =
  gas_limit :: u64
  lim_blob_params :: "blob_params option"
  max_transactions :: "u64 option"
  deadline :: "duration option"
  ext :: extra_limits

subsection \<open>Construction and clamping\<close>

text \<open>The extension's default is an argument, as the platform provides it.\<close>

definition limits_with_gas :: "extra_limits \<Rightarrow> u64 \<Rightarrow> limits" where
  "limits_with_gas default_ext gas =
     \<lparr>gas_limit = gas, lim_blob_params = None, max_transactions = None, deadline = None,
      ext = default_ext\<rparr>"

definition with_blob_params :: "limits \<Rightarrow> blob_params \<Rightarrow> limits" where
  "with_blob_params l p = l\<lparr>lim_blob_params := Some p\<rparr>"

definition with_max_transactions :: "limits \<Rightarrow> u64 \<Rightarrow> limits" where
  "with_max_transactions l n = l\<lparr>max_transactions := Some n\<rparr>"

definition with_deadline :: "limits \<Rightarrow> duration \<Rightarrow> limits" where
  "with_deadline l d = l\<lparr>deadline := Some d\<rparr>"

text \<open>\<open>Instant::duration_since\<close> is zero when the instant lies in the past.\<close>

definition with_deadline_at :: "nat \<Rightarrow> limits \<Rightarrow> nat \<Rightarrow> limits" where
  "with_deadline_at now l at = l\<lparr>deadline := Some (at - now)\<rparr>"

definition with_gas_limit :: "limits \<Rightarrow> u64 \<Rightarrow> limits" where
  "with_gas_limit l g = l\<lparr>gas_limit := g\<rparr>"

definition with_ext :: "limits \<Rightarrow> extra_limits \<Rightarrow> limits" where
  "with_ext l e = l\<lparr>ext := e\<rparr>"

definition op_ext_clamp :: "op_limits_ext \<Rightarrow> op_limits_ext \<Rightarrow> op_limits_ext" where
  "op_ext_clamp a b =
     \<lparr>max_tx_da = option_min (max_tx_da a) (max_tx_da b),
      max_block_da = option_min (max_block_da a) (max_block_da b),
      max_block_da_footprint = option_min (max_block_da_footprint a) (max_block_da_footprint b)\<rparr>"

fun ext_clamp :: "extra_limits \<Rightarrow> extra_limits \<Rightarrow> extra_limits" where
  "ext_clamp (OpExt a) (OpExt b) = OpExt (op_ext_clamp a b)"
| "ext_clamp a _ = a"

definition blob_params_min :: "blob_params \<Rightarrow> blob_params \<Rightarrow> blob_params" where
  "blob_params_min a b =
     \<lparr>target_blob_count = min (target_blob_count a) (target_blob_count b),
      max_blob_count = min (max_blob_count a) (max_blob_count b),
      update_fraction = min (update_fraction a) (update_fraction b),
      min_blob_fee = min (min_blob_fee a) (min_blob_fee b),
      max_blobs_per_tx = min (max_blobs_per_tx a) (max_blobs_per_tx b),
      blob_base_cost = min (blob_base_cost a) (blob_base_cost b)\<rparr>"

definition clamp :: "limits \<Rightarrow> limits \<Rightarrow> limits" where
  "clamp self other =
     \<lparr>gas_limit = min (gas_limit self) (gas_limit other),
      lim_blob_params =
        (case (lim_blob_params self, lim_blob_params other) of
           (Some a, Some b) \<Rightarrow> Some (blob_params_min a b)
         | _ \<Rightarrow> (case lim_blob_params self of Some a \<Rightarrow> Some a | None \<Rightarrow> lim_blob_params other)),
      max_transactions = option_min (max_transactions self) (max_transactions other),
      deadline = option_min (deadline self) (deadline other),
      ext = ext_clamp (ext self) (ext other)\<rparr>"

subsection \<open>Platform limits\<close>

text \<open>
  \<open>builder_gas_limit\<close> is reth's \<open>EthereumBuilderConfig::gas_limit\<close>; \<open>now\<close> the seconds since
  the epoch; the two sizes are those of the default \<open>OpDAConfig\<close>.
\<close>

definition secs :: "u64 \<Rightarrow> duration" where
  "secs s = unat s * 1000000000"

definition ethereum_default_limits :: "(u64 \<Rightarrow> u64) \<Rightarrow> u64 \<Rightarrow> block_context \<Rightarrow> limits" where
  "ethereum_default_limits builder_gas_limit now block =
     (let ts = attr_timestamp (attributes block);
          gas = builder_gas_limit (hdr_gas_limit (parent block));
          l = with_deadline (limits_with_gas EthExt gas) (secs (saturating_sub ts now))
      in case blob_params_at_timestamp (bc_chainspec block) ts of
           Some p \<Rightarrow> with_blob_params l p | None \<Rightarrow> l)"

definition filter_nonzero :: "u64 option \<Rightarrow> u64 option" where
  "filter_nonzero v = (case v of Some x \<Rightarrow> if x \<noteq> 0 then Some x else None | None \<Rightarrow> None)"

definition optimism_default_limits ::
    "extra_limits \<Rightarrow> u64 option \<Rightarrow> u64 option \<Rightarrow> u64 \<Rightarrow> block_context \<Rightarrow> limits" where
  "optimism_default_limits default_ext max_da_tx_size max_da_block_size now block =
     (let ts = attr_timestamp (attributes block);
          gas = (case attr_gas_limit (attributes block) of
                   Some g \<Rightarrow> g | None \<Rightarrow> hdr_gas_limit (parent block));
          l = with_deadline (limits_with_gas default_ext gas) (secs (saturating_sub ts now));
          l2 = (case blob_params_at_timestamp (bc_chainspec block) ts of
                  Some p \<Rightarrow> with_blob_params l p | None \<Rightarrow> l)
      in with_ext l2 (OpExt \<lparr>max_tx_da = filter_nonzero max_da_tx_size,
                             max_block_da = filter_nonzero max_da_block_size,
                             max_block_da_footprint = Some (gas_limit l2)\<rparr>))"

subsection \<open>Scaling\<close>

text \<open>The denominator of \<open>Fraction\<close> is a \<open>NonZero<u32>\<close>.\<close>

datatype 'a scale_op = Fraction u32 u32 | Minus 'a | Fixed 'a | Zero

record scaled =
  sc_gas :: "u64 scale_op option"
  sc_max_txs :: "u64 scale_op option"
  sc_max_blob_count :: "u64 scale_op option"
  sc_max_blobs_per_tx :: "u64 scale_op option"
  sc_deadline :: "duration scale_op option"

definition scaled_new :: scaled where
  "scaled_new = \<lparr>sc_gas = None, sc_max_txs = None, sc_max_blob_count = None,
                 sc_max_blobs_per_tx = None, sc_deadline = None\<rparr>"

fun apply_u64 :: "u64 scale_op \<Rightarrow> u64 \<Rightarrow> u64" where
  "apply_u64 (Fraction n d) v = saturating_mul v (ucast n) div ucast d"
| "apply_u64 (Minus a) v = saturating_sub v a"
| "apply_u64 (Fixed a) v = a"
| "apply_u64 Zero v = 0"

fun apply_usize :: "u64 scale_op \<Rightarrow> u64 option \<Rightarrow> u64 option" where
  "apply_usize (Fraction n d) (Some v) = Some (saturating_mul v (ucast n) div ucast d)"
| "apply_usize (Minus a) (Some v) = Some (saturating_sub v a)"
| "apply_usize (Fixed a) (Some v) = Some a"
| "apply_usize Zero v = Some 0"
| "apply_usize _ None = None"

definition duration_saturating_mul :: "duration \<Rightarrow> u32 \<Rightarrow> duration" where
  "duration_saturating_mul v n = (if v * unat n \<le> duration_max then v * unat n else duration_max)"

fun apply_duration :: "duration scale_op \<Rightarrow> duration option \<Rightarrow> duration option" where
  "apply_duration (Fraction n d) (Some v) = Some (duration_saturating_mul v n div unat d)"
| "apply_duration (Minus a) (Some v) = Some (v - a)"
| "apply_duration (Fixed a) v = Some a"
| "apply_duration Zero v = Some 0"
| "apply_duration _ None = None"

definition scaled_from :: "scaled \<Rightarrow> limits \<Rightarrow> limits" where
  "scaled_from s l0 =
     (let l1 = (case sc_gas s of Some op \<Rightarrow> l0\<lparr>gas_limit := apply_u64 op (gas_limit l0)\<rparr> | None \<Rightarrow> l0);
          l2 = (case sc_deadline s of
                  Some op \<Rightarrow> l1\<lparr>deadline := apply_duration op (deadline l1)\<rparr> | None \<Rightarrow> l1);
          l3 = (case sc_max_txs s of
                  Some op \<Rightarrow> l2\<lparr>max_transactions := apply_usize op (max_transactions l2)\<rparr> | None \<Rightarrow> l2);
          l4 = (case sc_max_blob_count s of
                  Some op \<Rightarrow> l3\<lparr>lim_blob_params := map_option
                    (\<lambda>p. p\<lparr>max_blob_count := apply_u64 op (max_blob_count p)\<rparr>) (lim_blob_params l3)\<rparr>
                | None \<Rightarrow> l3);
          l5 = (case sc_max_blobs_per_tx s of
                  Some op \<Rightarrow> l4\<lparr>lim_blob_params := map_option
                    (\<lambda>p. p\<lparr>max_blobs_per_tx := apply_u64 op (max_blobs_per_tx p)\<rparr>) (lim_blob_params l4)\<rparr>
                | None \<Rightarrow> l4)
      in l5)"

subsection \<open>Lemmas\<close>

lemma option_min_commute: "option_min a b = option_min b a"
  by (cases a; cases b) (auto simp: min.commute)

lemma option_min_idem [simp]: "option_min a a = a"
  by (cases a) auto

lemma option_min_None [simp]: "option_min a None = None"
  by (cases a) auto

lemma blob_params_min_simps:
  "blob_params_min a b = blob_params_min b a" "blob_params_min a a = a"
  by (simp_all add: blob_params_min_def min.commute)

lemma clamp_gas_le: "gas_limit (clamp a b) \<le> gas_limit a" "gas_limit (clamp a b) \<le> gas_limit b"
  by (simp_all add: clamp_def)

lemma clamp_gas: "gas_limit (clamp a b) = min (gas_limit a) (gas_limit b)"
  by (simp add: clamp_def)

lemma clamp_idem [simp]: "clamp a a = a"
proof -
  have "ext_clamp (ext a) (ext a) = ext a"
    by (cases "ext a") (simp_all add: op_ext_clamp_def)
  then show ?thesis
    by (simp add: clamp_def blob_params_min_simps split: option.splits)
qed

lemma clamp_commute:
  assumes "ext a = EthExt \<longleftrightarrow> ext b = EthExt"
  shows "clamp a b = clamp b a"
proof -
  have "ext_clamp (ext a) (ext b) = ext_clamp (ext b) (ext a)"
    using assms
    by (cases "ext a"; cases "ext b") (simp_all add: op_ext_clamp_def option_min_commute)
  then show ?thesis
    by (simp add: clamp_def min.commute option_min_commute blob_params_min_simps(1) split: option.splits)
qed

lemma unat_ucast_u32: "unat (ucast (n :: u32) :: u64) = unat n"
proof -
  have "unat n < 2 ^ 32" using unsigned_less [of n] by simp
  then have "unat n < 2 ^ 64" by simp
  then show ?thesis by (simp add: unsigned_ucast_eq take_bit_nat_eq_self)
qed

lemma unat_apply_Fraction:
  "unat (apply_u64 (Fraction n d) v) = min (unat v * unat n) (2 ^ 64 - 1) div unat d"
  by (simp add: unat_div unat_saturating_mul unat_ucast_u32)

lemma apply_Fraction_le:
  assumes "unat n \<le> unat d" "d \<noteq> 0"
  shows "apply_u64 (Fraction n d) v \<le> v"
proof -
  have "unat v * unat n div unat d \<le> unat v * unat d div unat d"
    using assms(1) by (intro div_le_mono mult_le_mono2)
  also have "\<dots> = unat v" using assms(2) by (simp add: unat_eq_0)
  finally have "min (unat v * unat n) (2 ^ 64 - 1) div unat d \<le> unat v"
    using div_le_mono [of "min (unat v * unat n) (2 ^ 64 - 1)" "unat v * unat n" "unat d"] by simp
  then show ?thesis by (simp add: word_le_nat_alt unat_apply_Fraction del: apply_u64.simps)
qed

subsection \<open>Properties\<close>

definition sample_limits :: limits where
  "sample_limits = with_deadline (with_max_transactions (limits_with_gas EthExt 1000) 5) 500"

text \<open>
  Clamping never raises the gas limit above either side, is idempotent, does not
  depend on the order for limits of one platform, and clamping twice by the same limits is
  clamping once.
\<close>

theorem clamp_bounds:
  assumes "ext a = EthExt \<longleftrightarrow> ext b = EthExt"
  shows "gas_limit (clamp a b) = min (gas_limit a) (gas_limit b) \<and> clamp a a = a \<and>
    clamp a b = clamp b a \<and> clamp (clamp a b) b = clamp a b"
proof -
  have oc: "option_min (option_min x y) y = option_min x y" for x y :: "'z::linorder option"
    by (cases x; cases y) simp_all
  have "ext_clamp (ext_clamp (ext a) (ext b)) (ext b) = ext_clamp (ext a) (ext b)"
    by (cases "ext a"; cases "ext b") (simp_all add: op_ext_clamp_def oc)
  moreover have "blob_params_min (blob_params_min p q) q = blob_params_min p q" for p q
    by (simp add: blob_params_min_def)
  ultimately have "clamp (clamp a b) b = clamp a b"
    by (simp add: clamp_def oc blob_params_min_simps(2) split: option.splits)
  then show ?thesis using clamp_commute [OF assms] clamp_gas [of a b] clamp_idem [of a] by blast
qed

theorem clamp_bounds_witness:
  "gas_limit (clamp sample_limits (limits_with_gas EthExt 300)) = 300"
proof -
  have "gas_limit (clamp sample_limits (limits_with_gas EthExt 300)) =
      min (gas_limit sample_limits) (gas_limit (limits_with_gas EthExt 300))"
    by (rule conjunct1 [OF clamp_bounds])
      (simp add: sample_limits_def limits_with_gas_def with_deadline_def with_max_transactions_def)
  then show ?thesis
    by (simp add: sample_limits_def limits_with_gas_def with_deadline_def with_max_transactions_def)
qed

text \<open>
  Clamping by limits that do not restrict the number of transactions, the deadline or
  the data availability removes those restrictions instead of keeping them, because \<open>None\<close>
  is the least option; blob parameters, in contrast, are kept.
\<close>

theorem clamp_drops_unmatched_limits:
  "max_transactions (clamp a (b\<lparr>max_transactions := None\<rparr>)) = None \<and>
   deadline (clamp a (b\<lparr>deadline := None\<rparr>)) = None \<and>
   ext (clamp (a\<lparr>ext := OpExt x\<rparr>) (b\<lparr>ext := OpExt (y\<lparr>max_tx_da := None, max_block_da := None\<rparr>)\<rparr>)) =
     OpExt \<lparr>max_tx_da = None, max_block_da = None,
            max_block_da_footprint = option_min (max_block_da_footprint x) (max_block_da_footprint y)\<rparr> \<and>
   lim_blob_params (clamp (a\<lparr>lim_blob_params := Some p\<rparr>) (b\<lparr>lim_blob_params := None\<rparr>)) = Some p"
  by (simp add: clamp_def op_ext_clamp_def)

text \<open>
  Scaling is monotone where it should be. A fraction of at most one, a subtraction and
  zero never raise the gas limit; a fraction equals the rational part rounded down as long as the
  product fits in 64 bits; the limits that are not scaled stay as they are.
\<close>

theorem scaled_from_never_raises:
  assumes "\<And>n d. sc_gas s = Some (Fraction n d) \<Longrightarrow> unat n \<le> unat d \<and> d \<noteq> 0"
    and "\<And>g. sc_gas s = Some (Fixed g) \<Longrightarrow> g \<le> gas_limit l"
  shows "gas_limit (scaled_from s l) \<le> gas_limit l \<and> ext (scaled_from s l) = ext l \<and>
    (unat v * unat n < 2 ^ 64 \<longrightarrow> unat (apply_u64 (Fraction n d) v) = unat v * unat n div unat d)"
proof -
  have "gas_limit (scaled_from s l) = (case sc_gas s of Some op \<Rightarrow> apply_u64 op (gas_limit l) | None \<Rightarrow> gas_limit l)"
    by (simp add: scaled_from_def split: option.split)
  moreover have "apply_u64 op (gas_limit l) \<le> gas_limit l" if "sc_gas s = Some op" for op
  proof (cases op)
    case (Fraction n d)
    with assms(1) [of n d] that show ?thesis by (simp add: apply_Fraction_le del: apply_u64.simps)
  qed (use assms(2) that in \<open>auto simp: saturating_sub_le\<close>)
  moreover have "ext (scaled_from s l) = ext l"
    by (simp add: scaled_from_def split: option.split)
  moreover have "unat (apply_u64 (Fraction n d) v) = unat v * unat n div unat d"
    if "unat v * unat n < 2 ^ 64"
    using that by (simp add: unat_apply_Fraction del: apply_u64.simps)
  ultimately show ?thesis by (auto split: option.split)
qed

theorem scaled_from_never_raises_witness:
  "gas_limit (scaled_from (scaled_new\<lparr>sc_gas := Some (Fraction 1 2)\<rparr>) sample_limits) \<le>
     gas_limit sample_limits \<and>
   gas_limit (scaled_from (scaled_new\<lparr>sc_gas := Some (Fraction 1 2)\<rparr>) sample_limits) = 500"
proof
  show "gas_limit (scaled_from (scaled_new\<lparr>sc_gas := Some (Fraction 1 2)\<rparr>) sample_limits) \<le>
      gas_limit sample_limits"
    using scaled_from_never_raises [of "scaled_new\<lparr>sc_gas := Some (Fraction 1 2)\<rparr>" sample_limits]
    by simp
qed (simp add: scaled_from_def scaled_new_def sample_limits_def limits_with_gas_def with_deadline_def
    with_max_transactions_def saturating_mul_def)

text \<open>
  The two implementations of scaling an optional limit disagree on a fixed value. With
  no enclosing limit, a fixed number of transactions sets no limit while a fixed deadline sets
  one; both keep \<open>None\<close> for a fraction or a subtraction.
\<close>

theorem scale_fixed_inconsistent:
  "apply_usize (Fixed n) None = None \<and> apply_duration (Fixed t) None = Some t \<and>
   apply_usize (Fraction a b) None = None \<and> apply_duration (Fraction a b) None = None \<and>
   apply_usize Zero None = Some 0 \<and> apply_duration Zero None = Some 0"
  by simp

text \<open>
  The limits the platforms create. The deadline is the time left to the block's
  timestamp and zero once it has passed; Optimism takes the gas limit from the attributes and
  else from the parent, bounds the data availability footprint by it, and reads a size of zero
  as no limit.
\<close>

theorem platform_limits_values:
  "deadline (ethereum_default_limits bgl now block) =
     Some ((unat (timestamp block) - unat now) * 1000000000) \<and>
   gas_limit (ethereum_default_limits bgl now block) = bgl (hdr_gas_limit (parent block)) \<and>
   lim_blob_params (ethereum_default_limits bgl now block) =
     blob_params_at_timestamp (bc_chainspec block) (timestamp block) \<and>
   gas_limit (optimism_default_limits de da_tx da_block now block) =
     (case attr_gas_limit (attributes block) of Some g \<Rightarrow> g | None \<Rightarrow> hdr_gas_limit (parent block)) \<and>
   deadline (optimism_default_limits de da_tx da_block now block) =
     deadline (ethereum_default_limits bgl now block) \<and>
   (\<exists>e. ext (optimism_default_limits de da_tx da_block now block) = OpExt e \<and>
      max_tx_da e \<noteq> Some 0 \<and> max_block_da e \<noteq> Some 0 \<and>
      max_block_da_footprint e = Some (gas_limit (optimism_default_limits de da_tx da_block now block)))"
  by (auto simp: ethereum_default_limits_def optimism_default_limits_def Let_def with_deadline_def
      limits_with_gas_def with_blob_params_def with_ext_def secs_def unat_saturating_sub
      timestamp_def filter_nonzero_def split: option.split)

end
