(* ===== verification/Exec.thy ===== *)
theory Exec
  imports Block_Context
begin

section \<open>Execution of transactions and bundles\<close>

text \<open>
  \<open>crates/core/src/payload/exec.rs\<close>: \<open>Executable\<close>, its execution on a database, and
  \<open>ExecutionResult\<close>. The documented truth table of \<open>execute_bundle\<close> is the function
  \<open>truth_table\<close>; the relation \<open>bundle_run\<close> executes a bundle by that table, and the loop of
  the code is shown to implement it, errors included.
\<close>

subsection \<open>Data\<close>

datatype execution_error =
    InvalidSignature
  | InvalidTransaction evm_error
  | InvalidBundleTransaction b256 evm_error
  | BundleTransactionReverted b256 "halt_reason option"
  | InvalidBundlePostExecutionState string
  | IneligibleBundle eligibility

datatype executable = Transaction recovered_tx | Bundle flashbots_bundle

record execution_result =
  source :: executable
  results :: "tx_exec_result list"
  er_state :: bundle_state

subsection \<open>Operations\<close>

definition execute_transaction ::
    "block_context \<Rightarrow> database_ref \<Rightarrow> recovered_tx \<Rightarrow> evm_error + execution_result" where
  "execute_transaction block db tx =
     and_then (transact (evm_config block) (evm_env_of block) db [] (Plain tx)) (\<lambda>(result, state).
     Inr \<lparr>source = Transaction tx, results = [result],
          er_state = take_bundle (evm_config block) db [state]\<rparr>)"

text \<open>The default of the trait, which \<open>FlashbotsBundle\<close> keeps.\<close>

definition validate_post_execution ::
    "flashbots_bundle \<Rightarrow> bundle_state \<Rightarrow> block_context \<Rightarrow> string + unit" where
  "validate_post_execution b s block = Inr ()"

definition halt_reason_of :: "tx_exec_result \<Rightarrow> halt_reason option" where
  "halt_reason_of r = (case r of Halt reason g \<Rightarrow> Some reason | _ \<Rightarrow> None)"

text \<open>
  The loop of \<open>execute_bundle\<close> over the encoded transactions; its state is the list of
  committed changes, the discarded hashes and the results so far.
\<close>

fun execute_bundle_loop ::
    "block_context \<Rightarrow> database_ref \<Rightarrow> flashbots_bundle \<Rightarrow> (recovered_tx \<times> bytes) list \<Rightarrow>
     evm_state list \<Rightarrow> b256 list \<Rightarrow> tx_exec_result list \<Rightarrow>
     execution_error + evm_state list \<times> b256 list \<times> tx_exec_result list" where
  "execute_bundle_loop block db b [] committed discarded res = Inr (committed, discarded, res)"
| "execute_bundle_loop block db b ((tx, enc) # rest) committed discarded res =
     (let hash = tx_hash tx;
          optional = is_optional b hash;
          allowed_to_fail = is_allowed_to_fail b hash
      in case transact (evm_config block) (evm_env_of block) db committed (WithEncoded enc tx) of
           Inr (result, state) \<Rightarrow>
             if is_success result \<or> allowed_to_fail
             then execute_bundle_loop block db b rest (committed @ [state]) discarded (res @ [result])
             else if optional
             then execute_bundle_loop block db b rest committed (discarded @ [hash]) res
             else Inl (BundleTransactionReverted hash (halt_reason_of result))
         | Inl err \<Rightarrow>
             if optional
             then execute_bundle_loop block db b rest committed (discarded @ [hash]) res
             else Inl (InvalidBundleTransaction hash err))"

definition execute_bundle ::
    "block_context \<Rightarrow> database_ref \<Rightarrow> flashbots_bundle \<Rightarrow> execution_error + execution_result" where
  "execute_bundle block db b =
     (let eligible = is_eligible b block in
      if eligibility_not eligible then Inl (IneligibleBundle eligible)
      else and_then (execute_bundle_loop block db b (transactions_encoded b) [] [] [])
        (\<lambda>(committed, discarded, res).
         let b' = fold (\<lambda>h b. without_transaction b h) discarded b;
             state = take_bundle (evm_config block) db committed
         in and_then (map_err InvalidBundlePostExecutionState (validate_post_execution b' state block))
              (\<lambda>u. Inr \<lparr>source = Bundle b', results = res, er_state = state\<rparr>)))"

fun execute ::
    "block_context \<Rightarrow> database_ref \<Rightarrow> executable \<Rightarrow> execution_error + execution_result" where
  "execute block db (Bundle b) = execute_bundle block db b"
| "execute block db (Transaction tx) = map_err InvalidTransaction (execute_transaction block db tx)"

fun executable_transactions :: "executable \<Rightarrow> recovered_tx list" where
  "executable_transactions (Transaction tx) = [tx]"
| "executable_transactions (Bundle b) = bundle_transactions b"

fun is_transaction :: "executable \<Rightarrow> bool" where
  "is_transaction (Transaction tx) = True"
| "is_transaction (Bundle b) = False"

fun is_bundle_exec :: "executable \<Rightarrow> bool" where
  "is_bundle_exec (Transaction tx) = False"
| "is_bundle_exec (Bundle b) = True"

fun executable_hash :: "(bytes \<Rightarrow> b256) \<Rightarrow> executable \<Rightarrow> b256" where
  "executable_hash keccak (Transaction tx) = tx_hash tx"
| "executable_hash keccak (Bundle b) = bundle_hash keccak b"

text \<open>
  \<open>IntoExecutable\<close>: a raw transaction needs its signer recovered (a parameter), the others are
  infallible.
\<close>

definition tx_try_into_executable ::
    "('tx \<Rightarrow> string + recovered_tx) \<Rightarrow> 'tx \<Rightarrow> execution_error + executable" where
  "tx_try_into_executable try_into_recovered tx =
     map_err (\<lambda>_. InvalidSignature) (map_ok Transaction (try_into_recovered tx))"

definition result_transactions :: "execution_result \<Rightarrow> recovered_tx list" where
  "result_transactions r = executable_transactions (source r)"

definition result_gas_used :: "execution_result \<Rightarrow> u64" where
  "result_gas_used r = sum_list (map result_gas (results r))"

subsection \<open>The documented truth table\<close>

datatype action = Include | Discard | Error

fun truth_table :: "bool \<Rightarrow> bool \<Rightarrow> bool \<Rightarrow> action" where
  "truth_table True allowed optional = Include"
| "truth_table False True optional = Include"
| "truth_table False False True = Discard"
| "truth_table False False False = Error"

text \<open>
  A run of a bundle by the table: the transactions left, the changes committed before, the
  included transactions with their results, the discarded hashes, the changes committed at the
  end. An invalid transaction counts as failing and never as allowed to fail.
\<close>

inductive bundle_run ::
    "block_context \<Rightarrow> database_ref \<Rightarrow> flashbots_bundle \<Rightarrow> (recovered_tx \<times> bytes) list \<Rightarrow>
     evm_state list \<Rightarrow> (recovered_tx \<times> tx_exec_result) list \<Rightarrow> b256 list \<Rightarrow> evm_state list \<Rightarrow> bool"
  for block db b where
  run_done: "bundle_run block db b [] c [] [] c"
| run_include:
    "transact (evm_config block) (evm_env_of block) db c (WithEncoded enc tx) = Inr (r, s) \<Longrightarrow>
     truth_table (is_success r) (is_allowed_to_fail b (tx_hash tx)) (is_optional b (tx_hash tx))
       = Include \<Longrightarrow>
     bundle_run block db b rest (c @ [s]) inc dis c' \<Longrightarrow>
     bundle_run block db b ((tx, enc) # rest) c ((tx, r) # inc) dis c'"
| run_discard_failed:
    "transact (evm_config block) (evm_env_of block) db c (WithEncoded enc tx) = Inr (r, s) \<Longrightarrow>
     truth_table (is_success r) (is_allowed_to_fail b (tx_hash tx)) (is_optional b (tx_hash tx))
       = Discard \<Longrightarrow>
     bundle_run block db b rest c inc dis c' \<Longrightarrow>
     bundle_run block db b ((tx, enc) # rest) c inc (tx_hash tx # dis) c'"
| run_discard_invalid:
    "transact (evm_config block) (evm_env_of block) db c (WithEncoded enc tx) = Inl e \<Longrightarrow>
     truth_table False False (is_optional b (tx_hash tx)) = Discard \<Longrightarrow>
     bundle_run block db b rest c inc dis c' \<Longrightarrow>
     bundle_run block db b ((tx, enc) # rest) c inc (tx_hash tx # dis) c'"

text \<open>The error the table's last line gives for one transaction, if it does.\<close>

definition table_error ::
    "block_context \<Rightarrow> database_ref \<Rightarrow> flashbots_bundle \<Rightarrow> evm_state list \<Rightarrow> recovered_tx \<times> bytes
     \<Rightarrow> execution_error option" where
  "table_error block db b c te =
     (case te of (tx, enc) \<Rightarrow>
      case transact (evm_config block) (evm_env_of block) db c (WithEncoded enc tx) of
        Inr (r, s) \<Rightarrow>
          if truth_table (is_success r) (is_allowed_to_fail b (tx_hash tx))
               (is_optional b (tx_hash tx)) = Error
          then Some (BundleTransactionReverted (tx_hash tx) (halt_reason_of r)) else None
      | Inl e \<Rightarrow>
          if truth_table False False (is_optional b (tx_hash tx)) = Error
          then Some (InvalidBundleTransaction (tx_hash tx) e) else None)"

lemma truth_table_simps [simp]:
  "truth_table s a o' = Include \<longleftrightarrow> s \<or> a"
  "truth_table s a o' = Discard \<longleftrightarrow> \<not> s \<and> \<not> a \<and> o'"
  "truth_table s a o' = Error \<longleftrightarrow> \<not> s \<and> \<not> a \<and> \<not> o'"
  by (cases s; cases a; cases o'; simp)+


text \<open>One transaction by the table: the error, \<open>None\<close> for discarded, the result otherwise.\<close>

definition bundle_step ::
    "block_context \<Rightarrow> database_ref \<Rightarrow> flashbots_bundle \<Rightarrow> evm_state list \<Rightarrow> recovered_tx \<times> bytes
     \<Rightarrow> execution_error + (tx_exec_result \<times> evm_state) option" where
  "bundle_step block db b c te =
     (case table_error block db b c te of
        Some e \<Rightarrow> Inl e
      | None \<Rightarrow>
          (case te of (tx, enc) \<Rightarrow>
           case transact (evm_config block) (evm_env_of block) db c (WithEncoded enc tx) of
             Inl e \<Rightarrow> Inr None
           | Inr (r, s) \<Rightarrow>
               if is_success r \<or> is_allowed_to_fail b (tx_hash tx) then Inr (Some (r, s)) else Inr None))"

inductive_simps bundle_run_Nil: "bundle_run block db b [] c inc dis c'"
inductive_simps bundle_run_Cons0: "bundle_run block db b ((tx, enc) # rest) c inc dis c'"

lemma loop_Cons:
  "execute_bundle_loop block db b ((tx, enc) # rest) c dis res =
     (case bundle_step block db b c (tx, enc) of
        Inl e \<Rightarrow> Inl e
      | Inr None \<Rightarrow> execute_bundle_loop block db b rest c (dis @ [tx_hash tx]) res
      | Inr (Some (r, s)) \<Rightarrow> execute_bundle_loop block db b rest (c @ [s]) dis (res @ [r]))"
  by (simp add: bundle_step_def table_error_def Let_def split: sum.split)

lemma bundle_run_Cons:
  "bundle_run block db b ((tx, enc) # rest) c inc dis c' \<longleftrightarrow>
     (case bundle_step block db b c (tx, enc) of
        Inl e \<Rightarrow> False
      | Inr None \<Rightarrow> (\<exists>dis'. dis = tx_hash tx # dis' \<and> bundle_run block db b rest c inc dis' c')
      | Inr (Some (r, s)) \<Rightarrow>
          (\<exists>inc'. inc = (tx, r) # inc' \<and> bundle_run block db b rest (c @ [s]) inc' dis c'))"
  by (subst bundle_run_Cons0) (auto simp: bundle_step_def table_error_def split: sum.split)

declare execute_bundle_loop.simps(2) [simp del]

lemma loop_iff_run:
  "execute_bundle_loop block db b ts c dis0 res0 = Inr (c', dis', res') \<longleftrightarrow>
   (\<exists>inc dis. bundle_run block db b ts c inc dis c' \<and> dis' = dis0 @ dis \<and>
     res' = res0 @ map snd inc)"
proof (induction ts arbitrary: c dis0 res0)
  case Nil
  then show ?case by (auto simp: bundle_run_Nil)
next
  case (Cons te ts)
  obtain tx enc where te: "te = (tx, enc)" by (cases te)
  show ?case
  proof (cases "bundle_step block db b c (tx, enc)")
    case (Inl e)
    then show ?thesis by (simp add: te loop_Cons bundle_run_Cons)
  next
    case (Inr o')
    then show ?thesis
      by (cases o') (force simp: te loop_Cons bundle_run_Cons Cons.IH)+
  qed
qed





subsection \<open>What a run includes and discards\<close>

lemma run_length:
  "bundle_run block db b ts c inc dis c' \<Longrightarrow>
   length inc + length dis = length ts \<and> length c' = length c + length inc"
  by (induction rule: bundle_run.induct) auto

lemma run_included:
  "bundle_run block db b ts c inc dis c' \<Longrightarrow> (t, r) \<in> set inc \<Longrightarrow>
   is_success r \<or> is_allowed_to_fail b (tx_hash t)"
  by (induction rule: bundle_run.induct) auto

lemma run_discarded:
  "bundle_run block db b ts c inc dis c' \<Longrightarrow> h \<in> set dis \<Longrightarrow>
   is_optional b h \<and> h \<in> tx_hash ` set (map fst ts)"
  by (induction rule: bundle_run.induct) (auto split: if_splits)

lemma run_included_txs:
  "bundle_run block db b ts c inc dis c' \<Longrightarrow> distinct (map (tx_hash \<circ> fst) ts) \<Longrightarrow>
   map fst inc = filter (\<lambda>t. tx_hash t \<notin> set dis) (map fst ts)"
proof (induction rule: bundle_run.induct)
  case (run_include c enc tx r s rest inc dis c')
  from run_discarded [OF run_include(3)] run_include.prems have "tx_hash tx \<notin> set dis" by force
  with run_include show ?case by simp
next
  case (run_discard_failed c enc tx r s rest inc dis c')
  then have "\<forall>t \<in> set (map fst rest). tx_hash t \<noteq> tx_hash tx" by (auto simp: image_iff)
  with run_discard_failed show ?case by (auto intro!: filter_cong)
next
  case (run_discard_invalid c enc tx e rest inc dis c')
  then have "\<forall>t \<in> set (map fst rest). tx_hash t \<noteq> tx_hash tx" by (auto simp: image_iff)
  with run_discard_invalid show ?case by (auto intro!: filter_cong)
qed simp

text \<open>The result of a run: the bundle without what was discarded.\<close>

definition run_result ::
    "block_context \<Rightarrow> database_ref \<Rightarrow> flashbots_bundle \<Rightarrow> (recovered_tx \<times> tx_exec_result) list \<Rightarrow>
     b256 list \<Rightarrow> evm_state list \<Rightarrow> execution_result" where
  "run_result block db b inc dis c =
     \<lparr>source = Bundle (fold (\<lambda>h b. without_transaction b h) dis b), results = map snd inc,
      er_state = take_bundle (evm_config block) db c\<rparr>"

lemma execute_bundle_Inr:
  "execute_bundle block db b = Inr r \<longleftrightarrow>
   is_eligible b block = Eligible \<and>
   (\<exists>inc dis c. bundle_run block db b (transactions_encoded b) [] inc dis c \<and>
      r = run_result block db b inc dis c)"
proof -
  have "execute_bundle block db b = Inr r \<longleftrightarrow>
    is_eligible b block = Eligible \<and>
    (\<exists>c dis res. execute_bundle_loop block db b (transactions_encoded b) [] [] [] = Inr (c, dis, res) \<and>
      r = \<lparr>source = Bundle (fold (\<lambda>h b. without_transaction b h) dis b), results = res,
           er_state = take_bundle (evm_config block) db c\<rparr>)"
    by (auto simp: execute_bundle_def eligibility_not_def eligibility_into_bool_def
        validate_post_execution_def Let_def result_simps)
  then show ?thesis
    unfolding loop_iff_run run_result_def by auto
qed


lemma encoded_txs: "bundle_wf b \<Longrightarrow> map fst (transactions_encoded b) = bundle_transactions b"
  by (simp add: transactions_encoded_def bundle_transactions_def bundle_wf_def)

lemma run_result_txs:
  assumes "bundle_wf b" "bundle_run block db b (transactions_encoded b) [] inc dis c"
  shows "bundle_transactions (fold (\<lambda>h b. without_transaction b h) dis b) = map fst inc"
    and "map fst inc = filter (\<lambda>t. tx_hash t \<notin> set dis) (bundle_transactions b)"
proof -
  have "distinct (map (tx_hash \<circ> fst) (transactions_encoded b))"
    using fb.wf_distinct [OF assms(1)] encoded_txs [OF assms(1)] by (metis map_map)
  from run_included_txs [OF assms(2) this]
  show txs: "map fst inc = filter (\<lambda>t. tx_hash t \<notin> set dis) (bundle_transactions b)"
    by (simp add: encoded_txs [OF assms(1)])
  show "bundle_transactions (fold (\<lambda>h b. without_transaction b h) dis b) = map fst inc"
    using fb.transactions_without_all [OF assms(1), of dis] txs by (simp add: fb.without_all_def)
qed

subsection \<open>Properties\<close>


text \<open>
  Claim C7: when a well-formed bundle executes, the resulting bundle is well-formed and has one
  result for each of its transactions, every transaction with a failing result is one that the
  resulting bundle allows to fail, the transactions keep their order, and only optional ones are
  missing.
\<close>

theorem execute_bundle_results_match:
  assumes "bundle_wf b" "execute_bundle block db b = Inr r"
  shows "\<exists>b'. source r = Bundle b' \<and> bundle_wf b' \<and>
    length (results r) = length (bundle_transactions b') \<and>
    (\<forall>(t, res) \<in> set (zip (bundle_transactions b') (results r)).
       is_success res \<or> is_allowed_to_fail b' (tx_hash t)) \<and>
    (\<exists>dis. (\<forall>h \<in> set dis. is_optional b h) \<and>
       bundle_transactions b' = filter (\<lambda>t. tx_hash t \<notin> set dis) (bundle_transactions b))"
proof -
  from assms(2) obtain inc dis c where
    run: "bundle_run block db b (transactions_encoded b) [] inc dis c" and
    r: "r = run_result block db b inc dis c"
    by (auto simp: execute_bundle_Inr)
  let ?b' = "fold (\<lambda>h b. without_transaction b h) dis b"
  note txs = run_result_txs [OF assms(1) run]
  have "bundle_wf ?b'"
    using fb.wf_without_all [OF assms(1), of dis] by (simp add: fb.without_all_def)
  moreover have "is_success res \<or> is_allowed_to_fail ?b' (tx_hash t)"
    if "(t, res) \<in> set inc" for t res
  proof -
    have "t \<in> set (map fst inc)" using that by force
    then have "tx_hash t \<notin> set dis" unfolding txs(2) by simp
    with run_included [OF run that] show ?thesis
      using fb.allowed_without_all [of dis b "tx_hash t"] by (auto simp: fb.without_all_def)
  qed
  moreover have "results r = map snd inc" "source r = Bundle ?b'"
    by (simp_all add: r run_result_def)
  ultimately show ?thesis
    using run_discarded [OF run]
    by (intro exI [of _ ?b'] conjI exI [of _ dis])
      (auto simp: txs(1) zip_map_fst_snd simp flip: txs(2))
qed

lemma sample_bundle_executes:
  "execute_bundle sample_block db (mark_as_revertable sample_bundle 2) =
     Inr \<lparr>source = Bundle (mark_as_revertable sample_bundle 2), results = [Success 21000, Revert 21000],
          er_state = take_bundle sample_evm db [undefined, undefined]\<rparr>"
  by (simp add: execute_bundle_def is_eligible_def eligibility_at_def timestamp_def number_def
      sample_block_defs bundle_transactions_def mark_as_revertable_def default_eth_send_bundle_def
      transactions_encoded_def loop_Cons bundle_step_def table_error_def eligibility_not_def
      eligibility_into_bool_def is_success_def validate_post_execution_def is_allowed_to_fail_def
      is_optional_def)

theorem execute_bundle_results_match_witness:
  "\<exists>r b'. execute_bundle sample_block undefined (mark_as_revertable sample_bundle 2) = Inr r \<and>
     source r = Bundle b' \<and> length (results r) = length (bundle_transactions b')"
  using execute_bundle_results_match
    [OF _ sample_bundle_executes [of undefined]] sample_bundle_executes [of undefined]
  by auto

text \<open>
  A bundle all of whose transactions are optional and invalid is not rejected: its
  execution succeeds with an empty bundle and no results, although the documentation calls such
  a bundle invalid. The empty bundle itself is permanently ineligible.
\<close>

theorem execute_bundle_all_discarded:
  assumes "bundle_wf b" "is_eligible b block = Eligible"
    and "\<forall>(tx, enc) \<in> set (transactions_encoded b). is_optional b (tx_hash tx) \<and>
      \<not> is_ok (transact (evm_config block) (evm_env_of block) db [] (WithEncoded enc tx))"
  shows "\<exists>b'. execute_bundle block db b =
      Inr \<lparr>source = Bundle b', results = [], er_state = take_bundle (evm_config block) db []\<rparr> \<and>
    bundle_transactions b' = [] \<and> is_eligible b' block = PermanentlyIneligible"
proof -
  have run: "bundle_run block db b ts [] [] (map (tx_hash \<circ> fst) ts) []"
    if "\<forall>(tx, enc) \<in> set ts. is_optional b (tx_hash tx) \<and>
      \<not> is_ok (transact (evm_config block) (evm_env_of block) db [] (WithEncoded enc tx))" for ts
    using that
  proof (induction ts)
    case (Cons te ts)
    obtain tx enc where te: "te = (tx, enc)" by (cases te)
    from Cons.prems te obtain e where
      "transact (evm_config block) (evm_env_of block) db [] (WithEncoded enc tx) = Inl e"
      by (auto simp: is_ok_iff) (metis sum.exhaust surj_pair)
    with Cons te show ?case by (auto intro: run_discard_invalid)
  qed (auto intro: run_done)
  note r = run [OF assms(3)]
  let ?b' = "fold (\<lambda>h b. without_transaction b h) (map (tx_hash \<circ> fst) (transactions_encoded b)) b"
  have "bundle_transactions ?b' = []"
    using run_result_txs(1) [OF assms(1) r] by simp
  moreover have "execute_bundle block db b = Inr (run_result block db b []
      (map (tx_hash \<circ> fst) (transactions_encoded b)) [])"
    using assms(2) r by (auto simp: execute_bundle_Inr)
  ultimately show ?thesis
    by (intro exI [of _ ?b']) (simp add: run_result_def is_eligible_def eligibility_at_def)
qed

theorem execute_bundle_all_discarded_witness:
  "\<exists>b'. execute_bundle sample_block undefined
          (with_optional_transaction bundle_default (sample_tx 1 13 0)) =
        Inr \<lparr>source = Bundle b', results = [], er_state = take_bundle sample_evm undefined []\<rparr>"
proof -
  let ?b = "with_optional_transaction bundle_default (sample_tx 1 13 0)"
  have "bundle_wf ?b"
    by (simp add: with_optional_transaction_def wf_with_transaction wf_default)
  moreover have "is_eligible ?b sample_block = Eligible"
    by (simp add: with_optional_transaction_def with_transaction_def mark_as_optional_def
        bundle_default_def default_eth_send_bundle_def is_eligible_def eligibility_at_def
        bundle_transactions_def)
  moreover have "\<forall>(tx, enc) \<in> set (transactions_encoded ?b). is_optional ?b (tx_hash tx) \<and>
      \<not> is_ok (transact (evm_config sample_block) (evm_env_of sample_block) undefined []
        (WithEncoded enc tx))"
    by (simp add: with_optional_transaction_def with_transaction_def mark_as_optional_def
        bundle_default_def default_eth_send_bundle_def transactions_encoded_def is_optional_def
        sample_block_defs)
  ultimately show ?thesis
    using execute_bundle_all_discarded [of ?b sample_block undefined]
    by (auto simp: sample_block_def)
qed

text \<open>
  Executing one transaction yields a result exactly when the EVM accepts it, reverted
  and halted ones included, with the single result and its gas.
\<close>

theorem execute_transaction_accepts_reverts:
  "(execute block db (Transaction tx) = Inr r) =
     (\<exists>res s. transact (evm_config block) (evm_env_of block) db [] (Plain tx) = Inr (res, s) \<and>
        r = \<lparr>source = Transaction tx, results = [res],
             er_state = take_bundle (evm_config block) db [s]\<rparr> \<and>
        result_gas_used r = result_gas res \<and> result_transactions r = [tx])"
  by (auto simp: execute_transaction_def result_simps result_gas_used_def result_transactions_def)

text \<open>
  Decoding a request keeps a transaction that occurs twice, and discarding the second
  occurrence removes the first one: of the transactions \<open>a, b, a\<close>, executed as \<open>a, b\<close>, the
  resulting bundle lists \<open>b, a\<close>, so that its results belong to the wrong transactions.
\<close>

theorem execute_bundle_duplicate_misplaced:
  fixes block a b
  defines "block \<equiv> sample_block\<lparr>evm_config := sample_evm\<lparr>transact :=
      (\<lambda>env db c i. if length c < 2 then Inr (Success (of_nat (length c)), undefined)
                       else Inl ''nonce too low'')\<rparr>\<rparr>"
    and "a \<equiv> sample_tx 1 7 0" and "b \<equiv> sample_tx 2 7 1"
  shows "map_ok (\<lambda>r. zip (map tx_hash (result_transactions r)) (results r))
    (execute_bundle block db
       \<lparr>inner = default_eth_send_bundle\<lparr>txs := [[1], [2], [1]], dropping_tx_hashes := [1]\<rparr>,
        recovered = [a, b, a]\<rparr>) = Inr [(2, Success 0), (1, Success 1)]"
  by (simp add: block_def a_def b_def execute_bundle_def is_eligible_def eligibility_at_def
      timestamp_def number_def bundle_transactions_def default_eth_send_bundle_def
      transactions_encoded_def loop_Cons bundle_step_def table_error_def eligibility_not_def
      eligibility_into_bool_def is_success_def validate_post_execution_def is_allowed_to_fail_def
      is_optional_def without_transaction_def list_remove_def result_transactions_def Let_def)

end
