(* ===== verification/Checkpoints.thy ===== *)
theory Checkpoints
  imports Exec
begin

section \<open>Checkpoints and spans\<close>

text \<open>
  \<open>crates/core/src/payload/checkpoint.rs\<close> and \<open>span.rs\<close> with their extension traits
  (\<open>ext/checkpoint.rs\<close>, \<open>ext/span.rs\<close>). A checkpoint is the value behind its \<open>Arc\<close>:
  \<open>cp_addr\<close> is the address of the allocation, which \<open>Arc::ptr_eq\<close> compares. The address and
  the time of creation are inputs of the operations that create checkpoints. The relation
  \<open>live\<close> describes the sets of checkpoints that can exist at one moment: every creation takes
  an address that is not in use, and what is dropped keeps no descendant. The invariant
  \<open>coherent\<close> of these sets makes pointer equality the equality of checkpoints.

  Not modelled: \<open>Debug\<close> and \<open>Display\<close>, and \<open>build_payload\<close>, which hands the history to
  reth.
\<close>

subsection \<open>Data\<close>

datatype mutation = Barrier | Executable execution_result

datatype 'c checkpoint =
  Checkpoint (cp_addr: nat) (cp_block: block_context) (prev: "'c checkpoint option")
    (depth: nat) (mutation: mutation) (created_at: nat) (cp_context: 'c)

type_synonym 'c span = "'c checkpoint list"

datatype span_error = NonlinearHistory

subsection \<open>Reading a checkpoint\<close>

definition cp_eq :: "'c checkpoint \<Rightarrow> 'c checkpoint \<Rightarrow> bool" where
  "cp_eq a b \<longleftrightarrow> cp_addr a = cp_addr b"

definition cp_transactions :: "'c checkpoint \<Rightarrow> recovered_tx list" where
  "cp_transactions cp = (case mutation cp of Barrier \<Rightarrow> [] | Executable r \<Rightarrow> result_transactions r)"

definition cp_result :: "'c checkpoint \<Rightarrow> execution_result option" where
  "cp_result cp = (case mutation cp of Barrier \<Rightarrow> None | Executable r \<Rightarrow> Some r)"

definition cp_state :: "'c checkpoint \<Rightarrow> bundle_state option" where
  "cp_state cp = (case mutation cp of Barrier \<Rightarrow> None | Executable r \<Rightarrow> Some (er_state r))"

definition is_barrier :: "'c checkpoint \<Rightarrow> bool" where
  "is_barrier cp \<longleftrightarrow> mutation cp = Barrier"

definition has_context :: "'c \<Rightarrow> 'c checkpoint \<Rightarrow> bool" where
  "has_context c cp \<longleftrightarrow> cp_context cp = c"

definition as_transaction :: "'c checkpoint \<Rightarrow> recovered_tx option" where
  "as_transaction cp =
     (case mutation cp of
        Executable r \<Rightarrow> (case source r of Transaction tx \<Rightarrow> Some tx | Bundle b \<Rightarrow> None)
      | Barrier \<Rightarrow> None)"

definition as_bundle :: "'c checkpoint \<Rightarrow> flashbots_bundle option" where
  "as_bundle cp =
     (case mutation cp of
        Executable r \<Rightarrow> (case source r of Bundle b \<Rightarrow> Some b | Transaction tx \<Rightarrow> None)
      | Barrier \<Rightarrow> None)"

text \<open>\<open>IntoExecutable for &Checkpoint\<close>.\<close>

definition cp_try_into_executable :: "'c checkpoint \<Rightarrow> execution_error + executable" where
  "cp_try_into_executable cp =
     (case as_transaction cp of
        Some tx \<Rightarrow> Inr (Transaction tx)
      | None \<Rightarrow> (case as_bundle cp of Some b \<Rightarrow> Inr (Bundle b) | None \<Rightarrow> Inl InvalidSignature))"

text \<open>The checkpoints from this one back to the first.\<close>

fun cp_iter :: "'c checkpoint \<Rightarrow> 'c checkpoint list" where
  "cp_iter (Checkpoint a b None d m t c) = [Checkpoint a b None d m t c]"
| "cp_iter (Checkpoint a b (Some p) d m t c) = Checkpoint a b (Some p) d m t c # cp_iter p"

subsection \<open>A checkpoint as a database\<close>

definition cp_basic_ref :: "'c checkpoint \<Rightarrow> address \<Rightarrow> provider_error + account_info option" where
  "cp_basic_ref cp a =
     (case find_map (\<lambda>c. Option.bind (cp_result c) (\<lambda>r.
              Option.bind (bs_account (er_state r) a) ba_info)) (cp_iter cp) of
        Some account \<Rightarrow> Inr (Some account)
      | None \<Rightarrow> basic_account (base_state (cp_block cp)) a)"

definition cp_code_by_hash_ref :: "'c checkpoint \<Rightarrow> b256 \<Rightarrow> provider_error + bytes" where
  "cp_code_by_hash_ref cp h =
     (case find_map (\<lambda>c. Option.bind (cp_result c) (\<lambda>r. bs_bytecode (er_state r) h)) (cp_iter cp) of
        Some code \<Rightarrow> Inr code
      | None \<Rightarrow> map_ok (\<lambda>code. case code of Some bs \<Rightarrow> bs | None \<Rightarrow> [])
                  (bytecode_by_hash (base_state (cp_block cp)) h))"

definition cp_storage_ref :: "'c checkpoint \<Rightarrow> address \<Rightarrow> u256 \<Rightarrow> provider_error + u256" where
  "cp_storage_ref cp a i =
     (case find_map (\<lambda>c. Option.bind (cp_result c) (\<lambda>r.
              Option.bind (bs_account (er_state r) a) (\<lambda>account.
              map_option present_value (map_of (ba_storage account) i)))) (cp_iter cp) of
        Some v \<Rightarrow> Inr v
      | None \<Rightarrow> map_ok (\<lambda>v. case v of Some x \<Rightarrow> x | None \<Rightarrow> 0)
                  (sp_storage (base_state (cp_block cp)) a i))"

definition cp_block_hash_ref :: "'c checkpoint \<Rightarrow> u64 \<Rightarrow> provider_error + b256" where
  "cp_block_hash_ref cp n =
     map_ok (\<lambda>h. case h of Some x \<Rightarrow> x | None \<Rightarrow> 0) (sp_block_hash (base_state (cp_block cp)) n)"

definition checkpoint_db :: "'c checkpoint \<Rightarrow> database_ref" where
  "checkpoint_db cp =
     \<lparr>basic_ref = cp_basic_ref cp, code_by_hash_ref = cp_code_by_hash_ref cp,
      storage_ref = cp_storage_ref cp, block_hash_ref = cp_block_hash_ref cp\<rparr>"

subsection \<open>Building checkpoints\<close>

definition apply_with :: "nat \<Rightarrow> nat \<Rightarrow> 'c checkpoint \<Rightarrow> mutation \<Rightarrow> 'c \<Rightarrow> 'c checkpoint" where
  "apply_with addr now cp m c = Checkpoint addr (cp_block cp) (Some cp) (depth cp + 1) m now c"

definition new_with_context :: "nat \<Rightarrow> nat \<Rightarrow> block_context \<Rightarrow> 'c \<Rightarrow> 'c checkpoint" where
  "new_with_context addr now b c = Checkpoint addr b None 0 Barrier now c"

text \<open>\<open>new_at_block\<close> takes the default of the context's type, an argument here.\<close>

definition new_at_block :: "'c \<Rightarrow> nat \<Rightarrow> nat \<Rightarrow> block_context \<Rightarrow> 'c checkpoint" where
  "new_at_block default_context addr now b = Checkpoint addr b None 0 Barrier now default_context"

definition apply_with_context ::
    "nat \<Rightarrow> nat \<Rightarrow> 'c checkpoint \<Rightarrow> execution_error + executable \<Rightarrow> 'c \<Rightarrow>
     execution_error + 'c checkpoint" where
  "apply_with_context addr now cp into_executable c =
     and_then into_executable (\<lambda>ex.
     and_then (execute (cp_block cp) (checkpoint_db cp) ex) (\<lambda>r.
     Inr (apply_with addr now cp (Executable r) c)))"

definition cp_apply ::
    "nat \<Rightarrow> nat \<Rightarrow> 'c checkpoint \<Rightarrow> execution_error + executable \<Rightarrow>
     execution_error + 'c checkpoint" where
  "cp_apply addr now cp into_executable =
     and_then into_executable (\<lambda>ex.
     and_then (execute (cp_block cp) (checkpoint_db cp) ex) (\<lambda>r.
     Inr (apply_with addr now cp (Executable r) (cp_context cp))))"

definition barrier :: "nat \<Rightarrow> nat \<Rightarrow> 'c checkpoint \<Rightarrow> 'c checkpoint" where
  "barrier addr now cp = apply_with addr now cp Barrier (cp_context cp)"

definition barrier_with_context :: "nat \<Rightarrow> nat \<Rightarrow> 'c checkpoint \<Rightarrow> 'c \<Rightarrow> 'c checkpoint" where
  "barrier_with_context addr now cp c = apply_with addr now cp Barrier c"

subsection \<open>Spans\<close>

text \<open>The loop of \<open>Span::between\<close>, from the descendant back.\<close>

fun between_loop :: "'c checkpoint \<Rightarrow> 'c checkpoint \<Rightarrow> 'c checkpoint list \<Rightarrow> span_error + 'c span" where
  "between_loop ancestor (Checkpoint a b None d m t c) collected = Inl NonlinearHistory"
| "between_loop ancestor (Checkpoint a b (Some p) d m t c) collected =
     (if depth p < depth ancestor then Inl NonlinearHistory
      else let collected' = collected @ [p] in
        if cp_eq p ancestor then Inr (rev collected')
        else between_loop ancestor p collected')"

definition between :: "'c checkpoint \<Rightarrow> 'c checkpoint \<Rightarrow> span_error + 'c span" where
  "between start end' =
     (if cp_eq start end' then Inr [start]
      else let (ancestor, descendant) =
                 (if depth start < depth end' then (start, end') else (end', start))
           in between_loop ancestor descendant [descendant])"

definition span_first :: "'c span \<Rightarrow> 'c checkpoint option" where
  "span_first s = (case s of [] \<Rightarrow> None | c # _ \<Rightarrow> Some c)"

definition span_last :: "'c span \<Rightarrow> 'c checkpoint option" where
  "span_last s = (if s = [] then None else Some (last s))"

definition span_pop_first :: "'c span \<Rightarrow> 'c checkpoint option \<times> 'c span" where
  "span_pop_first s = (case s of [] \<Rightarrow> (None, []) | c # cs \<Rightarrow> (Some c, cs))"

definition span_pop_last :: "'c span \<Rightarrow> 'c checkpoint option \<times> 'c span" where
  "span_pop_last s = (if s = [] then (None, []) else (Some (last s), butlast s))"

definition span_at :: "'c span \<Rightarrow> nat \<Rightarrow> 'c checkpoint option" where
  "span_at s i = list_get s i"

definition split_at :: "'c span \<Rightarrow> nat \<Rightarrow> 'c span \<times> 'c span" where
  "split_at s mid = (take mid s, drop mid s)"

definition span_skip :: "nat \<Rightarrow> 'c span \<Rightarrow> 'c span" where
  "span_skip n s = snd (split_at s n)"

definition span_take :: "nat \<Rightarrow> 'c span \<Rightarrow> 'c span" where
  "span_take n s = fst (split_at s n)"

subsection \<open>CheckpointExt\<close>

definition cp_is_empty :: "'c checkpoint \<Rightarrow> bool" where
  "cp_is_empty cp \<longleftrightarrow> depth cp = 0"

fun root :: "'c checkpoint \<Rightarrow> 'c checkpoint" where
  "root (Checkpoint a b None d m t c) = Checkpoint a b None d m t c"
| "root (Checkpoint a b (Some p) d m t c) = root p"

definition gas_used :: "'c checkpoint \<Rightarrow> u64" where
  "gas_used cp = (case cp_result cp of None \<Rightarrow> 0 | Some r \<Rightarrow> result_gas_used r)"

definition effective_tip_per_gas :: "'c checkpoint \<Rightarrow> u128" where
  "effective_tip_per_gas cp =
     sum_list (List.map_filter (\<lambda>tx. tx_effective_tip_per_gas tx (base_fee (cp_block cp)))
       (cp_transactions cp))"

text \<open>\<open>Sum for Option\<close>: the sum if every element is there, \<open>None\<close> otherwise.\<close>

fun option_sum :: "'a::monoid_add option list \<Rightarrow> 'a option" where
  "option_sum [] = Some 0"
| "option_sum (None # xs) = None"
| "option_sum (Some a # xs) = map_option (\<lambda>s. a + s) (option_sum xs)"

definition blob_gas_used :: "'c checkpoint \<Rightarrow> u64 option" where
  "blob_gas_used cp = option_sum (map tx_blob_gas_used (cp_transactions cp))"

definition has_blobs :: "'c checkpoint \<Rightarrow> bool" where
  "has_blobs cp = list_ex (\<lambda>tx. tx_blob_gas_used tx \<noteq> None) (cp_transactions cp)"

definition blobs :: "'c checkpoint \<Rightarrow> recovered_tx list" where
  "blobs cp = filter (\<lambda>tx. tx_blob_gas_used tx \<noteq> None) (cp_transactions cp)"

text \<open>
  \<open>history\<close> is the span between the checkpoint and its root. The code expects it to exist; that
  it does is shown below, the value of the panicking branch is never used.
\<close>

definition history :: "'c checkpoint \<Rightarrow> 'c span" where
  "history cp = (case between cp (root cp) of Inr s \<Rightarrow> s | Inl e \<Rightarrow> [])"

definition cp_contains :: "'c checkpoint \<Rightarrow> b256 \<Rightarrow> bool" where
  "cp_contains cp h = list_ex (\<lambda>tx. tx_hash tx = h) (cp_transactions cp)"

definition history_staging :: "'c checkpoint \<Rightarrow> 'c span" where
  "history_staging cp =
     (let h = history cp;
          immutable_prefix = (case rposition is_barrier h of Some i \<Rightarrow> i | None \<Rightarrow> 0)
      in span_skip immutable_prefix h)"

definition history_sealed :: "'c checkpoint \<Rightarrow> 'c span" where
  "history_sealed cp =
     (let h = history cp;
          mutable_start = (case rposition is_barrier h of Some i \<Rightarrow> i + 1 | None \<Rightarrow> 0)
      in span_take mutable_start h)"

definition history_since_first_context :: "'c checkpoint \<Rightarrow> 'c \<Rightarrow> 'c span option" where
  "history_since_first_context cp c =
     (let h = history cp in map_option (\<lambda>start. span_skip start h) (position (has_context c) h))"

definition history_since_last_context :: "'c checkpoint \<Rightarrow> 'c \<Rightarrow> 'c span option" where
  "history_since_last_context cp c =
     (let h = history cp in map_option (\<lambda>start. span_skip start h) (rposition (has_context c) h))"

definition latest_barrier :: "'c checkpoint \<Rightarrow> 'c checkpoint option" where
  "latest_barrier cp = find is_barrier (rev (history cp))"

definition cp_to :: "'c checkpoint \<Rightarrow> 'c checkpoint \<Rightarrow> span_error + 'c span" where
  "cp_to cp other = between cp other"

definition balance_of :: "'c checkpoint \<Rightarrow> address \<Rightarrow> provider_error + u256" where
  "balance_of cp a =
     map_ok (\<lambda>b. case b of Some i \<Rightarrow> ai_balance i | None \<Rightarrow> 0) (cp_basic_ref cp a)"

definition nonce_of :: "'c checkpoint \<Rightarrow> address \<Rightarrow> provider_error + u64" where
  "nonce_of cp a =
     map_ok (\<lambda>b. case b of Some i \<Rightarrow> ai_nonce i | None \<Rightarrow> 0) (cp_basic_ref cp a)"

definition nonces :: "'c checkpoint \<Rightarrow> (address \<times> u64) list" where
  "nonces cp = map (\<lambda>tx. (tx_signer tx, tx_nonce tx)) (cp_transactions cp)"

definition signers :: "'c checkpoint \<Rightarrow> address list" where
  "signers cp = unique (map tx_signer (cp_transactions cp))"

definition cp_hash :: "(bytes \<Rightarrow> b256) \<Rightarrow> 'c checkpoint \<Rightarrow> b256 option" where
  "cp_hash keccak cp =
     (case as_transaction cp of
        Some tx \<Rightarrow> Some (tx_hash tx)
      | None \<Rightarrow> map_option (bundle_hash keccak) (as_bundle cp))"

definition failed_txs :: "'c checkpoint \<Rightarrow> (recovered_tx \<times> tx_exec_result) list" where
  "failed_txs cp =
     (case cp_result cp of
        None \<Rightarrow> []
      | Some r \<Rightarrow> filter (\<lambda>(tx, res). \<not> is_success res) (zip (result_transactions r) (results r)))"

definition has_failures :: "'c checkpoint \<Rightarrow> bool" where
  "has_failures cp \<longleftrightarrow> failed_txs cp \<noteq> []"

definition is_bundle :: "'c checkpoint \<Rightarrow> bool" where
  "is_bundle cp \<longleftrightarrow> as_bundle cp \<noteq> None"

definition building_since :: "'c checkpoint \<Rightarrow> nat" where
  "building_since cp = created_at (root cp)"

fun extract_changed_nonces :: "(address \<times> bundle_account) list \<Rightarrow> (address \<times> u64) list" where
  "extract_changed_nonces [] = []"
| "extract_changed_nonces ((a, data) # rest) =
     (let old_nonce = (case ba_original_info data of Some i \<Rightarrow> ai_nonce i | None \<Rightarrow> 0);
          new_nonce = (case ba_info data of Some i \<Rightarrow> ai_nonce i | None \<Rightarrow> 0)
      in if old_nonce = new_nonce then extract_changed_nonces rest
         else (a, new_nonce) # extract_changed_nonces rest)"

definition changed_nonces :: "'c checkpoint \<Rightarrow> (address \<times> u64) list" where
  "changed_nonces cp =
     (case cp_result cp of None \<Rightarrow> [] | Some r \<Rightarrow> extract_changed_nonces (bs_state (er_state r)))"

subsection \<open>SpanExt\<close>

definition span_gas_used :: "'c span \<Rightarrow> u64" where
  "span_gas_used s = sum_list (map gas_used s)"

definition span_blob_gas_used :: "'c span \<Rightarrow> u64" where
  "span_blob_gas_used s = sum_list (List.map_filter blob_gas_used s)"

definition span_contains :: "'c span \<Rightarrow> b256 \<Rightarrow> bool" where
  "span_contains s h = list_ex (\<lambda>cp. cp_contains cp h) s"

definition span_transactions :: "'c span \<Rightarrow> recovered_tx list" where
  "span_transactions s = concat (map cp_transactions s)"

definition span_blobs :: "'c span \<Rightarrow> recovered_tx list" where
  "span_blobs s = concat (map blobs s)"

definition cumulative_gas_used :: "'c checkpoint \<Rightarrow> u64" where
  "cumulative_gas_used cp = span_gas_used (history cp)"

definition cumulative_blob_gas_used :: "'c checkpoint \<Rightarrow> u64" where
  "cumulative_blob_gas_used cp = span_blob_gas_used (history cp)"

text \<open>The transactions of a payload, \<open>From<Checkpoint> for Vec<Transaction>\<close>.\<close>

definition payload_transactions :: "'c checkpoint \<Rightarrow> recovered_tx list" where
  "payload_transactions cp = span_transactions (history cp)"

subsection \<open>Live checkpoints\<close>

fun wf_checkpoint :: "'c checkpoint \<Rightarrow> bool" where
  "wf_checkpoint (Checkpoint a b None d m t c) \<longleftrightarrow> d = 0 \<and> m = Barrier"
| "wf_checkpoint (Checkpoint a b (Some p) d m t c) \<longleftrightarrow>
     d = depth p + 1 \<and> b = cp_block p \<and> wf_checkpoint p"

definition coherent :: "'c checkpoint set \<Rightarrow> bool" where
  "coherent S \<longleftrightarrow> inj_on cp_addr S \<and> (\<forall>cp \<in> S. wf_checkpoint cp \<and> set (cp_iter cp) \<subseteq> S)"

definition coherent_cp :: "'c checkpoint \<Rightarrow> bool" where
  "coherent_cp cp \<longleftrightarrow> wf_checkpoint cp \<and> inj_on cp_addr (set (cp_iter cp))"

inductive live :: "'c checkpoint set \<Rightarrow> bool" where
  live_none: "live {}"
| live_start: "live S \<Longrightarrow> addr \<notin> cp_addr ` S \<Longrightarrow> live (insert (new_with_context addr now b c) S)"
| live_apply: "live S \<Longrightarrow> cp \<in> S \<Longrightarrow> addr \<notin> cp_addr ` S \<Longrightarrow>
    live (insert (apply_with addr now cp m c) S)"
| live_drop: "live S \<Longrightarrow> S' \<subseteq> S \<Longrightarrow> (\<And>cp p. cp \<in> S' \<Longrightarrow> prev cp = Some p \<Longrightarrow> p \<in> S') \<Longrightarrow> live S'"

lemma cp_iter_eq: "cp_iter cp = cp # (case prev cp of None \<Rightarrow> [] | Some p \<Rightarrow> cp_iter p)"
  by (cases cp rule: cp_iter.cases) simp_all

lemma tl_cp_iter: "tl (cp_iter cp) = (case prev cp of None \<Rightarrow> [] | Some p \<Rightarrow> cp_iter p)"
  by (subst cp_iter_eq) simp

lemma cp_iter_self [simp]: "cp \<in> set (cp_iter cp)"
  by (subst cp_iter_eq) simp

lemma cp_iter_ne [simp]: "cp_iter cp \<noteq> []"
  by (subst cp_iter_eq) simp

lemma cp_iter_apply_with [simp]:
  "cp_iter (apply_with addr now cp m c) = apply_with addr now cp m c # cp_iter cp"
  by (simp add: apply_with_def)

lemma last_cp_iter [simp]: "last (cp_iter cp) = root cp"
  by (induction cp rule: cp_iter.induct) auto

lemma hd_cp_iter [simp]: "hd (cp_iter cp) = cp"
  by (subst cp_iter_eq) simp

lemma wf_length_iter: "wf_checkpoint cp \<Longrightarrow> length (cp_iter cp) = depth cp + 1"
  by (induction cp rule: cp_iter.induct) auto

lemma wf_iter: "wf_checkpoint cp \<Longrightarrow> p \<in> set (cp_iter cp) \<Longrightarrow>
    wf_checkpoint p \<and> depth p \<le> depth cp \<and> cp_block p = cp_block cp \<and> set (cp_iter p) \<subseteq> set (cp_iter cp)"
  by (induction cp rule: cp_iter.induct) auto

lemma wf_tl_depth:
  assumes "wf_checkpoint cp" "p \<in> set (tl (cp_iter cp))"
  shows "depth p < depth cp"
proof (cases cp rule: wf_checkpoint.cases)
  case (2 a b q d m t c)
  with assms wf_iter [of q p] show ?thesis by auto
qed (use assms in simp)

lemma wf_depth_nth:
  "wf_checkpoint cp \<Longrightarrow> i < length (cp_iter cp) \<Longrightarrow> depth (cp_iter cp ! i) = depth cp - i"
proof (induction cp arbitrary: i rule: cp_iter.induct)
  case (2 a b p d m t c)
  then show ?case by (cases i) auto
qed simp

lemma wf_root: "wf_checkpoint cp \<Longrightarrow> is_barrier (root cp) \<and> depth (root cp) = 0 \<and> prev (root cp) = None"
  by (induction cp rule: root.induct) (auto simp: is_barrier_def)

lemma root_in_iter: "root cp \<in> set (cp_iter cp)"
  by (metis cp_iter_ne last_cp_iter last_in_set)

lemma live_coherent: "live S \<Longrightarrow> coherent S"
proof (induction rule: live.induct)
  case (live_start S addr now b c)
  then show ?case by (auto simp: coherent_def new_with_context_def inj_on_insert)
next
  case (live_apply S cp addr now m c)
  then show ?case
    by (auto simp: coherent_def inj_on_insert) (auto simp: apply_with_def)
next
  case (live_drop S S')
  have "set (cp_iter cp) \<subseteq> S'" if "cp \<in> S'" for cp
    using that
  proof (induction cp rule: cp_iter.induct)
    case (2 a b p d m t c)
    with live_drop.hyps(3) [OF 2(2)] show ?case by simp
  qed simp
  with live_drop show ?case by (auto simp: coherent_def intro: inj_on_subset)
qed (simp add: coherent_def)

lemma coherent_imp_cp: "coherent S \<Longrightarrow> cp \<in> S \<Longrightarrow> coherent_cp cp"
  by (auto simp: coherent_def coherent_cp_def intro: inj_on_subset)

lemma coherent_cp_apply_with:
  "coherent_cp cp \<Longrightarrow> addr \<notin> cp_addr ` set (cp_iter cp) \<Longrightarrow> coherent_cp (apply_with addr now cp m c)"
  by (auto simp: coherent_cp_def inj_on_insert) (auto simp: apply_with_def)

lemma coherent_cp_new: "coherent_cp (new_with_context addr now b c)"
  by (simp add: coherent_cp_def new_with_context_def)

lemma coherent_cp_prev: "coherent_cp (Checkpoint a b (Some p) d m t c) \<Longrightarrow> coherent_cp p"
  by (auto simp: coherent_cp_def)

subsection \<open>Spans between checkpoints\<close>

text \<open>The reference: the part of the descendant's chain that starts at the ancestor.\<close>

definition chain_from :: "'c checkpoint \<Rightarrow> 'c checkpoint \<Rightarrow> 'c span" where
  "chain_from anc desc = drop (depth anc) (rev (cp_iter desc))"

lemma between_loop_chain:
  assumes "wf_checkpoint cur" "wf_checkpoint anc"
    "\<And>p. p \<in> set (cp_iter cur) \<Longrightarrow> cp_addr p = cp_addr anc \<Longrightarrow> p = anc"
  shows "between_loop anc cur collected =
    (if anc \<in> set (tl (cp_iter cur))
     then Inr (rev (collected @ take (depth cur - depth anc) (tl (cp_iter cur))))
     else Inl NonlinearHistory)"
  using assms
proof (induction anc cur collected rule: between_loop.induct)
  case (2 anc a b p d m t c collected)
  have wfp: "wf_checkpoint p" and d: "d = depth p + 1" using 2(2) by simp_all
  have iter: "cp_iter p = p # tl (cp_iter p)" by (subst (1 2) cp_iter_eq) simp
  have uniq: "q = anc" if "q \<in> set (cp_iter p)" "cp_addr q = cp_addr anc" for q
    using that 2(4) by simp
  show ?case
  proof (cases "depth p < depth anc")
    case True
    then have "anc \<notin> set (cp_iter p)" using wf_iter [OF wfp, of anc] by auto
    with True show ?thesis by simp
  next
    case le: False
    show ?thesis
    proof (cases "cp_addr p = cp_addr anc")
      case True
      with uniq have "p = anc" by simp
      then show ?thesis by (simp add: d cp_eq_def iter [symmetric]) (subst cp_iter_eq, simp)
    next
      case False
      then have ne: "p \<noteq> anc" by auto
      have "depth anc < depth p" if "anc \<in> set (tl (cp_iter p))"
        using wf_tl_depth [OF wfp that] .
      moreover have "anc \<in> set (cp_iter p) \<longleftrightarrow> anc \<in> set (tl (cp_iter p))"
        using ne by (subst iter) auto
      ultimately show ?thesis
        using False le 2(1) [OF _ refl] wfp 2(3) uniq
        by (simp add: cp_eq_def d Suc_diff_le take_Suc)
    qed
  qed
qed simp

lemma nth_rev_iter:
  "wf_checkpoint cp \<Longrightarrow> i \<le> depth cp \<Longrightarrow> depth (rev (cp_iter cp) ! i) = i"
  by (simp add: rev_nth wf_length_iter wf_depth_nth)

lemma chain_from_take:
  assumes "wf_checkpoint desc" "depth anc \<le> depth desc"
  shows "chain_from anc desc = rev (take (Suc (depth desc - depth anc)) (cp_iter desc))"
  using assms by (simp add: chain_from_def wf_length_iter rev_take Suc_diff_le flip: rev_drop)

lemma between_descendant:
  assumes "wf_checkpoint desc" "anc \<in> set (cp_iter desc)"
    "\<And>p. p \<in> set (cp_iter desc) \<Longrightarrow> cp_addr p = cp_addr anc \<Longrightarrow> p = anc"
  shows "between anc desc = Inr (chain_from anc desc)"
    and "between desc anc = Inr (chain_from anc desc)"
proof -
  have wfa: "wf_checkpoint anc" and le: "depth anc \<le> depth desc"
    using wf_iter [OF assms(1,2)] by auto
  have iter: "cp_iter desc = desc # tl (cp_iter desc)" by (subst (1 2) cp_iter_eq) simp
  show "between anc desc = Inr (chain_from anc desc)" "between desc anc = Inr (chain_from anc desc)"
  proof (atomize (full), cases "desc = anc")
    case True
    have "chain_from desc desc = [desc]"
      by (simp add: chain_from_take [OF assms(1)] take_Suc)
    with True show "between anc desc = Inr (chain_from anc desc) \<and>
        between desc anc = Inr (chain_from anc desc)"
      by (simp add: between_def cp_eq_def)
  next
    case False
    then have tl: "anc \<in> set (tl (cp_iter desc))" using assms(2) by (subst (asm) iter) auto
    then have lt: "depth anc < depth desc" by (rule wf_tl_depth [OF assms(1)])
    have "cp_addr desc \<noteq> cp_addr anc" using False assms(3) [of desc] by auto
    moreover have "between_loop anc desc [desc] = Inr (chain_from anc desc)"
      using between_loop_chain [OF assms(1) wfa assms(3), of "[desc]"] tl
      by (simp add: chain_from_take [OF assms(1) le] take_Suc)
    ultimately show "between anc desc = Inr (chain_from anc desc) \<and>
        between desc anc = Inr (chain_from anc desc)"
      using lt by (auto simp: between_def cp_eq_def)
  qed
qed

lemma between_unrelated:
  assumes "coherent S" "a \<in> S" "d \<in> S" "a \<notin> set (cp_iter d)" "d \<notin> set (cp_iter a)"
  shows "between a d = Inl NonlinearHistory"
proof -
  have uniq: "p = q" if "p \<in> S" "q \<in> S" "cp_addr p = cp_addr q" for p q
    using assms(1) that by (auto simp: coherent_def inj_on_def)
  have sub: "set (cp_iter p) \<subseteq> S" "wf_checkpoint p" if "p \<in> S" for p
    using assms(1) that by (auto simp: coherent_def)
  have "a \<noteq> d" using assms(4) by auto
  then have "cp_addr a \<noteq> cp_addr d" using uniq assms(2,3) by blast
  moreover have "between_loop p q c = Inl NonlinearHistory"
    if "p \<in> S" "q \<in> S" "p \<notin> set (cp_iter q)" for p q c
  proof -
    have "p \<notin> set (tl (cp_iter q))" using that(3) by (metis list.set_sel(2) cp_iter_ne)
    then show ?thesis
      using between_loop_chain [of q p c] sub [OF that(1)] sub [OF that(2)] uniq that by auto
  qed
  ultimately show ?thesis using assms by (auto simp: between_def cp_eq_def)
qed

lemma between_root:
  assumes "coherent_cp cp"
  shows "between cp (root cp) = Inr (rev (cp_iter cp))"
proof -
  have wf: "wf_checkpoint cp" and inj: "inj_on cp_addr (set (cp_iter cp))"
    using assms by (auto simp: coherent_cp_def)
  have "between cp (root cp) = Inr (chain_from (root cp) cp)"
    using inj root_in_iter [of cp] by (intro between_descendant(2) [OF wf root_in_iter])
      (auto dest: inj_onD)
  then show ?thesis using wf_root [OF wf] by (simp add: chain_from_def)
qed

lemma history_eq: "coherent_cp cp \<Longrightarrow> history cp = rev (cp_iter cp)"
  by (simp add: history_def between_root)

subsection \<open>Staging and sealed history\<close>

lemma history_ne [simp]: "coherent_cp cp \<Longrightarrow> history cp \<noteq> []"
  by (simp add: history_eq)

lemma last_history: "coherent_cp cp \<Longrightarrow> last (history cp) = cp"
  by (simp add: history_eq last_rev)

lemma hd_history: "coherent_cp cp \<Longrightarrow> hd (history cp) = root cp"
  by (simp add: history_eq hd_rev)

lemma root_barrier: "coherent_cp cp \<Longrightarrow> is_barrier (root cp)"
  by (simp add: wf_root coherent_cp_def)

lemma last_barrier_position:
  assumes "coherent_cp cp"
  obtains i where "rposition is_barrier (history cp) = Some i" "i < length (history cp)"
    "is_barrier (history cp ! i)" "\<And>j. i < j \<Longrightarrow> j < length (history cp) \<Longrightarrow> \<not> is_barrier (history cp ! j)"
proof -
  have "hd (history cp) \<in> set (history cp)" using assms by simp
  with hd_history [OF assms] root_barrier [OF assms]
  have "rposition is_barrier (history cp) \<noteq> None" by (auto simp: rposition_None)
  then show thesis using that rposition_SomeD by blast
qed

lemma staging_sealed:
  assumes "coherent_cp cp"
  obtains i where "i < length (history cp)" "history_staging cp = drop i (history cp)"
    "history_sealed cp = take (Suc i) (history cp)" "is_barrier (history cp ! i)"
    "\<And>j. i < j \<Longrightarrow> j < length (history cp) \<Longrightarrow> \<not> is_barrier (history cp ! j)"
proof -
  obtain i where i: "rposition is_barrier (history cp) = Some i" "i < length (history cp)"
    "is_barrier (history cp ! i)"
    "\<And>j. i < j \<Longrightarrow> j < length (history cp) \<Longrightarrow> \<not> is_barrier (history cp ! j)"
    by (rule last_barrier_position [OF assms]) blast
  show thesis
    by (rule that [of i])
      (simp_all add: i history_staging_def history_sealed_def span_skip_def span_take_def split_at_def)
qed

subsection \<open>Extending a checkpoint\<close>

lemma history_apply_with:
  assumes "coherent_cp cp" "addr \<notin> cp_addr ` set (cp_iter cp)"
  shows "history (apply_with addr now cp m c) = history cp @ [apply_with addr now cp m c]"
  using coherent_cp_apply_with [OF assms] assms(1) by (simp add: history_eq)

lemma cp_apply_Inr:
  "cp_apply addr now cp ie = Inr cp' \<longleftrightarrow>
   (\<exists>ex r. ie = Inr ex \<and> execute (cp_block cp) (checkpoint_db cp) ex = Inr r \<and>
      cp' = apply_with addr now cp (Executable r) (cp_context cp))"
  by (auto simp: cp_apply_def result_simps)

lemma apply_with_sel [simp]:
  "cp_addr (apply_with addr now cp m c) = addr" "prev (apply_with addr now cp m c) = Some cp"
  "depth (apply_with addr now cp m c) = Suc (depth cp)"
  "mutation (apply_with addr now cp m c) = m" "cp_context (apply_with addr now cp m c) = c"
  "cp_block (apply_with addr now cp m c) = cp_block cp"
  "created_at (apply_with addr now cp m c) = now" "root (apply_with addr now cp m c) = root cp"
  by (simp_all add: apply_with_def)

lemma new_with_context_sel [simp]:
  "cp_addr (new_with_context addr now b c) = addr" "prev (new_with_context addr now b c) = None"
  "depth (new_with_context addr now b c) = 0" "mutation (new_with_context addr now b c) = Barrier"
  "cp_block (new_with_context addr now b c) = b" "cp_context (new_with_context addr now b c) = c"
  "cp_iter (new_with_context addr now b c) = [new_with_context addr now b c]"
  by (simp_all add: new_with_context_def)

subsection \<open>The state at a checkpoint\<close>

text \<open>
  The reference: the accounts and storage of the parent block, changed by each checkpoint in
  turn. A destroyed account has no information and loses its storage.
\<close>

definition apply_accounts ::
    "bundle_state \<Rightarrow> (address \<rightharpoonup> account_info) \<Rightarrow> (address \<rightharpoonup> account_info)" where
  "apply_accounts s w a = (case bs_account s a of None \<Rightarrow> w a | Some acc \<Rightarrow> ba_info acc)"

definition apply_storage ::
    "bundle_state \<Rightarrow> (address \<Rightarrow> u256 \<Rightarrow> u256) \<Rightarrow> (address \<Rightarrow> u256 \<Rightarrow> u256)" where
  "apply_storage s w a i =
     (case bs_account s a of
        None \<Rightarrow> w a i
      | Some acc \<Rightarrow>
          (case map_of (ba_storage acc) i of
             Some slot \<Rightarrow> present_value slot
           | None \<Rightarrow> if ba_was_destroyed acc then 0 else w a i))"

definition accounts_at ::
    "(address \<rightharpoonup> account_info) \<Rightarrow> 'c checkpoint \<Rightarrow> (address \<rightharpoonup> account_info)" where
  "accounts_at w cp = foldr (\<lambda>c. case cp_state c of None \<Rightarrow> id | Some s \<Rightarrow> apply_accounts s) (cp_iter cp) w"

definition storage_at ::
    "(address \<Rightarrow> u256 \<Rightarrow> u256) \<Rightarrow> 'c checkpoint \<Rightarrow> (address \<Rightarrow> u256 \<Rightarrow> u256)" where
  "storage_at w cp = foldr (\<lambda>c. case cp_state c of None \<Rightarrow> id | Some s \<Rightarrow> apply_storage s) (cp_iter cp) w"

definition apply_code :: "bundle_state \<Rightarrow> (b256 \<Rightarrow> bytes) \<Rightarrow> (b256 \<Rightarrow> bytes)" where
  "apply_code s w h = (case bs_bytecode s h of None \<Rightarrow> w h | Some code \<Rightarrow> code)"

definition code_at :: "(b256 \<Rightarrow> bytes) \<Rightarrow> 'c checkpoint \<Rightarrow> (b256 \<Rightarrow> bytes)" where
  "code_at w cp = foldr (\<lambda>c. case cp_state c of None \<Rightarrow> id | Some s \<Rightarrow> apply_code s) (cp_iter cp) w"

text \<open>What a provider says of a slot or of a code hash it does not know.\<close>

definition slot_or_zero :: "u256 option \<Rightarrow> u256" where
  "slot_or_zero v = (case v of Some x \<Rightarrow> x | None \<Rightarrow> 0)"

definition code_or_empty :: "bytes option \<Rightarrow> bytes" where
  "code_or_empty v = (case v of Some code \<Rightarrow> code | None \<Rightarrow> [])"

lemma cp_state_result: "cp_state c = map_option er_state (cp_result c)"
  by (simp add: cp_state_def cp_result_def split: mutation.split)

lemma find_map_accounts:
  assumes "\<forall>c \<in> set cs. \<forall>s acc. cp_state c = Some s \<longrightarrow> bs_account s a = Some acc \<longrightarrow> ba_info acc \<noteq> None"
  shows "(case find_map (\<lambda>c. Option.bind (cp_result c) (\<lambda>r.
            Option.bind (bs_account (er_state r) a) ba_info)) cs of Some i \<Rightarrow> Some i | None \<Rightarrow> w a) =
    foldr (\<lambda>c. case cp_state c of None \<Rightarrow> id | Some s \<Rightarrow> apply_accounts s) cs w a"
  using assms
proof (induction cs)
  case (Cons c cs)
  show ?case
  proof (cases "cp_result c")
    case None
    with Cons show ?thesis by (simp add: cp_state_result)
  next
    case (Some r)
    show ?thesis
    proof (cases "bs_account (er_state r) a")
      case None
      with Some Cons show ?thesis by (simp add: cp_state_result apply_accounts_def)
    next
      case (Some acc)
      with \<open>cp_result c = Some r\<close> Cons.prems show ?thesis
        by (auto simp: cp_state_result apply_accounts_def)
    qed
  qed
qed simp

lemma find_map_code:
  "(case find_map (\<lambda>c. Option.bind (cp_result c) (\<lambda>r. bs_bytecode (er_state r) h)) cs of
      Some code \<Rightarrow> code | None \<Rightarrow> w h) =
   foldr (\<lambda>c. case cp_state c of None \<Rightarrow> id | Some s \<Rightarrow> apply_code s) cs w h"
  by (induction cs) (auto simp: cp_state_result apply_code_def split: option.splits)

lemma find_map_storage:
  assumes "\<forall>c \<in> set cs. \<forall>s acc. cp_state c = Some s \<longrightarrow> bs_account s a = Some acc \<longrightarrow> \<not> ba_was_destroyed acc"
  shows "(case find_map (\<lambda>c. Option.bind (cp_result c) (\<lambda>r.
            Option.bind (bs_account (er_state r) a) (\<lambda>account.
            map_option present_value (map_of (ba_storage account) i)))) cs of Some v \<Rightarrow> v | None \<Rightarrow> w a i) =
    foldr (\<lambda>c. case cp_state c of None \<Rightarrow> id | Some s \<Rightarrow> apply_storage s) cs w a i"
  using assms
proof (induction cs)
  case (Cons c cs)
  show ?case
  proof (cases "cp_result c")
    case None
    with Cons show ?thesis by (simp add: cp_state_result)
  next
    case (Some r)
    show ?thesis
    proof (cases "bs_account (er_state r) a")
      case None
      with Some Cons show ?thesis by (simp add: cp_state_result apply_storage_def)
    next
      case (Some acc)
      with \<open>cp_result c = Some r\<close> Cons show ?thesis
        by (cases "map_of (ba_storage acc) i") (auto simp: cp_state_result apply_storage_def)
    qed
  qed
qed simp

subsection \<open>Properties\<close>

text \<open>Sample checkpoints: a root, a transaction on it, and a transaction that fails.\<close>

definition sample_root :: "unit checkpoint" where
  "sample_root = new_with_context 1 10 sample_block ()"

definition sample_result :: "b256 \<Rightarrow> execution_result" where
  "sample_result h =
     \<lparr>source = Transaction (sample_tx h 7 0), results = [if bit h 0 then Success 21000 else Revert 21000],
      er_state = \<lparr>bs_state = [(7, sample_account 1)], bs_contracts = []\<rparr>\<rparr>"

definition sample_cp1 :: "unit checkpoint" where
  "sample_cp1 = apply_with 2 11 sample_root (Executable (sample_result 1)) ()"

definition sample_cp2 :: "unit checkpoint" where
  "sample_cp2 = apply_with 3 12 sample_cp1 (Executable (sample_result 2)) ()"

lemma sample_live: "live {sample_cp2, sample_cp1, sample_root}"
proof -
  have "live {sample_root}" unfolding sample_root_def by (rule live_start [OF live_none]) simp
  then have "live {sample_cp1, sample_root}" unfolding sample_cp1_def
    by (rule live_apply) (simp_all add: sample_root_def)
  then show ?thesis unfolding sample_cp2_def
    by (rule live_apply) (simp_all add: sample_cp1_def sample_root_def)
qed

lemma sample_coherent: "coherent_cp sample_cp2" "coherent_cp sample_cp1" "coherent_cp sample_root"
  using coherent_imp_cp [OF live_coherent [OF sample_live]] by simp_all

lemma sample_cp_iter:
  "cp_iter sample_cp2 = [sample_cp2, sample_cp1, sample_root]"
  "cp_iter sample_cp1 = [sample_cp1, sample_root]" "cp_iter sample_root = [sample_root]"
  by (simp_all add: sample_cp2_def sample_cp1_def sample_root_def)

lemma sample_cp_simps [simp]:
  "is_barrier sample_root" "\<not> is_barrier sample_cp1" "\<not> is_barrier sample_cp2"
  "depth sample_root = 0" "depth sample_cp1 = 1" "depth sample_cp2 = 2"
  "cp_block sample_root = sample_block" "cp_block sample_cp1 = sample_block"
  "cp_block sample_cp2 = sample_block"
  by (simp_all add: sample_cp2_def sample_cp1_def sample_root_def is_barrier_def)

lemma sample_history:
  "history sample_cp2 = [sample_root, sample_cp1, sample_cp2]"
  "history sample_cp1 = [sample_root, sample_cp1]" "history sample_root = [sample_root]"
  by (simp_all add: history_eq sample_coherent sample_cp_iter)

text \<open>
  Claim C11: the history of a live checkpoint always exists (the code's \<open>expect\<close> never fails).
  It runs from a barrier, the first checkpoint of the block, to the checkpoint itself, has one
  more element than the depth, and each element but the first is the direct successor of the
  one before it, at the depth of its position.
\<close>

theorem live_history_linear:
  assumes "live S" "cp \<in> S"
  shows "between cp (root cp) = Inr (history cp) \<and> length (history cp) = depth cp + 1 \<and>
    is_barrier (hd (history cp)) \<and> last (history cp) = cp \<and>
    (\<forall>i \<le> depth cp. depth (history cp ! i) = i) \<and>
    (\<forall>i < depth cp. prev (history cp ! Suc i) = Some (history cp ! i))"
proof -
  have co: "coherent_cp cp" using assms live_coherent coherent_imp_cp by blast
  then have wf: "wf_checkpoint cp" by (simp add: coherent_cp_def)
  have step: "wf_checkpoint c \<Longrightarrow> i < depth c \<Longrightarrow>
      prev (rev (cp_iter c) ! Suc i) = Some (rev (cp_iter c) ! i)" for c :: "'a checkpoint" and i
  proof (induction c rule: wf_checkpoint.induct)
    case (2 a b p d m t c)
    then show ?case
      using wf_length_iter [of p] last_cp_iter [of p]
      by (cases "i = depth p") (auto simp: nth_append rev_nth, metis hd_conv_nth cp_iter_ne hd_cp_iter)
  qed simp
  show ?thesis
    using co wf wf_length_iter [OF wf] nth_rev_iter [OF wf] step [OF wf] root_barrier [OF co]
    by (simp add: between_root history_eq hd_rev last_rev)
qed

theorem live_history_linear_witness:
  "history sample_cp2 = [sample_root, sample_cp1, sample_cp2] \<and>
   length (history sample_cp2) = depth sample_cp2 + 1"
  using live_history_linear [OF sample_live, of sample_cp2] by (simp add: sample_history)

text \<open>
  Claim C12: \<open>Span::between\<close> of two live checkpoints does not depend on their order. It
  succeeds exactly when one of them is an ancestor of the other (or they are the same) and is
  then the chain from the ancestor to the descendant; otherwise it reports nonlinear history.
\<close>

theorem between_iff_linear:
  assumes "live S" "a \<in> S" "d \<in> S"
  shows "between a d = between d a \<and>
    (between a d = Inr s) =
      (a \<in> set (cp_iter d) \<and> s = chain_from a d \<or> d \<in> set (cp_iter a) \<and> s = chain_from d a) \<and>
    (between a d = Inl NonlinearHistory) = (a \<notin> set (cp_iter d) \<and> d \<notin> set (cp_iter a))"
proof -
  have co: "coherent S" using assms(1) by (rule live_coherent)
  have wf: "wf_checkpoint x" and sub: "set (cp_iter x) \<subseteq> S" if "x \<in> S" for x
    using co that by (auto simp: coherent_def)
  have rel: "between x y = Inr (chain_from x y)" "between y x = Inr (chain_from x y)"
    if "x \<in> S" "y \<in> S" "x \<in> set (cp_iter y)" for x y
    using between_descendant [OF wf [OF that(2)] that(3)] co sub [OF that(2)] that
    by (auto simp: coherent_def inj_on_def subset_iff)
  show ?thesis
  proof (cases "a \<in> set (cp_iter d)")
    case True
    then have chain: "chain_from a d = chain_from d a" if "d \<in> set (cp_iter a)"
      using rel(1) [OF assms(2,3) True] rel(2) [OF assms(3,2) that] by simp
    with rel [OF assms(2,3) True] True show ?thesis by auto
  next
    case False
    then show ?thesis
      using rel [OF assms(3,2)] between_unrelated [OF co assms(2,3)]
        between_unrelated [OF co assms(3,2)]
      by (cases "d \<in> set (cp_iter a)") auto
  qed
qed

theorem between_iff_linear_witness:
  "between sample_cp1 sample_cp2 = Inr [sample_cp1, sample_cp2] \<and>
   between sample_cp2 sample_cp1 = Inr [sample_cp1, sample_cp2]"
  using between_iff_linear [OF sample_live, of sample_cp1 sample_cp2 "[sample_cp1, sample_cp2]"]
  by (auto simp: sample_cp_iter chain_from_def)

text \<open>
  The sealed and the staging history overlap in exactly one checkpoint, the last
  barrier: the history is the sealed part followed by the staging part without its first
  element, no later checkpoint of the staging part is a barrier, and the staging part is never
  empty (it is the barrier alone when the checkpoint is a barrier).
\<close>

theorem sealed_staging_partition:
  assumes "live S" "cp \<in> S"
  shows "history cp = history_sealed cp @ tl (history_staging cp) \<and>
    history_staging cp \<noteq> [] \<and> is_barrier (hd (history_staging cp)) \<and>
    last (history_sealed cp) = hd (history_staging cp) \<and>
    latest_barrier cp = Some (hd (history_staging cp)) \<and>
    (\<forall>c \<in> set (tl (history_staging cp)). \<not> is_barrier c) \<and>
    last (history_staging cp) = cp \<and> (is_barrier cp \<longrightarrow> history_staging cp = [cp])"
proof -
  have co: "coherent_cp cp" using assms live_coherent coherent_imp_cp by blast
  obtain i where i: "i < length (history cp)" "history_staging cp = drop i (history cp)"
    "history_sealed cp = take (Suc i) (history cp)" "is_barrier (history cp ! i)"
    "\<And>j. i < j \<Longrightarrow> j < length (history cp) \<Longrightarrow> \<not> is_barrier (history cp ! j)"
    by (rule staging_sealed [OF co]) blast
  have st: "history_staging cp = history cp ! i # drop (Suc i) (history cp)"
    using i by (simp add: Cons_nth_drop_Suc)
  have tl: "\<not> is_barrier c" if "c \<in> set (drop (Suc i) (history cp))" for c
    using that i(5) by (auto simp: in_set_conv_nth)
  have "find is_barrier (rev (drop (Suc i) (history cp))) = None"
    using tl by (simp add: find_None_iff)
  then have "find is_barrier (rev (take (Suc i) (history cp) @ drop (Suc i) (history cp))) =
      Some (history cp ! i)"
    using i by (simp add: take_Suc_conv_app_nth find_append_None del: append_take_drop_id)
  then have "latest_barrier cp = Some (history cp ! i)" by (simp add: latest_barrier_def)
  moreover have "last (history_staging cp) = cp"
    using i by (simp add: last_history [OF co])
  moreover have "history_staging cp = [cp]" if "is_barrier cp"
  proof -
    have "drop (Suc i) (history cp) = []"
      using tl [of cp] that last_history [OF co] last_in_set [of "drop (Suc i) (history cp)"]
      by (cases "drop (Suc i) (history cp) = []") (auto simp: last_drop)
    with st \<open>last (history_staging cp) = cp\<close> show ?thesis by simp
  qed
  moreover have "history_sealed cp = take i (history cp) @ [history cp ! i]"
    using i by (simp add: take_Suc_conv_app_nth)
  moreover have "history cp = take i (history cp) @ history cp ! i # drop (Suc i) (history cp)"
    using i(1) by (rule id_take_nth_drop)
  ultimately show ?thesis
    unfolding st using i(4) tl by simp
qed

theorem sealed_staging_partition_witness:
  "history_staging sample_cp2 = [sample_root, sample_cp1, sample_cp2] \<and>
   history_sealed sample_cp2 = [sample_root]"
proof -
  have "history_staging sample_cp2 = [sample_root, sample_cp1, sample_cp2]"
    by (simp add: history_staging_def sample_history span_skip_def split_at_def rposition_def)
  then show ?thesis
    using sealed_staging_partition [OF sample_live, of sample_cp2] by (simp add: sample_history)
qed

text \<open>
  Claim C13: reading a checkpoint as a database gives the cumulative state. When the provider can
  read the account, the slot and the code at the parent block, and no checkpoint of the history
  destroys the account, then the account's information, the value of the slot and the code are those
  of the parent block changed by every checkpoint in turn, however the changes overlap. A slot the
  provider does not know counts as zero there, and a code hash it does not know as empty code.
\<close>

theorem checkpoint_db_cumulative:
  assumes "basic_account (base_state (cp_block cp)) a = Inr (w a)"
    and "sp_storage (base_state (cp_block cp)) a i = Inr (v a i)"
    and "bytecode_by_hash (base_state (cp_block cp)) h = Inr (code h)"
    and "\<forall>c \<in> set (cp_iter cp). \<forall>s acc. cp_state c = Some s \<longrightarrow> bs_account s a = Some acc \<longrightarrow>
      ba_info acc \<noteq> None \<and> \<not> ba_was_destroyed acc"
  shows "basic_ref (checkpoint_db cp) a = Inr (accounts_at w cp a) \<and>
    storage_ref (checkpoint_db cp) a i = Inr (storage_at (\<lambda>a i. slot_or_zero (v a i)) cp a i) \<and>
    code_by_hash_ref (checkpoint_db cp) h = Inr (code_at (\<lambda>h. code_or_empty (code h)) cp h)"
proof -
  have "\<forall>c \<in> set (cp_iter cp). \<forall>s acc. cp_state c = Some s \<longrightarrow> bs_account s a = Some acc \<longrightarrow>
      ba_info acc \<noteq> None"
    "\<forall>c \<in> set (cp_iter cp). \<forall>s acc. cp_state c = Some s \<longrightarrow> bs_account s a = Some acc \<longrightarrow>
      \<not> ba_was_destroyed acc"
    using assms(4) by blast+
  from find_map_accounts [OF this(1), where w = w]
    find_map_storage [OF this(2), where i = i and w = "\<lambda>a i. slot_or_zero (v a i)"]
    find_map_code [where h = h and w = "\<lambda>h. code_or_empty (code h)" and cs = "cp_iter cp"]
  show ?thesis
    unfolding accounts_at_def storage_at_def code_at_def checkpoint_db_def cp_basic_ref_def cp_storage_ref_def
      cp_code_by_hash_ref_def
    by (auto simp: assms slot_or_zero_def code_or_empty_def split: option.splits)
qed

text \<open>
  The provider of the sample knows no account, no slot and no code; the two checkpoints write the
  account and slot \<open>1\<close> of it.
\<close>

theorem checkpoint_db_cumulative_witness:
  "basic_ref (checkpoint_db sample_cp2) 7 = Inr (accounts_at (\<lambda>a. None) sample_cp2 7) \<and>
   storage_ref (checkpoint_db sample_cp2) 7 1 = Inr 9 \<and> storage_ref (checkpoint_db sample_cp2) 7 2 = Inr 0 \<and>
   code_by_hash_ref (checkpoint_db sample_cp2) 5 = Inr []"
proof -
  have base: "base_state sample_block = sample_provider" by (simp add: base_state_def sample_block_def)
  have kept: "\<forall>c \<in> set (cp_iter sample_cp2). \<forall>s acc. cp_state c = Some s \<longrightarrow> bs_account s 7 = Some acc \<longrightarrow>
      ba_info acc \<noteq> None \<and> \<not> ba_was_destroyed acc"
    by (auto simp: sample_cp_iter cp_state_def sample_cp2_def sample_cp1_def sample_root_def sample_result_def
        bs_account_def sample_account_def)
  note db = checkpoint_db_cumulative [of sample_cp2 7 "\<lambda>a. None" _ "\<lambda>a i. None" 5 "\<lambda>h. None", OF _ _ _ kept]
  have "storage_at (\<lambda>a i. slot_or_zero None) sample_cp2 7 1 = 9" "storage_at (\<lambda>a i. slot_or_zero None) sample_cp2 7 2 = 0"
    "code_at (\<lambda>h. code_or_empty None) sample_cp2 5 = []"
    by (simp_all add: storage_at_def code_at_def sample_cp_iter cp_state_def sample_cp2_def sample_cp1_def
        sample_root_def sample_result_def bs_account_def sample_account_def apply_storage_def apply_code_def
        bs_bytecode_def slot_or_zero_def code_or_empty_def)
  with db [of 1] db [of 2] show ?thesis by (simp add: base sample_provider_def)
qed

text \<open>
  A destroyed account is resurrected. If the latest checkpoint destroys an account
  (the entry has no information) that an earlier checkpoint had written, the database still
  returns the information and the storage written before, although in the cumulative state the
  account is gone and its storage is zero.
\<close>

theorem destroyed_account_resurrected:
  assumes "mutation cp = Executable r" "prev cp = Some p"
    and "bs_account (er_state r) a = Some dead" "ba_info dead = None"
    and "ba_storage dead = []" "ba_was_destroyed dead"
    and "mutation p = Executable r'" "bs_account (er_state r') a = Some acc"
    and "ba_info acc = Some i" "map_of (ba_storage acc) k = Some slot"
  shows "basic_ref (checkpoint_db cp) a = Inr (Some i) \<and>
    storage_ref (checkpoint_db cp) a k = Inr (present_value slot) \<and>
    accounts_at w cp a = None \<and> storage_at v cp a k = 0"
proof -
  have iter: "cp_iter cp = cp # p # tl (cp_iter p)"
    using assms(2) cp_iter_eq [of cp] cp_iter_eq [of p] tl_cp_iter [of p] by simp
  show ?thesis
    unfolding checkpoint_db_def cp_basic_ref_def cp_storage_ref_def accounts_at_def storage_at_def iter
    by (simp add: cp_result_def cp_state_def assms apply_accounts_def apply_storage_def)
qed

theorem destroyed_account_resurrected_witness:
  "\<exists>cp :: unit checkpoint. wf_checkpoint cp \<and> nonce_of cp 7 = Inr 1 \<and> accounts_at (\<lambda>a. None) cp 7 = None"
proof -
  let ?dead = "(sample_account 0)\<lparr>ba_info := None, ba_storage := [], ba_was_destroyed := True\<rparr>"
  let ?r = "(sample_result 3)\<lparr>er_state := \<lparr>bs_state = [(7, ?dead)], bs_contracts = []\<rparr>\<rparr>"
  let ?cp = "apply_with 3 12 sample_cp1 (Executable ?r) ()"
  have "basic_ref (checkpoint_db ?cp) 7 = Inr (ba_info (sample_account 1)) \<and>
      accounts_at (\<lambda>a. None) ?cp 7 = None"
    using destroyed_account_resurrected [of ?cp ?r sample_cp1 7 ?dead "sample_result 1"
      "sample_account 1" "the (ba_info (sample_account 1))" 1
      "\<lparr>previous_or_original_value = 0, present_value = 9\<rparr>" "\<lambda>a. None" "\<lambda>a i. 0"]
    by (simp add: sample_cp1_def bs_account_def sample_result_def sample_account_def)
  moreover have "wf_checkpoint ?cp" by (simp add: apply_with_def sample_cp1_def sample_root_def
      new_with_context_def)
  ultimately show ?thesis
    by (intro exI [of _ ?cp]) (simp add: nonce_of_def checkpoint_db_def sample_account_def)
qed

text \<open>
  Claim C14: a successful \<open>apply\<close> adds exactly one checkpoint. On a live checkpoint and with a
  fresh allocation the result is live, its history is the old history and itself, so the
  payload's transactions grow by the executed ones and the cumulative gas by their gas; a
  barrier changes neither.
\<close>

theorem apply_extends_payload:
  assumes "live S" "cp \<in> S" "addr \<notin> cp_addr ` S" "cp_apply addr now cp ex = Inr cp'"
  shows "live (insert cp' S) \<and> prev cp' = Some cp \<and> history cp' = history cp @ [cp'] \<and>
    payload_transactions cp' = payload_transactions cp @ cp_transactions cp' \<and>
    cumulative_gas_used cp' = cumulative_gas_used cp + gas_used cp' \<and>
    payload_transactions (barrier addr now cp) = payload_transactions cp \<and>
    cumulative_gas_used (barrier addr now cp) = cumulative_gas_used cp"
proof -
  have co: "coherent_cp cp" using assms(1,2) live_coherent coherent_imp_cp by blast
  have fresh: "addr \<notin> cp_addr ` set (cp_iter cp)"
    using assms(2,3) live_coherent [OF assms(1)] by (auto simp: coherent_def)
  from assms(4) obtain r where cp': "cp' = apply_with addr now cp (Executable r) (cp_context cp)"
    by (auto simp: cp_apply_Inr)
  have "live (insert cp' S)" unfolding cp' by (rule live_apply [OF assms(1-3)])
  with history_apply_with [OF co fresh] show ?thesis
    by (simp add: cp' payload_transactions_def span_transactions_def cumulative_gas_used_def
        span_gas_used_def barrier_def cp_transactions_def gas_used_def cp_result_def)
qed

theorem apply_extends_payload_witness:
  "\<exists>cp'. cp_apply 5 20 sample_root (Inr (Transaction (sample_tx 1 7 0))) = Inr cp' \<and>
     payload_transactions cp' = [sample_tx 1 7 0] \<and> cumulative_gas_used cp' = 21000"
proof -
  let ?r = "\<lparr>source = Transaction (sample_tx 1 7 0), results = [Success 21000],
             er_state = take_bundle sample_evm (checkpoint_db sample_root) [undefined]\<rparr>"
  let ?cp = "apply_with 5 20 sample_root (Executable ?r) ()"
  have app: "cp_apply 5 20 sample_root (Inr (Transaction (sample_tx 1 7 0))) = Inr ?cp"
    by (simp add: cp_apply_def execute_transaction_def sample_block_defs)
  moreover have "(5::nat) \<notin> cp_addr ` {sample_cp2, sample_cp1, sample_root}"
    by (simp add: sample_cp2_def sample_cp1_def sample_root_def)
  ultimately show ?thesis
    using apply_extends_payload [OF sample_live _ _ app]
    by (simp add: payload_transactions_def span_transactions_def sample_history cp_transactions_def
        cumulative_gas_used_def span_gas_used_def gas_used_def cp_result_def result_transactions_def
        result_gas_used_def) (simp add: sample_root_def)
qed

text \<open>
  Blob gas is lost. A checkpoint that applies a blob transaction together with a
  transaction without blobs reports no blob gas at all, so the cumulative blob gas of the
  payload does not grow although the payload then holds one more blob transaction; a barrier
  reports \<open>Some(0)\<close>.
\<close>

theorem blob_gas_of_mixed_bundle_lost:
  assumes "coherent_cp cp" "addr \<notin> cp_addr ` set (cp_iter cp)"
    and "result_transactions r = [t, t']"
    and "tx_blob_gas_used t = Some g" "tx_blob_gas_used t' = None"
    and "cp' = apply_with addr now cp (Executable r) c"
  shows "blob_gas_used cp' = None \<and> has_blobs cp' \<and>
    cumulative_blob_gas_used cp' = cumulative_blob_gas_used cp \<and>
    span_blobs (history cp') = span_blobs (history cp) @ [t] \<and>
    blob_gas_used (barrier addr now cp) = Some 0"
proof -
  have "blob_gas_used cp' = None"
    by (simp add: assms(3-6) blob_gas_used_def cp_transactions_def)
  moreover have "history cp' = history cp @ [cp']"
    unfolding assms(6) by (rule history_apply_with [OF assms(1,2)])
  moreover have "cp_transactions cp' = [t, t']"
    by (simp add: assms(3,6) cp_transactions_def)
  ultimately show ?thesis
    using assms(4,5)
    by (simp add: has_blobs_def cumulative_blob_gas_used_def span_blob_gas_used_def span_blobs_def
        blobs_def List.map_filter_def barrier_def)
      (simp add: blob_gas_used_def cp_transactions_def)
qed

theorem blob_gas_of_mixed_bundle_lost_witness:
  "\<exists>cp' :: unit checkpoint. has_blobs cp' \<and> cumulative_blob_gas_used cp' = 0"
proof -
  define t where "t = (sample_tx 1 7 0)\<lparr>tx_blob_gas_used := Some 131072\<rparr>"
  define r where "r = (sample_result 1)\<lparr>source := Bundle (bundle_of_txs [t, sample_tx 2 7 1])\<rparr>"
  define cp' where "cp' = apply_with 5 20 sample_root (Executable r) ()"
  have "result_transactions r = [t, sample_tx 2 7 1]"
    by (simp add: r_def result_transactions_def bundle_of_txs_def bundle_transactions_def
        with_transaction_def bundle_default_def t_def)
  moreover have "(5::nat) \<notin> cp_addr ` set (cp_iter sample_root)"
    by (simp add: sample_root_def)
  ultimately have "has_blobs cp' \<and> cumulative_blob_gas_used cp' = cumulative_blob_gas_used sample_root"
    using blob_gas_of_mixed_bundle_lost [OF sample_coherent(3) _ _ _ _ cp'_def, of t "sample_tx 2 7 1" 131072]
    by (simp add: t_def)
  moreover have "cumulative_blob_gas_used sample_root = 0"
    by (simp add: cumulative_blob_gas_used_def sample_history span_blob_gas_used_def blob_gas_used_def
        List.map_filter_def cp_transactions_def) (simp add: sample_root_def)
  ultimately show ?thesis by auto
qed

end
