(* ===== verification/Machines.thy ===== *)
theory Machines
  imports Prelude
begin

section \<open>Machines that panic\<close>

text \<open>
  Several components are state machines that are driven from outside: the scopes by the executor,
  a payload job by reth, the job generator by notifications. An action gives the next state, or
  \<open>None\<close> for a panic. The locale \<open>panic_free\<close> is the contract of such a component: in a good state
  an allowed action does not panic and leads to a good state. Its client gets that for sequences.
\<close>

fun run_acts :: "('a \<Rightarrow> 's \<Rightarrow> 's option) \<Rightarrow> 'a list \<Rightarrow> 's \<Rightarrow> 's option" where
  "run_acts act [] s = Some s"
| "run_acts act (a # as) s = Option.bind (act a s) (run_acts act as)"

locale panic_free =
  fixes act :: "'a \<Rightarrow> 's \<Rightarrow> 's option"
    and allowed :: "'a \<Rightarrow> bool"
    and good :: "'s \<Rightarrow> bool"
  assumes act_good: "good s \<Longrightarrow> allowed a \<Longrightarrow> \<exists>s'. act a s = Some s' \<and> good s'"
begin

lemma run_good:
  "good s \<Longrightarrow> list_all allowed as \<Longrightarrow> \<exists>s'. run_acts act as s = Some s' \<and> good s'"
proof (induction as arbitrary: s)
  case (Cons a as)
  from act_good [of s a] Cons.prems obtain s' where "act a s = Some s'" "good s'" by auto
  with Cons.IH [of s'] Cons.prems show ?case by simp
qed simp

lemma run_keeps_good:
  "good s \<Longrightarrow> list_all allowed as \<Longrightarrow> run_acts act as s = Some s' \<Longrightarrow> good s'"
  using run_good by fastforce

end

end
