(* ===== verification/Scope.thy ===== *)
theory Scope
  imports Navi Limits Checkpoints "HOL-Library.AList" Machines
begin

section \<open>Execution scopes\<close>

text \<open>
  \<open>crates/pipeline/src/pipelines/exec/scope.rs\<close>: the tree of scopes that mirrors the nesting of
  pipelines and carries their limits, and the switch from the scope of one step to that of the
  next. \<open>None\<close> as the result of an operation is a panic (a failed assertion or \<open>expect\<close>). The
  hash map of nested scopes is an association list. The clock is read once per operation.

  Not modelled: the metrics a scope records.
\<close>

subsection \<open>Data\<close>

type_synonym 'c limits_factory = "'c checkpoint \<Rightarrow> limits \<Rightarrow> limits"

datatype 'c scope =
  Scope (sc_limits: limits) (sc_factory: "'c limits_factory option") (sc_entered_at: "nat option")
    (sc_enter_counter: u32) (sc_nested: "(nat \<times> 'c scope) list")

record 'c root_scope =
  rs_root :: "'c scope"
  rs_current :: step_path

subsection \<open>Operations\<close>

definition scope_is_active :: "'c scope \<Rightarrow> bool" where
  "scope_is_active s \<longleftrightarrow> sc_entered_at s \<noteq> None"

definition scope_elapsed :: "nat \<Rightarrow> 'c scope \<Rightarrow> duration option" where
  "scope_elapsed now s = map_option (\<lambda>start. now - start) (sc_entered_at s)"

definition create_limits :: "'c limits_factory option \<Rightarrow> 'c checkpoint \<Rightarrow> limits \<Rightarrow> limits" where
  "create_limits factory cp enclosing =
     clamp (case factory of None \<Rightarrow> enclosing | Some f \<Rightarrow> f cp enclosing) enclosing"

text \<open>\<open>Scope::inner\<close>, recursively for every nested pipeline.\<close>

primrec scope_inner :: "('s, 'c limits_factory) pipeline \<Rightarrow> 'c checkpoint \<Rightarrow> limits \<Rightarrow> 'c scope"
  and scope_item :: "('s, 'c limits_factory) step_or_pipeline \<Rightarrow> 'c checkpoint \<Rightarrow> limits \<Rightarrow> 'c scope option"
where
  "scope_inner (Pipeline pro epi items factory name) cp enclosing =
     (let lim = create_limits factory cp enclosing in
      Scope lim factory None 0
        (List.map_filter (\<lambda>(ix, f). map_option (\<lambda>s. (ix + STEP0_INDEX, s)) (f cp lim))
           (enumerate 0 (map scope_item items))))"
| "scope_item (Step s) cp lim = None"
| "scope_item (Nested b p) cp lim = Some (scope_inner p cp lim)"

text \<open>\<open>Scope::rooted_at\<close>; the platform's limits are those of the checkpoint's block.\<close>

definition rooted_at ::
    "(block_context \<Rightarrow> limits) \<Rightarrow> ('s, 'c limits_factory) pipeline \<Rightarrow> 'c checkpoint \<Rightarrow> 'c scope" where
  "rooted_at platform_limits p cp =
     (let platform = platform_limits (cp_block cp);
          lim = create_limits (pl_limits p) cp platform
      in Scope lim (pl_limits p) None 0
           (List.map_filter (\<lambda>(ix, f). map_option (\<lambda>s. (ix + STEP0_INDEX, s)) (f cp lim))
              (enumerate 0 (map scope_item (steps p)))))"

definition scope_enter :: "nat \<Rightarrow> 'c checkpoint \<Rightarrow> limits \<Rightarrow> 'c scope \<Rightarrow> 'c scope option" where
  "scope_enter now cp enclosing s =
     (if scope_is_active s then None
      else Some (Scope (create_limits (sc_factory s) cp enclosing) (sc_factory s) (Some now)
                  (if sc_enter_counter s = - 1 then - 1 else sc_enter_counter s + 1) (sc_nested s)))"

text \<open>\<open>leave\<close> asserts that the scope is active and leaves the active scopes below it.\<close>

fun scope_deactivate :: "'c scope \<Rightarrow> 'c scope" where
  "scope_deactivate (Scope l f e c ns) =
     Scope l f None c
       (map (\<lambda>(i, s). (i, if sc_entered_at s \<noteq> None then scope_deactivate s else s)) ns)"

definition scope_leave :: "'c scope \<Rightarrow> 'c scope option" where
  "scope_leave s = (if scope_is_active s then Some (scope_deactivate s) else None)"

fun scope_get :: "'c scope \<Rightarrow> step_path \<Rightarrow> 'c scope option" where
  "scope_get s [] = Some s"
| "scope_get s (i # path) =
     (case map_of (sc_nested s) i of None \<Rightarrow> None | Some t \<Rightarrow> scope_get t path)"

text \<open>\<open>get_mut(path).expect(..)\<close> followed by an operation on the scope found.\<close>

fun scope_modify :: "step_path \<Rightarrow> ('c scope \<Rightarrow> 'c scope option) \<Rightarrow> 'c scope \<Rightarrow> 'c scope option" where
  "scope_modify [] f s = f s"
| "scope_modify (i # path) f (Scope l fac e c ns) =
     (case map_of ns i of
        None \<Rightarrow> None
      | Some t \<Rightarrow>
          map_option (\<lambda>t'. Scope l fac e c (AList.update i t' ns)) (scope_modify path f t))"

definition scope_of :: "step_path \<Rightarrow> step_path option" where
  "scope_of step =
     (case remove_leaf step of None \<Rightarrow> None | Some None \<Rightarrow> Some [] | Some (Some p) \<Rightarrow> Some p)"

definition root_scope_new ::
    "(block_context \<Rightarrow> limits) \<Rightarrow> ('s, 'c limits_factory) pipeline \<Rightarrow> 'c checkpoint \<Rightarrow> 'c root_scope" where
  "root_scope_new platform_limits p cp = \<lparr>rs_root = rooted_at platform_limits p cp, rs_current = []\<rparr>"

definition limits_of :: "'c root_scope \<Rightarrow> step_path \<Rightarrow> limits option" where
  "limits_of rs step = Option.bind (scope_of step) (\<lambda>p. map_option sc_limits (scope_get (rs_root rs) p))"

definition scope_entered_at :: "'c root_scope \<Rightarrow> step_path \<Rightarrow> nat option" where
  "scope_entered_at rs step =
     Option.bind (scope_of step) (\<lambda>p. Option.bind (scope_get (rs_root rs) p) sc_entered_at)"

fun leave_scopes :: "step_path list \<Rightarrow> 'c scope \<Rightarrow> 'c scope option" where
  "leave_scopes [] rt = Some rt"
| "leave_scopes (s # ss) rt =
     (case scope_modify s scope_leave rt of None \<Rightarrow> None | Some rt' \<Rightarrow> leave_scopes ss rt')"

fun enter_scopes ::
    "nat \<Rightarrow> 'c checkpoint \<Rightarrow> step_path list \<Rightarrow> limits \<Rightarrow> 'c scope \<Rightarrow> 'c scope option" where
  "enter_scopes now cp [] enclosing rt = Some rt"
| "enter_scopes now cp (s # ss) enclosing rt =
     (case scope_modify s (scope_enter now cp enclosing) rt of
        None \<Rightarrow> None
      | Some rt' \<Rightarrow>
          (case scope_get rt' s of
             None \<Rightarrow> None
           | Some scope \<Rightarrow> enter_scopes now cp ss (sc_limits scope) rt'))"

definition switch_context ::
    "nat \<Rightarrow> step_path \<Rightarrow> 'c checkpoint \<Rightarrow> 'c root_scope \<Rightarrow> 'c root_scope option" where
  "switch_context now next_step cp rs =
     (case scope_of next_step of
        None \<Rightarrow> None
      | Some next \<Rightarrow>
          let prv = rs_current rs; rs' = rs\<lparr>rs_current := next\<rparr> in
          if prv = next then Some rs'
          else let common = common_ancestor prv next in
            (case leave_scopes (sp_between prv common) (rs_root rs') of
               None \<Rightarrow> None
             | Some rt1 \<Rightarrow>
                 (case scope_get rt1 common of
                    None \<Rightarrow> None
                  | Some c \<Rightarrow>
                      map_option (\<lambda>rt2. rs'\<lparr>rs_root := rt2\<rparr>)
                        (enter_scopes now cp (sp_between common next) (sc_limits c) rt1))))"

definition root_enter :: "nat \<Rightarrow> 'c checkpoint \<Rightarrow> 'c root_scope \<Rightarrow> 'c root_scope option" where
  "root_enter now cp rs =
     map_option (\<lambda>rt. rs\<lparr>rs_root := rt\<rparr>)
       (scope_enter now cp (sc_limits (rs_root rs)) (rs_root rs))"

definition root_leave :: "'c root_scope \<Rightarrow> 'c root_scope option" where
  "root_leave rs = map_option (\<lambda>rt. rs\<lparr>rs_root := rt\<rparr>) (scope_leave (rs_root rs))"

definition root_is_active :: "'c root_scope \<Rightarrow> bool" where
  "root_is_active rs \<longleftrightarrow> scope_is_active (rs_root rs)"

subsection \<open>What the operations change\<close>

text \<open>The limits and the entry time of the scope at a path.\<close>

definition own :: "'c scope \<Rightarrow> step_path \<Rightarrow> (limits \<times> nat option) option" where
  "own s p = map_option (\<lambda>t. (sc_limits t, sc_entered_at t)) (scope_get s p)"

lemma own_Nil [simp]: "own s [] = Some (sc_limits s, sc_entered_at s)"
  by (simp add: own_def)

lemma own_Cons: "own s (i # p) = Option.bind (map_of (sc_nested s) i) (\<lambda>t. own t p)"
  by (simp add: own_def split: option.split)

lemma own_get: "scope_get s p = Some t \<Longrightarrow> own s p = Some (sc_limits t, sc_entered_at t)"
  by (simp add: own_def)

lemma own_Some: "own s p = Some le \<longleftrightarrow> (\<exists>t. scope_get s p = Some t \<and> le = (sc_limits t, sc_entered_at t))"
  by (auto simp: own_def)

lemma own_get_append: "scope_get s p = Some t \<Longrightarrow> own s (p @ q) = own t q"
  by (induction s p rule: scope_get.induct) (auto simp: own_Cons split: option.splits)

text \<open>An operation on one scope changes that scope alone if what is below it looks the same.\<close>

lemma modify_own:
  assumes "scope_get s p = Some t" "f t = Some t'"
    and "\<And>q. q \<noteq> [] \<Longrightarrow> own t' q = own t q"
  shows "\<exists>s'. scope_modify p f s = Some s' \<and>
    own s' = (own s)(p \<mapsto> (sc_limits t', sc_entered_at t')) \<and> scope_get s' p = Some t'"
  using assms
proof (induction p f s rule: scope_modify.induct)
  case (1 f s)
  have "own t' = (own s)([] \<mapsto> (sc_limits t', sc_entered_at t'))"
  proof
    fix q show "own t' q = ((own s)([] \<mapsto> (sc_limits t', sc_entered_at t'))) q"
      using 1 by (cases q) auto
  qed
  then show ?case
    by (intro exI [of _ t'] conjI) (use 1 in simp_all)
next
  case (2 i p f l fac e c ns)
  from 2(2) obtain u where u: "map_of ns i = Some u" "scope_get u p = Some t"
    by (auto split: option.splits)
  from 2(1) [OF u(1) u(2) 2(3,4)] obtain u' where
    u': "scope_modify p f u = Some u'" "own u' = (own u)(p \<mapsto> (sc_limits t', sc_entered_at t'))"
    "scope_get u' p = Some t'" by blast
  let ?s = "Scope l fac e c ns" and ?s' = "Scope l fac e c (AList.update i u' ns)"
  have "own ?s' = (own ?s)(i # p \<mapsto> (sc_limits t', sc_entered_at t'))"
  proof
    fix q
    show "own ?s' q = ((own ?s)(i # p \<mapsto> (sc_limits t', sc_entered_at t'))) q"
      using u u' by (cases q) (auto simp: own_Cons update_conv')
  qed
  with u u' show ?case by (auto simp: update_conv')
qed

lemma enter_own:
  assumes "own s p = Some (l, None)"
  shows "\<exists>s' l'. scope_modify p (scope_enter now cp enclosing) s = Some s' \<and>
    own s' = (own s)(p \<mapsto> (l', Some now)) \<and> gas_limit l' \<le> gas_limit enclosing \<and>
    (\<exists>t. scope_get s' p = Some t \<and> sc_limits t = l')"
proof -
  from assms obtain t where t: "scope_get s p = Some t" "sc_entered_at t = None"
    by (auto simp: own_Some)
  let ?t' = "Scope (create_limits (sc_factory t) cp enclosing) (sc_factory t) (Some now)
    (if sc_enter_counter t = - 1 then - 1 else sc_enter_counter t + 1) (sc_nested t)"
  have "own ?t' q = own t q" if "q \<noteq> []" for q using that by (cases q) (auto simp: own_Cons)
  from modify_own [OF t(1) _ this, of "scope_enter now cp enclosing"] t(2)
  obtain s' where s': "scope_modify p (scope_enter now cp enclosing) s = Some s'"
    "own s' = (own s)(p \<mapsto> (create_limits (sc_factory t) cp enclosing, Some now))"
    "scope_get s' p = Some ?t'"
    by (auto simp: scope_enter_def scope_is_active_def)
  show ?thesis
    by (intro exI [of _ s'] exI [of _ "create_limits (sc_factory t) cp enclosing"] conjI
        exI [of _ ?t']) (simp_all add: s' create_limits_def clamp_gas_le)
qed

lemma own_deactivate_inactive:
  assumes "\<And>i u. map_of ns i = Some u \<Longrightarrow> sc_entered_at u = None" "q \<noteq> []"
  shows "own (scope_deactivate (Scope l f e c ns)) q = own (Scope l f e c ns) q"
proof (cases q)
  case (Cons i p)
  have "map_of (map (\<lambda>(i, s). (i, if sc_entered_at s \<noteq> None then scope_deactivate s else s)) ns) i =
      map_option (\<lambda>s. if sc_entered_at s \<noteq> None then scope_deactivate s else s) (map_of ns i)"
    by (simp add: map_of_map)
  with Cons assms(1) show ?thesis
    by (cases "map_of ns i") (auto simp: own_Cons)
qed (use assms in simp)

lemma leave_own:
  assumes "own s p = Some (l, Some e)" and "\<And>i l e. own s (p @ [i]) = Some (l, e) \<Longrightarrow> e = None"
  shows "\<exists>s'. scope_modify p scope_leave s = Some s' \<and> own s' = (own s)(p \<mapsto> (l, None))"
proof -
  from assms(1) obtain t where t: "scope_get s p = Some t" "sc_entered_at t = Some e" "sc_limits t = l"
    by (auto simp: own_Some)
  have inact: "sc_entered_at u = None" if "map_of (sc_nested t) i = Some u" for i u
    using assms(2) [of i] own_get_append [OF t(1), of "[i]"] that by (auto simp: own_Cons)
  have "own (scope_deactivate t) q = own t q" if "q \<noteq> []" for q
  proof (cases t)
    case (Scope l' f e' c ns)
    have "own (scope_deactivate (Scope l' f e' c ns)) q = own (Scope l' f e' c ns) q"
      by (rule own_deactivate_inactive [OF _ that]) (use inact Scope in simp)
    with Scope show ?thesis by simp
  qed
  from modify_own [OF t(1) _ this, of scope_leave] t show ?thesis
    by (cases t) (auto simp: scope_leave_def scope_is_active_def)
qed

subsection \<open>Switching scopes\<close>

text \<open>
  The active scopes are the one at the current path and those around it, and along the current
  path no scope has more gas than the one around it.
\<close>

definition scope_inv :: "'c scope \<Rightarrow> step_path \<Rightarrow> bool" where
  "scope_inv s cur \<longleftrightarrow>
     own s cur \<noteq> None \<and>
     (\<forall>p l e. own s p = Some (l, e) \<longrightarrow> (e \<noteq> None \<longleftrightarrow> take (length p) cur = p)) \<and>
     (\<forall>p i l e l' e'. take (length (p @ [i])) cur = p @ [i] \<longrightarrow> own s p = Some (l, e) \<longrightarrow>
        own s (p @ [i]) = Some (l', e') \<longrightarrow> gas_limit l' \<le> gas_limit l)"

text \<open>
  The same scopes exist, the limits of the root are unchanged, and no scope, active or not, has
  more gas than some scope had before.
\<close>

definition gas_below :: "u64 \<Rightarrow> 'c scope \<Rightarrow> bool" where
  "gas_below g s \<longleftrightarrow> (\<forall>p l e. own s p = Some (l, e) \<longrightarrow> gas_limit l \<le> g)"

definition same_paths :: "'c scope \<Rightarrow> 'c scope \<Rightarrow> bool" where
  "same_paths s s' \<longleftrightarrow> (\<forall>p. own s' p = None \<longleftrightarrow> own s p = None) \<and> sc_limits s' = sc_limits s \<and>
     (\<forall>g. gas_below g s \<longrightarrow> gas_below g s')"

lemma gas_below_upd:
  assumes "own s' = (own s)(p \<mapsto> (l, e))" "own s q = Some (l0, e0)" "gas_limit l \<le> gas_limit l0" "gas_below g s"
  shows "gas_below g s'"
proof -
  have "gas_limit l \<le> g" using assms(2-4) unfolding gas_below_def by (meson order_trans)
  with assms(1,4) show ?thesis by (auto simp: gas_below_def)
qed

lemma same_paths_upd:
  assumes "own s (c @ [i]) \<noteq> None" "own s' = (own s)(c @ [i] \<mapsto> x)"
    and "\<And>g. gas_below g s \<Longrightarrow> gas_below g s'"
  shows "same_paths s s'"
proof -
  have "own s' [] = own s []" using assms(2) by simp
  then have "sc_limits s' = sc_limits s" by (simp del: fun_upd_apply)
  with assms show ?thesis by (auto simp: same_paths_def)
qed

lemma same_paths_trans: "same_paths a b \<Longrightarrow> same_paths b c \<Longrightarrow> same_paths a c"
  by (simp add: same_paths_def)

lemma own_prefix: "own s (p @ q) \<noteq> None \<Longrightarrow> own s p \<noteq> None"
proof (induction p arbitrary: s)
  case (Cons i p)
  then show ?case by (auto simp: own_Cons Option.bind_eq_None_conv split: option.splits)
qed simp

lemma take_snoc_cases:
  "take (length p) (c @ [i]) = p \<longleftrightarrow> p = c @ [i] \<or> take (length p) c = p"
proof (cases "length p \<le> length c")
  case False
  then have "take (length p) (c @ [i]) = c @ [i]" "take (length p) c = c" by simp_all
  with False show ?thesis by auto
qed auto

lemma leave_inv:
  assumes "scope_inv s (c @ [i])"
  shows "\<exists>s'. scope_modify (c @ [i]) scope_leave s = Some s' \<and> scope_inv s' c \<and> same_paths s s'"
proof -
  note inv = assms [unfolded scope_inv_def]
  from inv obtain l e where oc: "own s (c @ [i]) = Some (l, e)" by auto
  with inv obtain t where e: "e = Some t" by fastforce
  have "e = None" if "own s ((c @ [i]) @ [j]) = Some (l, e)" for j l e
  proof -
    have "take (length ((c @ [i]) @ [j])) (c @ [i]) \<noteq> (c @ [i]) @ [j]" by simp
    with inv that show ?thesis by blast
  qed
  then have "\<exists>s'. scope_modify (c @ [i]) scope_leave s = Some s' \<and> own s' = (own s)(c @ [i] \<mapsto> (l, None))"
    by (intro leave_own [OF oc [unfolded e]])
  then obtain s' where
    s': "scope_modify (c @ [i]) scope_leave s = Some s'" "own s' = (own s)(c @ [i] \<mapsto> (l, None))"
    by blast
  have "own s c \<noteq> None" using own_prefix [of s c "[i]"] oc by simp
  moreover have "e' \<noteq> None \<longleftrightarrow> take (length p) c = p" if "own s' p = Some (l', e')" for p l' e'
  proof (cases "p = c @ [i]")
    case False
    with that s'(2) have "own s p = Some (l', e')" by simp
    with inv have "e' \<noteq> None \<longleftrightarrow> take (length p) (c @ [i]) = p" by blast
    with False show ?thesis using take_snoc_cases [of p c i] by blast
  qed (use that s'(2) in simp)
  moreover have "gas_limit l2 \<le> gas_limit l1"
    if "take (length (p @ [j])) c = p @ [j]" "own s' p = Some (l1, e1)" "own s' (p @ [j]) = Some (l2, e2)"
    for p j l1 e1 l2 e2
  proof -
    from that(1) have le: "length (p @ [j]) \<le> length c" by (metis length_take min.cobounded1)
    then have "p \<noteq> c @ [i]" "p @ [j] \<noteq> c @ [i]" by auto
    with that(2,3) s'(2) have "own s p = Some (l1, e1)" "own s (p @ [j]) = Some (l2, e2)"
      by (auto split: if_splits)
    moreover have "take (length (p @ [j])) (c @ [i]) = p @ [j]" using that(1) le by simp
    ultimately show ?thesis using inv by blast
  qed
  ultimately have "scope_inv s' c" unfolding scope_inv_def using s'(2) by auto
  moreover have "same_paths s s'"
    by (rule same_paths_upd [OF _ s'(2)]) (use oc gas_below_upd [OF s'(2) oc order_refl] in auto)
  ultimately show ?thesis using s' by blast
qed

lemma enter_inv:
  assumes "scope_inv s c" "own s (c @ [i]) \<noteq> None" "own s c = Some (enclosing, e0)"
  shows "\<exists>s' t. scope_modify (c @ [i]) (scope_enter now cp enclosing) s = Some s' \<and>
    scope_inv s' (c @ [i]) \<and> same_paths s s' \<and> scope_get s' (c @ [i]) = Some t \<and>
    own s' (c @ [i]) = Some (sc_limits t, Some now)"
proof -
  note inv = assms(1) [unfolded scope_inv_def]
  from assms(2) obtain l e where oc: "own s (c @ [i]) = Some (l, e)" by auto
  have "take (length (c @ [i])) c \<noteq> c @ [i]" by simp
  with inv oc have "e = None" by blast
  from enter_own [OF oc [unfolded this], of now cp enclosing] obtain s' l' t where
    s': "scope_modify (c @ [i]) (scope_enter now cp enclosing) s = Some s'"
    "own s' = (own s)(c @ [i] \<mapsto> (l', Some now))" "gas_limit l' \<le> gas_limit enclosing"
    "scope_get s' (c @ [i]) = Some t" "sc_limits t = l'"
    by blast
  have "e' \<noteq> None \<longleftrightarrow> take (length p) (c @ [i]) = p" if "own s' p = Some (l1, e')" for p l1 e'
  proof (cases "p = c @ [i]")
    case False
    with that s'(2) have "own s p = Some (l1, e')" by simp
    with inv have "e' \<noteq> None \<longleftrightarrow> take (length p) c = p" by blast
    with False show ?thesis using take_snoc_cases [of p c i] by blast
  qed (use that s'(2) in auto)
  moreover have "gas_limit l2 \<le> gas_limit l1"
    if "take (length (p @ [j])) (c @ [i]) = p @ [j]" "own s' p = Some (l1, e1)"
      "own s' (p @ [j]) = Some (l2, e2)" for p j l1 e1 l2 e2
  proof (cases "p @ [j] = c @ [i]")
    case True
    with that s' assms(3) show ?thesis by simp
  next
    case False
    with that(1) have t: "take (length (p @ [j])) c = p @ [j]"
      using take_snoc_cases [of "p @ [j]" c i] by blast
    have "length (p @ [j]) \<le> length c" using t by (metis length_take min.cobounded1)
    then have "p \<noteq> c @ [i]" by auto
    with that(2,3) s'(2) False have "own s p = Some (l1, e1)" "own s (p @ [j]) = Some (l2, e2)"
      by (auto split: if_splits)
    with inv t show ?thesis by blast
  qed
  ultimately have "scope_inv s' (c @ [i])" unfolding scope_inv_def using s'(2) by auto
  moreover have "same_paths s s'"
    by (rule same_paths_upd [OF assms(2) s'(2)]) (rule gas_below_upd [OF s'(2) assms(3) s'(3)])
  ultimately show ?thesis using s' by auto
qed

lemma leave_scopes_inv:
  assumes "scope_inv s p" "a \<le> length p"
  shows "\<exists>s'. leave_scopes (rev (map (\<lambda>k. take k p) [Suc a..<Suc (length p)])) s = Some s' \<and>
    scope_inv s' (take a p) \<and> same_paths s s'"
  using assms
proof (induction "length p - a" arbitrary: s p)
  case 0
  then show ?case by (simp add: same_paths_def)
next
  case (Suc n)
  then have ne: "p \<noteq> []" and lt: "a < length p" by auto
  let ?c = "butlast p" and ?i = "last p"
  have p: "p = ?c @ [?i]" using ne by simp
  from leave_inv [of s ?c ?i] Suc.prems p obtain s1 where
    s1: "scope_modify p scope_leave s = Some s1" "scope_inv s1 ?c" "same_paths s s1" by auto
  have paths: "rev (map (\<lambda>k. take k p) [Suc a..<Suc (length p)]) =
      p # rev (map (\<lambda>k. take k ?c) [Suc a..<Suc (length ?c)])"
  proof -
    have "length p = Suc (length ?c)" using ne by simp
    moreover have "take k p = take k ?c" if "k \<le> length ?c" for k
      using that by (metis p butlast_append butlast_snoc take_butlast take_append diff_is_0_eq' take0 append_Nil2)
    ultimately show ?thesis using lt by auto
  qed
  have "n = length ?c - a" "a \<le> length ?c" using Suc(2) lt by auto
  from Suc(1) [OF this(1) s1(2) this(2)] obtain s2 where
    "leave_scopes (rev (map (\<lambda>k. take k ?c) [Suc a..<Suc (length ?c)])) s1 = Some s2"
    "scope_inv s2 (take a ?c)" "same_paths s1 s2" by blast
  moreover have "take a ?c = take a p" by (subst (2) p) (use lt in simp)
  ultimately show ?case using s1 same_paths_trans unfolding paths by auto
qed

lemma enter_scopes_inv:
  assumes "scope_inv s (take a p)" "a \<le> length p" "own s p \<noteq> None"
    and "own s (take a p) = Some (enclosing, e)"
  shows "\<exists>s'. enter_scopes now cp (map (\<lambda>k. take k p) [Suc a..<Suc (length p)]) enclosing s = Some s' \<and>
    scope_inv s' p \<and> same_paths s s'"
  using assms
proof (induction "length p - a" arbitrary: s a enclosing e)
  case 0
  then show ?case by (simp add: same_paths_def)
next
  case (Suc n)
  then have lt: "a < length p" by simp
  have snoc: "take (Suc a) p = take a p @ [p ! a]" using lt by (simp add: take_Suc_conv_app_nth)
  have "own s (take (Suc a) p) \<noteq> None"
    using own_prefix [of s "take (Suc a) p" "drop (Suc a) p"] Suc.prems by simp
  from enter_inv [OF Suc(3) this [unfolded snoc] Suc(6), of now cp] obtain s1 t where
    s1: "scope_modify (take (Suc a) p) (scope_enter now cp enclosing) s = Some s1"
    "scope_inv s1 (take (Suc a) p)" "same_paths s s1" "scope_get s1 (take (Suc a) p) = Some t"
    "own s1 (take (Suc a) p) = Some (sc_limits t, Some now)"
    unfolding snoc by blast
  have "own s1 p \<noteq> None" using s1(3) Suc(5) by (simp add: same_paths_def)
  moreover have "n = length p - Suc a" "Suc a \<le> length p" using Suc(2) lt by auto
  ultimately obtain s2 where
    s2: "enter_scopes now cp (map (\<lambda>k. take k p) [Suc (Suc a)..<Suc (length p)]) (sc_limits t) s1 = Some s2"
    "scope_inv s2 p" "same_paths s1 s2"
    using Suc(1) [OF _ s1(2) _ _ s1(5)] by blast
  have "[Suc a..<Suc (length p)] = Suc a # [Suc (Suc a)..<Suc (length p)]"
    using lt by (simp add: upt_conv_Cons del: upt_Suc)
  then show ?case using s1 s2 same_paths_trans by (auto simp del: upt_Suc)
qed

lemma switch_context_inv:
  assumes "scope_inv (rs_root rs) (rs_current rs)" "scope_of step = Some nxt"
    and "own (rs_root rs) nxt \<noteq> None"
  shows "\<exists>rs'. switch_context now step cp rs = Some rs' \<and> rs_current rs' = nxt \<and>
    scope_inv (rs_root rs') nxt \<and> same_paths (rs_root rs) (rs_root rs')"
proof (cases "rs_current rs = nxt")
  case True
  with assms show ?thesis by (simp add: switch_context_def same_paths_def)
next
  case False
  let ?c = "common_ancestor (rs_current rs) nxt"
  have pre: "take (length ?c) (rs_current rs) = ?c" "take (length ?c) nxt = ?c"
    by (rule common_ancestor_prefix)+
  then have le: "length ?c \<le> length (rs_current rs)" "length ?c \<le> length nxt"
    by (metis length_take min.cobounded1)+
  from leave_scopes_inv [OF assms(1) le(1)] obtain s1 where
    s1: "leave_scopes (sp_between (rs_current rs) ?c) (rs_root rs) = Some s1"
    "scope_inv s1 ?c" "same_paths (rs_root rs) s1"
    by (auto simp: sp_between_up [OF pre(1)] pre(1) simp del: upt_Suc)
  have "own s1 nxt \<noteq> None" using s1(3) assms(3) by (simp add: same_paths_def)
  moreover obtain t where t: "scope_get s1 ?c = Some t" "own s1 ?c = Some (sc_limits t, sc_entered_at t)"
    using s1(2) by (auto simp: scope_inv_def own_Some)
  ultimately obtain s2 where
    s2: "enter_scopes now cp (sp_between ?c nxt) (sc_limits t) s1 = Some s2"
    "scope_inv s2 nxt" "same_paths s1 s2"
    using enter_scopes_inv [of s1 "length ?c" nxt "sc_limits t" "sc_entered_at t" now cp] s1(2) le(2)
    by (auto simp: sp_between_down [OF pre(2)] pre(2) simp del: upt_Suc)
  have "switch_context now step cp rs = Some (rs\<lparr>rs_current := nxt, rs_root := s2\<rparr>)"
    using False s1(1) t(1) s2(1) assms(2) by (simp add: switch_context_def Let_def)
  with s1 s2 show ?thesis using same_paths_trans by auto
qed

subsection \<open>The scopes of a pipeline\<close>

lemma map_of_nested:
  "map_of (List.map_filter (\<lambda>(ix, f). map_option (\<lambda>s. (ix + STEP0_INDEX, s)) (f cp lim)) (enumerate n fs))
     (Suc (n + i)) = (if i < length fs then (fs ! i) cp lim else None)"
proof (induction fs arbitrary: n i)
  case (Cons f fs)
  have keys: "map_of (List.map_filter (\<lambda>(ix, f). map_option (\<lambda>s. (ix + STEP0_INDEX, s)) (f cp lim))
      (enumerate (Suc n) fs)) (Suc n) = None"
    by (auto simp: map_of_eq_None_iff List.map_filter_def index_defs in_set_enumerate_eq image_iff)
  show ?case
  proof (cases i)
    case 0
    with keys show ?thesis
      by (auto simp: List.map_filter_def index_defs)
  next
    case (Suc j)
    with Cons.IH [of "Suc n" j] show ?thesis
      by (auto simp: List.map_filter_def index_defs)
  qed
qed (simp add: List.map_filter_def)

lemma rooted_at_inner: "rooted_at pl p cp = scope_inner p cp (pl (cp_block cp))"
  by (cases p) (simp add: rooted_at_def Let_def)

lemma inner_nested:
  assumes "i < length (steps p)"
  shows "map_of (sc_nested (scope_inner p cp l)) (Suc i) =
    scope_item (steps p ! i) cp (create_limits (pl_limits p) cp l)"
  using assms map_of_nested [of cp "create_limits (pl_limits p) cp l" 0 "map scope_item (steps p)" i]
  by (cases p) (simp add: Let_def)

lemma inner_exists:
  "valid_path p path \<Longrightarrow> own (scope_inner p cp l) (butlast path) \<noteq> None"
proof (induction path arbitrary: p l)
  case (Cons k rest)
  show ?case
  proof (cases "rest = []")
    case False
    with Cons.prems obtain b q where k: "1 \<le> k" "k \<le> length (steps p)" "steps p ! (k - 1) = Nested b q"
      "valid_path q rest"
      by (auto split: if_splits step_or_pipeline.splits)
    have "map_of (sc_nested (scope_inner p cp l)) (Suc (k - 1)) =
        Some (scope_inner q cp (create_limits (pl_limits p) cp l))"
      using inner_nested [of "k - 1" p cp l] k by simp
    with False k Cons.IH [OF k(4)] show ?thesis by (simp add: own_Cons)
  qed simp
qed simp

lemma inner_child:
  fixes p :: "('s, 'c limits_factory) pipeline"
  assumes "map_of (sc_nested (scope_inner p cp l)) k = Some t"
  obtains q :: "('s, 'c limits_factory) pipeline" and l' where
    "t = scope_inner q cp l'" "gas_limit l' \<le> gas_limit l"
proof -
  obtain pro epi items fac name where p: "p = Pipeline pro epi items fac name" by (cases p)
  from assms have "(k, t) \<in> set (sc_nested (scope_inner p cp l))" by (rule map_of_SomeD)
  then obtain a where "scope_item (items ! a) cp (create_limits fac cp l) = Some t"
    by (auto simp: p Let_def List.map_filter_def in_set_enumerate_eq)
  moreover have "gas_limit (create_limits fac cp l) \<le> gas_limit l"
    by (simp add: create_limits_def clamp_gas_le)
  ultimately show ?thesis using that by (cases "items ! a") auto
qed

lemma inner_inactive: "own (scope_inner p cp l) path = Some (lim, e) \<Longrightarrow> e = None"
proof (induction path arbitrary: p l)
  case Nil
  then show ?case by (cases p) (simp add: Let_def)
next
  case (Cons k rest)
  then obtain t where t: "map_of (sc_nested (scope_inner p cp l)) k = Some t" "own t rest = Some (lim, e)"
    by (auto simp: own_Cons Option.bind_eq_Some_conv)
  from t(1) show ?case by (rule inner_child) (use Cons.IH t(2) in simp)
qed

lemma inner_gas: "own (scope_inner p cp l) path = Some (lim, e) \<Longrightarrow> gas_limit lim \<le> gas_limit l"
proof (induction path arbitrary: p l)
  case Nil
  then show ?case by (cases p) (auto simp: Let_def create_limits_def clamp_gas_le)
next
  case (Cons k rest)
  then obtain t where t: "map_of (sc_nested (scope_inner p cp l)) k = Some t" "own t rest = Some (lim, e)"
    by (auto simp: own_Cons Option.bind_eq_Some_conv)
  from t(1) show ?case by (rule inner_child) (use Cons.IH t(2) order_trans in blast)
qed

text \<open>
  The states the executor can bring the scopes into: the root is entered, then the context is
  switched to steps of the pipeline.
\<close>

inductive scope_reach ::
    "(block_context \<Rightarrow> limits) \<Rightarrow> ('s, 'c limits_factory) pipeline \<Rightarrow> block_context \<Rightarrow> 'c root_scope \<Rightarrow> bool"
  for pl p block where
  reach_enter: "cp_block cp = block \<Longrightarrow> root_enter now cp' (root_scope_new pl p cp) = Some rs \<Longrightarrow>
    scope_reach pl p block rs"
| reach_switch: "scope_reach pl p block rs \<Longrightarrow> valid_path p step \<Longrightarrow>
    switch_context now step cp rs = Some rs' \<Longrightarrow> scope_reach pl p block rs'"

definition scopes_ok ::
    "(block_context \<Rightarrow> limits) \<Rightarrow> ('s, 'c limits_factory) pipeline \<Rightarrow> block_context \<Rightarrow> 'c root_scope \<Rightarrow> bool" where
  "scopes_ok pl p block rs \<longleftrightarrow>
     scope_inv (rs_root rs) (rs_current rs) \<and>
     (\<forall>path. valid_path p path \<longrightarrow> own (rs_root rs) (butlast path) \<noteq> None) \<and>
     gas_limit (sc_limits (rs_root rs)) \<le> gas_limit (pl block) \<and>
     gas_below (gas_limit (pl block)) (rs_root rs)"

lemma scope_of_valid: "valid_path p path \<Longrightarrow> scope_of path = Some (butlast path)"
  by (cases path) (auto simp: scope_of_def remove_leaf_def is_toplevel_def sp_depth_def)

lemma root_enter_ok:
  assumes "cp_block cp = block"
  shows "\<exists>rs. root_enter now cp' (root_scope_new pl p cp) = Some rs \<and> scopes_ok pl p block rs \<and>
    rs_current rs = []"
proof -
  let ?s = "scope_inner p cp (pl block)"
  have "own ?s [] = Some (sc_limits ?s, None)"
    using inner_inactive [of p cp "pl block" "[]"] by simp
  from enter_own [OF this, of now cp' "sc_limits ?s"] obtain s' l' where
    s': "scope_enter now cp' (sc_limits ?s) ?s = Some s'" "own s' = (own ?s)([] \<mapsto> (l', Some now))"
    "gas_limit l' \<le> gas_limit (sc_limits ?s)" "sc_limits s' = l'"
    by auto
  have "gas_limit (sc_limits ?s) \<le> gas_limit (pl block)"
    by (cases p) (simp add: Let_def create_limits_def clamp_gas_le)
  moreover have "scope_inv s' []"
    using inner_inactive [of p cp "pl block"] s'(2) by (auto simp: scope_inv_def)
  moreover have "own s' (butlast path) \<noteq> None" if "valid_path p path" for path
    using inner_exists [OF that, of cp "pl block"] s'(2) by auto
  moreover have "gas_below (gas_limit (pl block)) ?s" using inner_gas by (auto simp: gas_below_def)
  then have "gas_below (gas_limit (pl block)) s'"
    using gas_below_upd [OF s'(2) _ s'(3)] own_Nil by metis
  ultimately show ?thesis
    using s' assms
    by (auto simp: root_enter_def root_scope_new_def rooted_at_inner scopes_ok_def)
qed

lemma switch_context_ok:
  assumes "scopes_ok pl p block rs" "valid_path p step"
  shows "\<exists>rs'. switch_context now step cp rs = Some rs' \<and> scopes_ok pl p block rs' \<and>
    rs_current rs' = butlast step"
proof -
  have inv: "scope_inv (rs_root rs) (rs_current rs)" and
    ex: "\<And>path. valid_path p path \<Longrightarrow> own (rs_root rs) (butlast path) \<noteq> None" and
    gas: "gas_limit (sc_limits (rs_root rs)) \<le> gas_limit (pl block)"
    using assms(1) by (auto simp: scopes_ok_def)
  from switch_context_inv [OF inv scope_of_valid [OF assms(2)] ex [OF assms(2)], of now cp]
  obtain rs' where rs': "switch_context now step cp rs = Some rs'" "rs_current rs' = butlast step"
    "scope_inv (rs_root rs') (butlast step)" "same_paths (rs_root rs) (rs_root rs')" by blast
  have "own (rs_root rs') (butlast path) \<noteq> None" if "valid_path p path" for path
    using ex [OF that] rs'(4) by (simp add: same_paths_def)
  moreover have "sc_limits (rs_root rs') = sc_limits (rs_root rs)"
    using rs'(4) by (simp add: same_paths_def)
  moreover have "gas_below (gas_limit (pl block)) (rs_root rs')"
    using rs'(4) assms(1) by (simp add: same_paths_def scopes_ok_def)
  ultimately have "scopes_ok pl p block rs'" using rs'(2,3) gas by (simp add: scopes_ok_def)
  with rs' show ?thesis by blast
qed

interpretation scopes: panic_free
  "\<lambda>(now, step, cp). switch_context now step cp" "\<lambda>(now, step, cp). valid_path p step" "scopes_ok pl p block"
  for pl and p :: "('s, 'c limits_factory) pipeline" and block
proof
  fix rs :: "'c root_scope" and a :: "nat \<times> step_path \<times> 'c checkpoint"
  assume "scopes_ok pl p block rs" "case a of (now, step, cp) \<Rightarrow> valid_path p step"
  then show "\<exists>rs'. (case a of (now, step, cp) \<Rightarrow> switch_context now step cp) rs = Some rs' \<and> scopes_ok pl p block rs'"
    using switch_context_ok by (cases a) fastforce
qed

lemma scope_reach_ok: "scope_reach pl p block rs \<Longrightarrow> scopes_ok pl p block rs"
proof (induction rule: scope_reach.induct)
  case (reach_enter cp now cp' rs)
  with root_enter_ok [OF reach_enter(1), of now cp' pl p] show ?case by auto
next
  case (reach_switch rs step now cp rs')
  with switch_context_ok [OF reach_switch.IH reach_switch.hyps(2), of now cp] show ?case by auto
qed


subsection \<open>Properties\<close>

definition half_gas :: "'c limits_factory" where
  "half_gas cp l = scaled_from (scaled_new\<lparr>sc_gas := Some (Fraction 1 2)\<rparr>) l"

definition sample_scoped :: "(nat, unit limits_factory) pipeline" where
  "sample_scoped =
     with_pipeline (with_step (pipeline_named ''outer'') 1) Loop
       (with_limits (with_step (pipeline_named ''inner'') 2) half_gas)"

definition sample_platform :: "block_context \<Rightarrow> limits" where
  "sample_platform b = limits_with_gas EthExt 1000"

lemma sample_scoped_valid: "valid_path sample_scoped [2, 1]" "valid_path sample_scoped [1]"
  by (simp_all add: sample_scoped_def with_pipeline_def with_step_def with_limits_def
      pipeline_named_def index_defs)

text \<open>
  Claim C9: switching scopes never panics. From every reachable state and to every step of the
  pipeline the switch succeeds (no scope is missing, none is entered twice, none is left while
  inactive); afterwards the scope of the step is active, it has limits, and the active scopes
  are exactly the ones around the step.
\<close>

theorem scope_switch_never_panics:
  assumes "scope_reach pl p block rs" "valid_path p step"
  shows "\<exists>rs'. switch_context now step cp rs = Some rs' \<and> scope_reach pl p block rs' \<and>
    limits_of rs' step \<noteq> None \<and> scope_entered_at rs' step \<noteq> None \<and>
    (\<forall>path s. scope_get (rs_root rs') path = Some s \<longrightarrow>
       scope_is_active s = (take (length path) (butlast step) = path))"
proof -
  from switch_context_ok [OF scope_reach_ok [OF assms(1)] assms(2), of now cp] obtain rs' where
    rs': "switch_context now step cp rs = Some rs'" "scopes_ok pl p block rs'" "rs_current rs' = butlast step"
    by blast
  have inv: "scope_inv (rs_root rs') (butlast step)" using rs' by (simp add: scopes_ok_def)
  then obtain s where s: "scope_get (rs_root rs') (butlast step) = Some s"
    by (auto simp: scope_inv_def own_Some)
  have act: "scope_is_active t = (take (length path) (butlast step) = path)"
    if "scope_get (rs_root rs') path = Some t" for path t
    using inv own_get [OF that] unfolding scope_inv_def scope_is_active_def by blast
  have "scope_is_active s" using act [OF s] by simp
  then show ?thesis
    using rs'(1) reach_switch [OF assms rs'(1)] act s
    by (auto simp: limits_of_def scope_entered_at_def scope_of_valid [OF assms(2)] scope_is_active_def)
qed

lemma sample_scope_reach:
  "\<exists>rs. root_enter 5 sample_root (root_scope_new sample_platform sample_scoped sample_root) = Some rs \<and>
     scope_reach sample_platform sample_scoped sample_block rs"
  using root_enter_ok [of sample_root sample_block 5 sample_root sample_platform sample_scoped]
    reach_enter [of sample_root sample_block 5 sample_root sample_platform sample_scoped]
  by (auto simp: sample_root_def)

theorem scope_switch_never_panics_witness:
  "\<exists>rs rs'. root_enter 5 sample_root (root_scope_new sample_platform sample_scoped sample_root) = Some rs \<and>
     switch_context 6 [2, 1] sample_root rs = Some rs' \<and> limits_of rs' [2, 1] \<noteq> None"
proof -
  from sample_scope_reach obtain rs where
    rs: "root_enter 5 sample_root (root_scope_new sample_platform sample_scoped sample_root) = Some rs"
    "scope_reach sample_platform sample_scoped sample_block rs" by blast
  from scope_switch_never_panics [OF rs(2) sample_scoped_valid(1), of 6 sample_root] rs(1)
  show ?thesis by blast
qed



text \<open>
  The limits of the top-level pipeline are created twice. \<open>RootScope::enter\<close> passes the
  root's own limits as the enclosing ones, so a factory that halves the gas leaves a quarter of
  the platform's limit once the root scope is entered, not the half it has before.
\<close>

theorem root_limits_scaled_twice:
  assumes "pl_limits p = Some half_gas" "cp_block cp = block" "gas_limit (pl block) = 1000"
  shows "\<exists>rs. root_enter now cp (root_scope_new pl p cp) = Some rs \<and>
    gas_limit (sc_limits (rs_root (root_scope_new pl p cp))) = 500 \<and>
    gas_limit (sc_limits (rs_root rs)) = 250"
proof -
  have half: "gas_limit (clamp (half_gas cp l) l) = gas_limit l div 2" if "gas_limit l \<le> 1000" for l
  proof -
    have g: "gas_limit (half_gas cp l) = saturating_mul (gas_limit l) 1 div 2"
      by (simp add: half_gas_def scaled_from_def scaled_new_def)
    have "unat (gas_limit l) \<le> 1000" using that by (simp add: word_le_nat_alt)
    then have "saturating_mul (gas_limit l) 1 = gas_limit l" by (simp add: saturating_mul_def)
    with g have g2: "gas_limit (half_gas cp l) = gas_limit l div 2" by simp
    have "gas_limit l div 2 \<le> gas_limit l"
      by (simp add: word_le_nat_alt unat_div)
    with g2 show ?thesis by (simp add: clamp_gas min_absorb1)
  qed
  have "gas_limit (sc_limits (rs_root (root_scope_new pl p cp))) = 500"
    using assms half [of "pl block"]
    by (simp add: root_scope_new_def rooted_at_def Let_def create_limits_def)
  moreover from this have "gas_limit (clamp (half_gas cp (sc_limits (rs_root (root_scope_new pl p cp))))
      (sc_limits (rs_root (root_scope_new pl p cp)))) = 250"
    using half [of "sc_limits (rs_root (root_scope_new pl p cp))"] by simp
  moreover have "sc_entered_at (rs_root (root_scope_new pl p cp)) = None"
    "sc_factory (rs_root (root_scope_new pl p cp)) = Some half_gas"
    using assms(1) by (simp_all add: root_scope_new_def rooted_at_def Let_def)
  ultimately show ?thesis
    by (simp add: root_enter_def scope_enter_def scope_is_active_def create_limits_def)
qed

theorem root_limits_scaled_twice_witness:
  "\<exists>rs. root_enter 5 sample_root (root_scope_new sample_platform (with_limits sample_scoped half_gas)
     sample_root) = Some rs \<and> gas_limit (sc_limits (rs_root rs)) = 250"
  using root_limits_scaled_twice [of "with_limits sample_scoped half_gas" sample_root sample_block
      sample_platform 5]
  by (simp add: with_limits_def sample_platform_def limits_with_gas_def) (auto simp: sample_root_def)

text \<open>
  Leaving a nested pipeline and entering it again at once is not noticed. If the next
  step lies in the scope that is current, the switch changes nothing: neither the limits nor the
  entry time from which its deadline counts. A loop whose only item is a loop gets there when its
  step breaks, although the scope documentation says the inner scope is entered again.
\<close>

theorem immediate_reentry_keeps_scope:
  assumes "scope_reach pl p block rs" "valid_path p step" "rs_current rs = butlast step"
  shows "switch_context now step cp rs = Some rs"
  using assms by (simp add: switch_context_def scope_of_valid)

definition sample_loops :: "(nat, unit limits_factory) pipeline" where
  "sample_loops =
     with_pipeline (pipeline_named ''root'') Loop
       (with_pipeline (pipeline_named ''outer'') Loop (with_step (pipeline_named ''inner'') 1))"

theorem immediate_reentry_keeps_scope_witness:
  "next_break (nav_at sample_loops [1, 1, 1]) = Some (Some (nav_at sample_loops [1, 1, 1])) \<and>
   (\<exists>rs. scope_reach sample_platform sample_loops sample_block rs \<and>
      switch_context 99 [1, 1, 1] sample_root rs = Some rs)"
proof
  have ok: "inhabited sample_loops" "small_pipeline sample_loops" "valid_path sample_loops [1, 1, 1]"
    by (simp_all add: sample_loops_def with_pipeline_def with_step_def pipeline_named_def index_defs)
  show "next_break (nav_at sample_loops [1, 1, 1]) = Some (Some (nav_at sample_loops [1, 1, 1]))"
    using next_flow_spec [OF ok, of FlowBreak]
    by (simp add: next_flow_def sample_loops_def with_pipeline_def with_step_def pipeline_named_def
        spec_after_loop_def spec_advance_def item_entry_def index_defs)
  have "cp_block sample_root = sample_block" by simp
  from root_enter_ok [OF this, of 5 sample_root sample_platform sample_loops] obtain rs0 where
    rs0: "root_enter 5 sample_root (root_scope_new sample_platform sample_loops sample_root) = Some rs0"
    by blast
  have r0: "scope_reach sample_platform sample_loops sample_block rs0"
    by (rule reach_enter [OF _ rs0]) simp
  from switch_context_ok [OF scope_reach_ok [OF r0] ok(3), of 6 sample_root] obtain rs where
    rs: "switch_context 6 [1, 1, 1] sample_root rs0 = Some rs" "rs_current rs = butlast [1, 1, 1]"
    by blast
  have r: "scope_reach sample_platform sample_loops sample_block rs"
    by (rule reach_switch [OF r0 ok(3) rs(1)])
  with immediate_reentry_keeps_scope [OF r ok(3) rs(2), of 99 sample_root]
  show "\<exists>rs. scope_reach sample_platform sample_loops sample_block rs \<and>
      switch_context 99 [1, 1, 1] sample_root rs = Some rs" by blast
qed

end
