(* ===== verification/Executor.thy ===== *)
theory Executor
  imports Scope
begin

section \<open>The pipeline executor\<close>

text \<open>
  \<open>PipelineExecutor\<close> of \<open>crates/pipeline/src/pipelines/exec/mod.rs\<close>, the state machine that runs
  a pipeline, with \<open>StepContext\<close> (\<open>step/context.rs\<close>) and \<open>ControlFlow\<close> (\<open>step/mod.rs\<close>).

  Steps are opaque: a step instance gives, for each of its three methods, how often its future is
  pending, the state of the world after it and its result. The world \<open>'w\<close> is everything steps
  share and change. A future performs its effect when it completes, as no two steps run at the
  same time; polling a future that has completed is a panic, as for an \<open>async\<close> block. A future
  that never completes is outside the model. A panic is \<open>None\<close>.

  The events published by a job are the list \<open>ex_events\<close>, and its updates of the metrics of
  \<open>pipelines/metrics.rs\<close> the list \<open>ex_metrics\<close>. Not modelled: wakers and tracing.
\<close>

subsection \<open>Steps\<close>

datatype payload_builder_error =
    MissingParentHeader b256
  | MissingParentBlock b256
  | ChannelClosed
  | MissingPayload
  | Internal string
  | EvmExecutionError string
  | Other string

fun clone_payload_error_lossy :: "payload_builder_error \<Rightarrow> payload_builder_error" where
  "clone_payload_error_lossy (Internal s) = Other s"
| "clone_payload_error_lossy (EvmExecutionError s) = Other s"
| "clone_payload_error_lossy (Other s) = Other s"
| "clone_payload_error_lossy (MissingParentHeader h) = MissingParentHeader h"
| "clone_payload_error_lossy (MissingParentBlock h) = MissingParentBlock h"
| "clone_payload_error_lossy ChannelClosed = ChannelClosed"
| "clone_payload_error_lossy MissingPayload = MissingPayload"

datatype 'c control_flow = Fail payload_builder_error | Break "'c checkpoint" | Ok "'c checkpoint"

fun try_into_payload :: "'c control_flow \<Rightarrow> 'c control_flow + 'c checkpoint" where
  "try_into_payload (Ok p) = Inr p"
| "try_into_payload (Break p) = Inr p"
| "try_into_payload (Fail e) = Inl (Fail e)"

fun try_into_fail :: "'c control_flow \<Rightarrow> 'c control_flow + payload_builder_error" where
  "try_into_fail (Fail e) = Inr e"
| "try_into_fail f = Inl f"

record step_context =
  ctx_block :: block_context
  ctx_limits :: limits
  ctx_started_at :: "nat option"

definition step_context_provider :: "step_context \<Rightarrow> state_provider" where
  "step_context_provider ctx = base_state (ctx_block ctx)"

definition deadline_reached :: "nat \<Rightarrow> step_context \<Rightarrow> bool" where
  "deadline_reached now ctx =
     (case (deadline (ctx_limits ctx), ctx_started_at ctx) of
        (Some d, Some started_at) \<Rightarrow> d \<le> now - started_at
      | _ \<Rightarrow> False)"

text \<open>A future's value: pending polls, world afterwards, result.\<close>

type_synonym ('w, 'a) async = "'w \<Rightarrow> nat \<times> 'w \<times> 'a"

record ('c, 'w, 'p) step_instance =
  si_step :: "'c checkpoint \<Rightarrow> step_context \<Rightarrow> ('w, 'c control_flow) async"
  si_before_job :: "step_context \<Rightarrow> ('w, payload_builder_error + unit) async"
  si_after_job :: "step_context \<Rightarrow> payload_builder_error + 'p \<Rightarrow> ('w, payload_builder_error + unit) async"

subsection \<open>State of the executor\<close>

text \<open>
  A future held by the cursor: not polled yet, pending for some more polls, or completed. Its
  computation may panic.
\<close>

datatype ('w, 'a) fut =
    NotPolled "'w \<Rightarrow> nat \<times> ('w \<times> 'a) option"
  | Waiting nat "('w \<times> 'a) option"
  | Completed

datatype ('w, 'a) poll = Pending "('w, 'a) fut" | Ready 'w 'a | Panicked

fun poll_fut :: "('w, 'a) fut \<Rightarrow> 'w \<Rightarrow> ('w, 'a) poll" where
  "poll_fut (NotPolled f) w =
     (case f w of
        (0, Some (w', a)) \<Rightarrow> Ready w' a
      | (0, None) \<Rightarrow> Panicked
      | (Suc n, r) \<Rightarrow> Pending (Waiting n r))"
| "poll_fut (Waiting 0 (Some (w', a))) w = Ready w' a"
| "poll_fut (Waiting 0 None) w = Panicked"
| "poll_fut (Waiting (Suc n) r) w = Pending (Waiting n r)"
| "poll_fut Completed w = Panicked"

text \<open>What the futures of the executor share: the world and the scopes.\<close>

type_synonym ('c, 'w) shared = "'w \<times> 'c root_scope"

type_synonym 'p pipeline_output = "payload_builder_error + 'p"

datatype ('c, 'w, 'p) cursor =
    BeforeStep step_path "'c checkpoint"
  | StepInProgress step_path "(('c, 'w) shared, 'c control_flow) fut"
  | Initializing "(('c, 'w) shared, payload_builder_error + 'c checkpoint) fut"
  | Finalizing "(('c, 'w) shared, 'p pipeline_output) fut"
  | PreparingStep

datatype 'p system_event =
    PayloadJobStarted block_context | PayloadJobCompleted u64 'p | PayloadJobFailed u64 payload_builder_error

text \<open>
  The metrics of a pipeline's payloads. The recorder is external: the model keeps the updates in
  their order. A floating point quotient is kept as its two operands.
\<close>

record built_info =
  bp_fees :: u256
  bp_gas_used :: u64
  bp_gas_limit :: u64
  bp_blob_gas_used :: "u64 option"
  bp_tx_count :: nat
  bp_number :: u64
  bp_hash :: b256
  bp_parent_hash :: b256
  bp_timestamp :: u64

datatype payload_metric =
    JobsStarted | JobsCompleted | JobsFailed
  | TxCountHistogram nat | TxCountTotal u64
  | GasUsedHistogram u64 | GasUsedTotal u64 | GasUtilized u64 u64
  | BlobGasHistogram u64 | BlobGasTotal u64 | BlobGasUtilized u64 u64
  | FeesHistogram u256 | FeesTotal u64
  | JobDeadline u64 | BlockNumber u64

text \<open>\<open>Uint::to::<u64>()\<close> panics when the value does not fit.\<close>

definition to_u64 :: "u256 \<Rightarrow> u64 option" where
  "to_u64 x = (if unat x < 2 ^ 64 then Some (ucast x) else None)"

definition record_payload :: "built_info \<Rightarrow> block_context \<Rightarrow> payload_metric list option" where
  "record_payload p block =
     map_option (\<lambda>fees.
       [FeesHistogram (bp_fees p), FeesTotal fees,
        GasUsedHistogram (bp_gas_used p), GasUsedTotal (bp_gas_used p),
        GasUtilized (bp_gas_used p) (bp_gas_limit p)] @
       (let blob_gas_used = (case bp_blob_gas_used p of None \<Rightarrow> 0 | Some g \<Rightarrow> g) in
        [BlobGasHistogram blob_gas_used, BlobGasTotal blob_gas_used,
         BlobGasUtilized blob_gas_used (blob_gas_limit block)]) @
       [TxCountHistogram (bp_tx_count p), TxCountTotal (of_nat (bp_tx_count p)),
        BlockNumber (bp_number p)])
     (to_u64 (bp_fees p))"

definition record_payload_job_attributes :: "u64 \<Rightarrow> payload_attributes \<Rightarrow> payload_metric list" where
  "record_payload_job_attributes now attribs = [JobDeadline (saturating_sub (attr_timestamp attribs) now)]"

record ('c, 'w, 'p) executor =
  ex_cursor :: "('c, 'w, 'p) cursor"
  ex_shared :: "('c, 'w) shared"
  ex_events :: "'p system_event list"
  ex_metrics :: "payload_metric list"

text \<open>
  What a run of the executor depends on: the pipeline, the block, the platform's limits, the
  creation of checkpoints (\<open>BlockContext::start\<close>), the payload builder, what \<open>BuiltPayload\<close> tells
  of a payload, the clocks (\<open>Instant\<close> and the seconds since the Unix epoch), and whether a step
  still holds the result it was given by \<open>after_job\<close>.
\<close>

record ('c, 'w, 'p) exec_env =
  env_pipeline :: "(('c, 'w, 'p) step_instance, 'c limits_factory) pipeline"
  env_block :: block_context
  env_limits :: "block_context \<Rightarrow> limits"
  env_start :: "'w \<Rightarrow> 'w \<times> 'c checkpoint"
  env_build :: "'c checkpoint \<Rightarrow> 'p pipeline_output"
  env_payload :: "'p \<Rightarrow> built_info"
  env_now :: "'w \<Rightarrow> nat"
  env_unix_secs :: "'w \<Rightarrow> u64"
  env_retained :: "'w \<Rightarrow> bool"

subsection \<open>Operations\<close>

text \<open>The instance of the step at a path and its context; all the lookups are \<open>expect\<close>ed.\<close>

definition step_and_ctx ::
    "('c, 'w, 'p) exec_env \<Rightarrow> 'c root_scope \<Rightarrow> step_path \<Rightarrow> nat option \<Rightarrow>
     (('c, 'w, 'p) step_instance \<times> step_context) option" where
  "step_and_ctx env rs path started_at =
     (case (limits_of rs path, navigator path (env_pipeline env)) of
        (Some l, Some (Some navi)) \<Rightarrow>
          map_option (\<lambda>inst. (inst, \<lparr>ctx_block = env_block env, ctx_limits = l,
                                     ctx_started_at = started_at\<rparr>)) (nav_instance navi)
      | _ \<Rightarrow> None)"

text \<open>The body of the initializing future.\<close>

fun run_before_jobs ::
    "('c, 'w, 'p) exec_env \<Rightarrow> step_path list \<Rightarrow> 'c checkpoint \<Rightarrow> ('c, 'w) shared \<Rightarrow>
     nat \<times> (('c, 'w) shared \<times> (payload_builder_error + 'c checkpoint)) option" where
  "run_before_jobs env [] cp (w, rs) = (0, Some ((w, rs), Inr cp))"
| "run_before_jobs env (path # paths) cp (w, rs) =
     (case step_and_ctx env rs path None of
        None \<Rightarrow> (0, None)
      | Some (inst, ctx) \<Rightarrow>
          (case si_before_job inst ctx w of
             (n, w', Inl e) \<Rightarrow> (n, Some ((w', rs), Inl e))
           | (n, w', Inr u) \<Rightarrow>
               (case run_before_jobs env paths cp (w', rs) of (m, r) \<Rightarrow> (n + m, r))))"

definition executor_run :: "('c, 'w, 'p) exec_env \<Rightarrow> 'w \<Rightarrow> ('c, 'w, 'p) executor" where
  "executor_run env w =
     (let (w', cp) = env_start env w;
          rs = root_scope_new (env_limits env) (env_pipeline env) cp
      in \<lparr>ex_cursor = Initializing (NotPolled (run_before_jobs env (iter_steps (env_pipeline env)) cp)),
          ex_shared = (w', rs),
          ex_events = [PayloadJobStarted (env_block env)],
          ex_metrics = JobsStarted #
            record_payload_job_attributes (env_unix_secs env w) (attributes (env_block env))\<rparr>)"

definition execute_step ::
    "('c, 'w, 'p) exec_env \<Rightarrow> 'c root_scope \<Rightarrow> step_path \<Rightarrow> 'c checkpoint \<Rightarrow>
     (('c, 'w) shared, 'c control_flow) fut option" where
  "execute_step env rs path input =
     map_option (\<lambda>(inst, ctx). NotPolled (\<lambda>(w, rs'). case si_step inst input ctx w of
                   (n, w', fl) \<Rightarrow> (n, Some ((w', rs'), fl))))
       (step_and_ctx env rs path (scope_entered_at rs path))"

text \<open>The body of the finalizing future.\<close>

fun run_after_jobs ::
    "('c, 'w, 'p) exec_env \<Rightarrow> step_path list \<Rightarrow> 'p pipeline_output \<Rightarrow> ('c, 'w) shared \<Rightarrow>
     nat \<times> (('c, 'w) shared \<times> 'p pipeline_output) option" where
  "run_after_jobs env [] out (w, rs) =
     (0, Option.bind (if root_is_active rs then root_leave rs else Some rs)
           (\<lambda>rs'. if env_retained env w then None else Some ((w, rs'), out)))"
| "run_after_jobs env (path # paths) out (w, rs) =
     (case step_and_ctx env rs path None of
        None \<Rightarrow> (0, None)
      | Some (inst, ctx) \<Rightarrow>
          (case si_after_job inst ctx out w of
             (n, w', Inl e) \<Rightarrow> (n, Some ((w', rs), Inl e))
           | (n, w', Inr u) \<Rightarrow>
               (case run_after_jobs env paths out (w', rs) of (m, r) \<Rightarrow> (n + m, r))))"

definition finalize :: "('c, 'w, 'p) exec_env \<Rightarrow> 'p pipeline_output \<Rightarrow> (('c, 'w) shared, 'p pipeline_output) fut" where
  "finalize env out =
     NotPolled (run_after_jobs env (iter_steps (env_pipeline env))
       (map_err clone_payload_error_lossy out))"

text \<open>\<open>first_step\<close> and \<open>advance_cursor\<close> give the new cursor and change the scopes.\<close>

definition first_step ::
    "('c, 'w, 'p) exec_env \<Rightarrow> 'c checkpoint \<Rightarrow> ('c, 'w) shared \<Rightarrow>
     (('c, 'w, 'p) cursor \<times> ('c, 'w) shared) option" where
  "first_step env cp sh =
     (case sh of (w, rs) \<Rightarrow>
      case entrypoint (env_pipeline env) of
        None \<Rightarrow> None
      | Some None \<Rightarrow>
          (let (w', cp0) = env_start env w in
           Some (Finalizing (finalize env (env_build env cp0)), (w', rs)))
      | Some (Some navi) \<Rightarrow>
          map_option (\<lambda>rs'. (BeforeStep (fst navi) cp, (w, rs'))) (root_enter (env_now env w) cp rs))"

definition advance_to ::
    "('c, 'w, 'p) exec_env \<Rightarrow> (('c, 'w, 'p) step_instance, 'c limits_factory) navigator option option \<Rightarrow>
     'c checkpoint \<Rightarrow> ('c, 'w) shared \<Rightarrow> (('c, 'w, 'p) cursor \<times> ('c, 'w) shared) option" where
  "advance_to env nx input sh =
     (case sh of (w, rs) \<Rightarrow>
      case nx of
        None \<Rightarrow> None
      | Some None \<Rightarrow> Some (Finalizing (finalize env (env_build env input)), (w, rs))
      | Some (Some step) \<Rightarrow>
          map_option (\<lambda>rs'. (BeforeStep (fst step) input, (w, rs')))
            (switch_context (env_now env w) (fst step) input rs))"

definition advance_cursor ::
    "('c, 'w, 'p) exec_env \<Rightarrow> step_path \<Rightarrow> 'c control_flow \<Rightarrow> ('c, 'w) shared \<Rightarrow>
     (('c, 'w, 'p) cursor \<times> ('c, 'w) shared) option" where
  "advance_cursor env path output sh =
     (case navigator path (env_pipeline env) of
        Some (Some navi) \<Rightarrow>
          (case output of
             Fail e \<Rightarrow> Some (Finalizing (finalize env (Inl e)), sh)
           | Break cp \<Rightarrow> advance_to env (next_break navi) cp sh
           | Ok cp \<Rightarrow> advance_to env (next_ok navi) cp sh)
      | _ \<Rightarrow> None)"

text \<open>
  \<open>Future::poll\<close>. Its four blocks run in order, and each looks at the cursor the one before it
  left: after the initialization the first step is started in the same poll. The result is a
  panic, the final output, or pending with the new state.
\<close>

datatype ('c, 'w, 'p) poll_result =
    PollPanic
  | PollReady "'p pipeline_output" "('c, 'w, 'p) executor"
  | PollPending "('c, 'w, 'p) executor"

definition poll_initializing ::
    "('c, 'w, 'p) exec_env \<Rightarrow> ('c, 'w, 'p) executor \<Rightarrow> ('c, 'w, 'p) executor option" where
  "poll_initializing env ex =
     (case ex_cursor ex of
        Initializing f \<Rightarrow>
          (case poll_fut f (ex_shared ex) of
             Panicked \<Rightarrow> None
           | Pending f' \<Rightarrow> Some (ex\<lparr>ex_cursor := Initializing f'\<rparr>)
           | Ready sh (Inr cp) \<Rightarrow>
               map_option (\<lambda>(c, sh'). ex\<lparr>ex_cursor := c, ex_shared := sh'\<rparr>) (first_step env cp sh)
           | Ready sh (Inl e) \<Rightarrow>
               Some (ex\<lparr>ex_cursor := Finalizing (finalize env (Inl e)), ex_shared := sh\<rparr>))
      | _ \<Rightarrow> Some ex)"

definition job_event :: "('c, 'w, 'p) exec_env \<Rightarrow> 'p pipeline_output \<Rightarrow> 'p system_event" where
  "job_event env out =
     (case out of
        Inr p \<Rightarrow> PayloadJobCompleted (payload_id (env_block env)) p
      | Inl e \<Rightarrow> PayloadJobFailed (payload_id (env_block env)) e)"

definition job_metrics :: "('c, 'w, 'p) exec_env \<Rightarrow> 'p pipeline_output \<Rightarrow> payload_metric list option" where
  "job_metrics env out =
     (case out of
        Inr p \<Rightarrow> map_option (\<lambda>ms. JobsCompleted # ms) (record_payload (env_payload env p) (env_block env))
      | Inl e \<Rightarrow> Some [JobsFailed])"

definition poll_finalizing ::
    "('c, 'w, 'p) exec_env \<Rightarrow> ('c, 'w, 'p) executor \<Rightarrow> ('c, 'w, 'p) poll_result" where
  "poll_finalizing env ex =
     (case ex_cursor ex of
        Finalizing f \<Rightarrow>
          (case poll_fut f (ex_shared ex) of
             Panicked \<Rightarrow> PollPanic
           | Pending f' \<Rightarrow> PollPending (ex\<lparr>ex_cursor := Finalizing f'\<rparr>)
           | Ready sh out \<Rightarrow>
               (case job_metrics env out of
                  None \<Rightarrow> PollPanic
                | Some ms \<Rightarrow>
                    PollReady out (ex\<lparr>ex_cursor := Finalizing Completed, ex_shared := sh,
                                      ex_events := ex_events ex @ [job_event env out],
                                      ex_metrics := ex_metrics ex @ ms\<rparr>)))
      | _ \<Rightarrow> PollPending ex)"

definition poll_before_step ::
    "('c, 'w, 'p) exec_env \<Rightarrow> ('c, 'w, 'p) executor \<Rightarrow> ('c, 'w, 'p) executor option" where
  "poll_before_step env ex =
     (case ex_cursor ex of
        BeforeStep path input \<Rightarrow>
          map_option (\<lambda>f. ex\<lparr>ex_cursor := StepInProgress path f\<rparr>)
            (execute_step env (snd (ex_shared ex)) path input)
      | _ \<Rightarrow> Some ex)"

definition poll_step_in_progress ::
    "('c, 'w, 'p) exec_env \<Rightarrow> ('c, 'w, 'p) executor \<Rightarrow> ('c, 'w, 'p) executor option" where
  "poll_step_in_progress env ex =
     (case ex_cursor ex of
        StepInProgress path f \<Rightarrow>
          (case poll_fut f (ex_shared ex) of
             Panicked \<Rightarrow> None
           | Pending f' \<Rightarrow> Some (ex\<lparr>ex_cursor := StepInProgress path f'\<rparr>)
           | Ready sh out \<Rightarrow>
               map_option (\<lambda>(c, sh'). ex\<lparr>ex_cursor := c, ex_shared := sh'\<rparr>)
                 (advance_cursor env path out sh))
      | _ \<Rightarrow> Some ex)"

definition poll_executor ::
    "('c, 'w, 'p) exec_env \<Rightarrow> ('c, 'w, 'p) executor \<Rightarrow> ('c, 'w, 'p) poll_result" where
  "poll_executor env ex =
     (case poll_initializing env ex of
        None \<Rightarrow> PollPanic
      | Some ex1 \<Rightarrow>
          (case poll_finalizing env ex1 of
             PollPanic \<Rightarrow> PollPanic
           | PollReady out ex2 \<Rightarrow> PollReady out ex2
           | PollPending ex2 \<Rightarrow>
               (case poll_before_step env ex2 of
                  None \<Rightarrow> PollPanic
                | Some ex3 \<Rightarrow>
                    (case poll_step_in_progress env ex3 of
                       None \<Rightarrow> PollPanic
                     | Some ex4 \<Rightarrow> PollPending ex4))))"

subsection \<open>Invariant\<close>

text \<open>
  A job is well formed when every nested pipeline has a step, checkpoints belong to the job's
  block, the fees of the payloads that are built fit into 64 bits, and no step keeps the result of
  the job. The last two are what \<open>metrics.record_payload\<close> and \<open>Arc::into_inner(..).expect(..)\<close> rely on.
\<close>

definition payload_ok :: "('c, 'w, 'p) exec_env \<Rightarrow> 'p pipeline_output \<Rightarrow> bool" where
  "payload_ok env out =
     (case out of
        Inr p \<Rightarrow> (\<exists>cp. env_build env cp = Inr p) \<and> unat (bp_fees (env_payload env p)) < 2 ^ 64
      | Inl e \<Rightarrow> True)"

definition env_wf :: "('c, 'w, 'p) exec_env \<Rightarrow> bool" where
  "env_wf env \<longleftrightarrow>
     small_pipeline (env_pipeline env) \<and>
     (inhabited (env_pipeline env) \<or> pipeline_is_empty (env_pipeline env)) \<and>
     (\<forall>w. cp_block (snd (env_start env w)) = env_block env) \<and>
     (\<forall>cp p. env_build env cp = Inr p \<longrightarrow> unat (bp_fees (env_payload env p)) < 2 ^ 64) \<and>
     (\<forall>w. \<not> env_retained env w)"

text \<open>The future has not completed and, from the given state, ends without a panic in \<open>Q\<close>.\<close>

definition fut_sat :: "('w \<Rightarrow> 'a \<Rightarrow> bool) \<Rightarrow> ('w, 'a) fut \<Rightarrow> 'w \<Rightarrow> bool" where
  "fut_sat Q f w =
     (case f of
        NotPolled g \<Rightarrow> (case snd (g w) of None \<Rightarrow> False | Some (w', a) \<Rightarrow> Q w' a)
      | Waiting n r \<Rightarrow> (case r of None \<Rightarrow> False | Some (w', a) \<Rightarrow> Q w' a)
      | Completed \<Rightarrow> False)"

definition has_limits :: "('s, 'c limits_factory) pipeline \<Rightarrow> 'c root_scope \<Rightarrow> bool" where
  "has_limits p rs \<longleftrightarrow> (\<forall>path. valid_path p path \<longrightarrow> limits_of rs path \<noteq> None)"

definition entered_ok :: "('c, 'w, 'p) exec_env \<Rightarrow> 'c root_scope \<Rightarrow> bool" where
  "entered_ok env rs \<longleftrightarrow> scopes_ok (env_limits env) (env_pipeline env) (env_block env) rs"

definition fresh_ok :: "('c, 'w, 'p) exec_env \<Rightarrow> 'c root_scope \<Rightarrow> bool" where
  "fresh_ok env rs \<longleftrightarrow>
     (\<exists>cp. cp_block cp = env_block env \<and> rs = root_scope_new (env_limits env) (env_pipeline env) cp)"

definition exec_inv :: "('c, 'w, 'p) exec_env \<Rightarrow> ('c, 'w, 'p) executor \<Rightarrow> bool" where
  "exec_inv env ex \<longleftrightarrow>
     (case ex_cursor ex of
        BeforeStep path cp \<Rightarrow> valid_path (env_pipeline env) path \<and> inhabited (env_pipeline env) \<and>
          entered_ok env (snd (ex_shared ex))
      | StepInProgress path f \<Rightarrow> valid_path (env_pipeline env) path \<and> inhabited (env_pipeline env) \<and>
          fut_sat (\<lambda>sh fl. entered_ok env (snd sh)) f (ex_shared ex)
      | Initializing f \<Rightarrow> fut_sat (\<lambda>sh r. fresh_ok env (snd sh)) f (ex_shared ex)
      | Finalizing f \<Rightarrow> fut_sat (\<lambda>sh out. payload_ok env out) f (ex_shared ex)
      | PreparingStep \<Rightarrow> False)"

lemma poll_fut_sat:
  assumes "fut_sat Q f w"
  shows "(\<exists>f'. poll_fut f w = Pending f' \<and> fut_sat Q f' w) \<or>
    (\<exists>w' a. poll_fut f w = Ready w' a \<and> Q w' a)"
proof (cases f)
  case (NotPolled g)
  then show ?thesis
    using assms by (cases "g w"; cases "fst (g w)") (auto simp: fut_sat_def split: option.splits)
next
  case (Waiting n r)
  then show ?thesis
    using assms by (cases n) (auto simp: fut_sat_def split: option.splits)
qed (use assms in \<open>simp add: fut_sat_def\<close>)

lemma limits_own: "limits_of rs path \<noteq> None \<longleftrightarrow>
    (\<exists>q. scope_of path = Some q \<and> own (rs_root rs) q \<noteq> None)"
  by (auto simp: limits_of_def own_def Option.bind_eq_Some_conv split: option.splits)

lemma entered_has_limits: "entered_ok env rs \<Longrightarrow> has_limits (env_pipeline env) rs"
  by (auto simp: entered_ok_def scopes_ok_def has_limits_def limits_own [unfolded not_None_eq]
      scope_of_valid)

lemma fresh_has_limits: "fresh_ok env rs \<Longrightarrow> has_limits (env_pipeline env) rs"
  using inner_exists
  by (fastforce simp: fresh_ok_def has_limits_def limits_own [unfolded not_None_eq] scope_of_valid
      root_scope_new_def rooted_at_inner)

lemma step_and_ctx_Some:
  assumes "has_limits (env_pipeline env) rs" "valid_path (env_pipeline env) path"
  shows "\<exists>inst ctx. step_and_ctx env rs path t = Some (inst, ctx) \<and>
    nav_instance (nav_at (env_pipeline env) path) = Some inst \<and> ctx_started_at ctx = t \<and>
    limits_of rs path = Some (ctx_limits ctx)"
proof -
  obtain l where "limits_of rs path = Some l" using assms by (auto simp: has_limits_def)
  with navigator_valid [OF assms(2)] show ?thesis by (auto simp: step_and_ctx_def)
qed

lemma run_before_jobs_ok:
  assumes "has_limits (env_pipeline env) rs" "\<forall>path \<in> set paths. valid_path (env_pipeline env) path"
  shows "\<exists>n w' r. run_before_jobs env paths cp (w, rs) = (n, Some ((w', rs), r)) \<and> (r = Inr cp \<or> (\<exists>e. r = Inl e))"
  using assms
proof (induction paths arbitrary: w)
  case (Cons path paths)
  from step_and_ctx_Some [OF Cons(2), of path None] Cons(3) obtain inst ctx where
    s: "step_and_ctx env rs path None = Some (inst, ctx)" by auto
  obtain n w' r where j: "si_before_job inst ctx w = (n, w', r)" by (metis prod_cases3)
  show ?case
  proof (cases r)
    case (Inl e)
    with s j show ?thesis by simp
  next
    case (Inr u)
    from Cons(1) [OF Cons(2), of w'] Cons(3) obtain m w2 r2 where
      "run_before_jobs env paths cp (w', rs) = (m, Some ((w2, rs), r2))" "r2 = Inr cp \<or> (\<exists>e. r2 = Inl e)"
      by auto
    with s j Inr show ?thesis by simp
  qed
qed simp

lemma run_after_jobs_ok:
  assumes "has_limits (env_pipeline env) rs" "\<forall>path \<in> set paths. valid_path (env_pipeline env) path"
    and "\<forall>w. \<not> env_retained env w"
  shows "\<exists>n sh r. run_after_jobs env paths out (w, rs) = (n, Some (sh, r)) \<and>
    (r = out \<and> \<not> root_is_active (snd sh) \<or> (\<exists>e. r = Inl e))"
  using assms
proof (induction paths arbitrary: w)
  case Nil
  have "\<not> scope_is_active (scope_deactivate s)" for s :: "'a scope"
    by (cases s) (simp add: scope_is_active_def)
  with Nil show ?case by (auto simp: root_leave_def root_is_active_def scope_leave_def)
next
  case (Cons path paths)
  from step_and_ctx_Some [OF Cons(2), of path None] Cons(3) obtain inst ctx where
    s: "step_and_ctx env rs path None = Some (inst, ctx)" by auto
  obtain n w' r where j: "si_after_job inst ctx out w = (n, w', r)" by (metis prod_cases3)
  show ?case
  proof (cases r)
    case (Inl e)
    with s j show ?thesis by simp
  next
    case (Inr u)
    from Cons(1) [OF Cons(2) _ Cons(4), of w'] Cons(3) obtain m sh r2 where
      "run_after_jobs env paths out (w', rs) = (m, Some (sh, r2))"
      "r2 = out \<and> \<not> root_is_active (snd sh) \<or> (\<exists>e. r2 = Inl e)"
      by auto
    with s j Inr show ?thesis by simp
  qed
qed

lemma env_iter_valid:
  "env_wf env \<Longrightarrow> \<forall>path \<in> set (iter_steps (env_pipeline env)). valid_path (env_pipeline env) path"
  by (auto simp: env_wf_def iter_steps_all_paths valid_path_iff)

lemma env_not_retained: "env_wf env \<Longrightarrow> \<forall>w. \<not> env_retained env w"
  by (simp add: env_wf_def)

lemma payload_ok_simps [simp]:
  "payload_ok env (Inl e)"
  "env_wf env \<Longrightarrow> payload_ok env (env_build env cp)"
  "payload_ok env (map_err f out) = payload_ok env out"
  by (cases out; auto simp: payload_ok_def env_wf_def split: sum.splits)+

lemma job_metrics_Some: "payload_ok env out \<Longrightarrow> \<exists>ms. job_metrics env out = Some ms"
  by (auto simp: payload_ok_def job_metrics_def record_payload_def to_u64_def split: sum.splits)

lemma finalize_sat:
  assumes "env_wf env" "has_limits (env_pipeline env) (snd sh)" "payload_ok env out"
  shows "fut_sat (\<lambda>sh out. payload_ok env out) (finalize env out) sh"
  using run_after_jobs_ok [OF assms(2) env_iter_valid [OF assms(1)] env_not_retained [OF assms(1)],
      of "map_err clone_payload_error_lossy out" "fst sh"] assms(3)
  by (cases sh) (auto simp: finalize_def fut_sat_def)

lemma executor_run_inv: "env_wf env \<Longrightarrow> exec_inv env (executor_run env w)"
proof -
  assume wf: "env_wf env"
  obtain w' cp where st: "env_start env w = (w', cp)" by (cases "env_start env w")
  let ?rs = "root_scope_new (env_limits env) (env_pipeline env) cp"
  have "cp_block cp = env_block env" using wf st unfolding env_wf_def by (metis snd_conv)
  then have fresh: "fresh_ok env ?rs" by (auto simp: fresh_ok_def)
  from run_before_jobs_ok [OF fresh_has_limits [OF fresh] env_iter_valid [OF wf], of cp w'] fresh st
  show ?thesis by (auto simp: executor_run_def exec_inv_def fut_sat_def)
qed

lemma first_step_inv:
  assumes "env_wf env" "fresh_ok env (snd sh)"
  shows "\<exists>c sh'. first_step env cp sh = Some (c, sh') \<and>
    exec_inv env (ex\<lparr>ex_cursor := c, ex_shared := sh'\<rparr>)"
proof (cases "inhabited (env_pipeline env)")
  case True
  let ?p = "env_pipeline env"
  have sm: "small_pipeline ?p" using assms(1) by (simp add: env_wf_def)
  from assms(2) obtain cp0 where cp0: "cp_block cp0 = env_block env"
    "snd sh = root_scope_new (env_limits env) ?p cp0" by (auto simp: fresh_ok_def)
  from root_enter_ok [OF cp0(1), of "env_now env (fst sh)" cp "env_limits env" ?p] obtain rs where
    rs: "root_enter (env_now env (fst sh)) cp (snd sh) = Some rs" "entered_ok env rs"
    by (auto simp: entered_ok_def cp0(2))
  show ?thesis
    using rs True valid_first_of [OF True sm] entrypoint_first [OF True sm]
    by (cases sh) (simp add: first_step_def exec_inv_def nav_at_def)
next
  case False
  with assms(1) have empty: "pipeline_is_empty (env_pipeline env)" by (simp add: env_wf_def)
  have hl: "has_limits (env_pipeline env) (snd sh)" using fresh_has_limits [OF assms(2)] .
  obtain w' cp1 where "env_start env (fst sh) = (w', cp1)" by (cases "env_start env (fst sh)")
  with empty hl show ?thesis
    using finalize_sat [OF assms(1), of "(w', snd sh)" "env_build env cp1"] assms(1)
    by (cases sh) (simp add: first_step_def exec_inv_def entrypoint.simps)
qed

lemma advance_to_inv:
  assumes "env_wf env" "inhabited (env_pipeline env)" "valid_path (env_pipeline env) path"
    and "entered_ok env (snd sh)"
  shows "\<exists>c sh'. advance_to env (next_flow fl (nav_at (env_pipeline env) path)) cp sh = Some (c, sh') \<and>
    exec_inv env (ex\<lparr>ex_cursor := c, ex_shared := sh'\<rparr>) \<and>
    (case spec_next Once (env_pipeline env) path fl of
       Goto r \<Rightarrow> c = BeforeStep r cp
     | Done \<Rightarrow> c = Finalizing (finalize env (env_build env cp)))"
proof -
  let ?p = "env_pipeline env"
  have sm: "small_pipeline ?p" using assms(1) by (simp add: env_wf_def)
  note nx = next_flow_spec [OF assms(2) sm assms(3), of fl]
  show ?thesis
  proof (cases "spec_next Once ?p path fl")
    case Done
    with nx assms(1) finalize_sat [OF assms(1) entered_has_limits [OF assms(4)], of "env_build env cp"] show ?thesis
      by (cases sh) (simp add: advance_to_def exec_inv_def)
  next
    case (Goto r)
    then have v: "valid_path ?p r" by (rule spec_next_valid [OF assms(2) sm assms(3)])
    from switch_context_ok [OF assms(4) [unfolded entered_ok_def] v, of "env_now env (fst sh)" cp]
    obtain rs' where "switch_context (env_now env (fst sh)) r cp (snd sh) = Some rs'" "entered_ok env rs'"
      by (auto simp: entered_ok_def)
    with nx Goto v assms(2) show ?thesis
      by (cases sh) (simp add: advance_to_def exec_inv_def nav_at_def)
  qed
qed

text \<open>The navigation outcome of a step's control flow.\<close>

definition flow_next ::
    "('c, 'w, 'p) exec_env \<Rightarrow> step_path \<Rightarrow> 'c control_flow \<Rightarrow> ('c, 'w, 'p) cursor" where
  "flow_next env path out =
     (case out of
        Fail e \<Rightarrow> Finalizing (finalize env (Inl e))
      | Break cp \<Rightarrow> (case spec_next Once (env_pipeline env) path FlowBreak of
                      Goto r \<Rightarrow> BeforeStep r cp | Done \<Rightarrow> Finalizing (finalize env (env_build env cp)))
      | Ok cp \<Rightarrow> (case spec_next Once (env_pipeline env) path FlowOk of
                      Goto r \<Rightarrow> BeforeStep r cp | Done \<Rightarrow> Finalizing (finalize env (env_build env cp))))"

lemma advance_cursor_inv:
  assumes "env_wf env" "inhabited (env_pipeline env)" "valid_path (env_pipeline env) path"
    and "entered_ok env (snd sh)"
  shows "\<exists>sh'. advance_cursor env path out sh = Some (flow_next env path out, sh') \<and>
    exec_inv env (ex\<lparr>ex_cursor := flow_next env path out, ex_shared := sh'\<rparr>)"
proof (cases out)
  case (Fail e)
  with navigator_valid(1) [OF assms(3)] finalize_sat [OF assms(1) entered_has_limits [OF assms(4)]]
  show ?thesis by (simp add: advance_cursor_def exec_inv_def flow_next_def)
next
  case (Break cp)
  with navigator_valid(1) [OF assms(3)] advance_to_inv [OF assms, of FlowBreak cp ex] show ?thesis
    by (auto simp: advance_cursor_def next_flow_def flow_next_def split: next_item.splits)
next
  case (Ok cp)
  with navigator_valid(1) [OF assms(3)] advance_to_inv [OF assms, of FlowOk cp ex] show ?thesis
    by (auto simp: advance_cursor_def next_flow_def flow_next_def split: next_item.splits)
qed

lemma poll_initializing_inv:
  assumes "env_wf env" "exec_inv env ex"
  shows "\<exists>ex'. poll_initializing env ex = Some ex' \<and> exec_inv env ex'"
proof (cases "ex_cursor ex")
  case (Initializing f)
  with assms(2) have sat: "fut_sat (\<lambda>sh r. fresh_ok env (snd sh)) f (ex_shared ex)"
    by (simp add: exec_inv_def)
  from poll_fut_sat [OF sat] show ?thesis
  proof
    assume "\<exists>f'. poll_fut f (ex_shared ex) = Pending f' \<and> fut_sat (\<lambda>sh r. fresh_ok env (snd sh)) f' (ex_shared ex)"
    with Initializing show ?thesis by (auto simp: poll_initializing_def exec_inv_def)
  next
    assume "\<exists>sh r. poll_fut f (ex_shared ex) = Ready sh r \<and> fresh_ok env (snd sh)"
    then obtain sh r where r: "poll_fut f (ex_shared ex) = Ready sh r" "fresh_ok env (snd sh)" by blast
    show ?thesis
    proof (cases r)
      case (Inl e)
      with r Initializing finalize_sat [OF assms(1) fresh_has_limits [OF r(2)], of "Inl e"] show ?thesis
        by (simp add: poll_initializing_def exec_inv_def)
    next
      case (Inr cp)
      with r Initializing first_step_inv [OF assms(1) r(2), of cp ex] show ?thesis
        by (auto simp: poll_initializing_def)
    qed
  qed
qed (use assms in \<open>simp_all add: poll_initializing_def\<close>)

lemma poll_finalizing_inv:
  assumes "exec_inv env ex"
  shows "poll_finalizing env ex \<noteq> PollPanic \<and>
    (\<forall>ex'. poll_finalizing env ex = PollPending ex' \<longrightarrow> exec_inv env ex') \<and>
    (\<forall>out ex'. poll_finalizing env ex = PollReady out ex' \<longrightarrow> payload_ok env out)"
proof (cases "ex_cursor ex")
  case (Finalizing f)
  with assms have sat: "fut_sat (\<lambda>sh out. payload_ok env out) f (ex_shared ex)" by (simp add: exec_inv_def)
  from poll_fut_sat [OF sat] Finalizing show ?thesis
    by (auto simp: poll_finalizing_def exec_inv_def dest: job_metrics_Some split: option.splits)
qed (use assms in \<open>simp_all add: poll_finalizing_def\<close>)

lemma poll_before_step_inv:
  assumes "exec_inv env ex"
  shows "\<exists>ex'. poll_before_step env ex = Some ex' \<and> exec_inv env ex'"
proof (cases "ex_cursor ex")
  case (BeforeStep path input)
  with assms have v: "valid_path (env_pipeline env) path" "inhabited (env_pipeline env)"
    "entered_ok env (snd (ex_shared ex))" by (simp_all add: exec_inv_def)
  from step_and_ctx_Some [OF entered_has_limits [OF v(3)] v(1)] obtain inst ctx where
    "step_and_ctx env (snd (ex_shared ex)) path (scope_entered_at (snd (ex_shared ex)) path) = Some (inst, ctx)"
    by blast
  with v BeforeStep show ?thesis
    by (cases "ex_shared ex") (auto simp: poll_before_step_def execute_step_def exec_inv_def fut_sat_def
        split: prod.split)
qed (use assms in \<open>simp_all add: poll_before_step_def\<close>)

lemma poll_step_in_progress_inv:
  assumes "env_wf env" "exec_inv env ex"
  shows "\<exists>ex'. poll_step_in_progress env ex = Some ex' \<and> exec_inv env ex'"
proof (cases "ex_cursor ex")
  case (StepInProgress path f)
  with assms(2) have v: "valid_path (env_pipeline env) path" "inhabited (env_pipeline env)"
    and sat: "fut_sat (\<lambda>sh fl. entered_ok env (snd sh)) f (ex_shared ex)"
    by (simp_all add: exec_inv_def)
  from poll_fut_sat [OF sat] show ?thesis
  proof
    assume "\<exists>f'. poll_fut f (ex_shared ex) = Pending f' \<and> fut_sat (\<lambda>sh fl. entered_ok env (snd sh)) f' (ex_shared ex)"
    with StepInProgress v show ?thesis by (auto simp: poll_step_in_progress_def exec_inv_def)
  next
    assume "\<exists>sh out. poll_fut f (ex_shared ex) = Ready sh out \<and> entered_ok env (snd sh)"
    then obtain sh out where r: "poll_fut f (ex_shared ex) = Ready sh out" "entered_ok env (snd sh)" by blast
    from advance_cursor_inv [OF assms(1) v(2,1) r(2), of out ex] r StepInProgress show ?thesis
      by (auto simp: poll_step_in_progress_def)
  qed
qed (use assms in \<open>simp_all add: poll_step_in_progress_def\<close>)

lemma poll_executor_inv:
  assumes "env_wf env" "exec_inv env ex"
  shows "poll_executor env ex \<noteq> PollPanic \<and>
    (\<forall>ex'. poll_executor env ex = PollPending ex' \<longrightarrow> exec_inv env ex') \<and>
    (\<forall>out ex'. poll_executor env ex = PollReady out ex' \<longrightarrow> payload_ok env out)"
proof -
  from poll_initializing_inv [OF assms] obtain ex1 where
    ex1: "poll_initializing env ex = Some ex1" "exec_inv env ex1" by blast
  show ?thesis
  proof (cases "poll_finalizing env ex1")
    case PollPanic
    with poll_finalizing_inv [OF ex1(2)] show ?thesis by simp
  next
    case (PollReady out ex2)
    with ex1 poll_finalizing_inv [OF ex1(2)] show ?thesis by (simp add: poll_executor_def)
  next
    case (PollPending ex2)
    with poll_finalizing_inv [OF ex1(2)] have "exec_inv env ex2" by simp
    from poll_before_step_inv [OF this] obtain ex3 where
      ex3: "poll_before_step env ex2 = Some ex3" "exec_inv env ex3" by blast
    from poll_step_in_progress_inv [OF assms(1) ex3(2)] obtain ex4 where
      "poll_step_in_progress env ex3 = Some ex4" "exec_inv env ex4" by blast
    with ex1 PollPending ex3 show ?thesis by (simp add: poll_executor_def)
  qed
qed

inductive exec_reach :: "('c, 'w, 'p) exec_env \<Rightarrow> 'w \<Rightarrow> ('c, 'w, 'p) executor \<Rightarrow> bool" for env w where
  reach_run: "exec_reach env w (executor_run env w)"
| reach_poll: "exec_reach env w ex \<Longrightarrow> poll_executor env ex = PollPending ex' \<Longrightarrow> exec_reach env w ex'"

lemma exec_reach_inv: "exec_reach env w ex \<Longrightarrow> env_wf env \<Longrightarrow> exec_inv env ex"
  by (induction rule: exec_reach.induct) (auto simp: executor_run_inv dest: poll_executor_inv)

subsection \<open>Properties\<close>

text \<open>Jobs of a pipeline with one step.\<close>

abbreviation single :: "'s \<Rightarrow> string \<Rightarrow> ('s, 'l) pipeline" where
  "single s name \<equiv> Pipeline None None [Step s] None name"

lemma single_paths:
  "valid_path (single s name) [1]" "iter_steps (single s name) = [[1]]"
  "entrypoint (single s name) = Some (Some (nav_at (single s name) [1]))"
  "nav_instance (nav_at (single s name) [1]) = Some s"
  "inhabited (single s name)" "small_pipeline (single s name)"
  using entrypoint_first [of "single s name"]
  by (simp_all add: iter_steps_all_paths sp_step_def index_defs nav_instance_def nav_at_def sp_leaf_def
      nav_pipeline_def list_get_def)

lemma single_next: "next_ok (nav_at (single s name) [1]) = Some None"
  using next_flow_spec [OF single_paths(5,6,1), of FlowOk s name]
  by (simp add: next_flow_def index_defs spec_advance_def spec_after_loop_def)

lemma step_and_ctx_single:
  assumes "env_pipeline env = single s name"
  shows "step_and_ctx env rs [1] t =
    Some (s, \<lparr>ctx_block = env_block env, ctx_limits = sc_limits (rs_root rs), ctx_started_at = t\<rparr>)"
proof -
  have "limits_of rs [1] = Some (sc_limits (rs_root rs))"
    by (simp add: limits_of_def scope_of_def remove_leaf_def is_toplevel_def sp_depth_def)
  then show ?thesis
    by (simp add: step_and_ctx_def assms navigator_valid(1) [OF single_paths(1)] single_paths(4) del: One_nat_def)
qed

lemma single_step_job:
  assumes p: "env_pipeline env = single inst name" and wf: "env_wf env"
    and start: "env_start env w = (w0, cp)" "cp_block cp = env_block env"
    and lim: "env_limits env (env_block env) = l" "clamp l l = l"
    and before: "si_before_job inst \<lparr>ctx_block = env_block env, ctx_limits = l, ctx_started_at = None\<rparr> w0 =
      (0, w1, Inr ())"
    and step: "si_step inst cp \<lparr>ctx_block = env_block env, ctx_limits = l, ctx_started_at = Some (env_now env w1)\<rparr> w1 =
      (0, w2, Ok q)"
    and after: "si_after_job inst \<lparr>ctx_block = env_block env, ctx_limits = l, ctx_started_at = None\<rparr> (Inr out) w2 =
      (0, w3, Inr ())"
    and build: "env_build env q = Inr out"
  shows "\<exists>ex ex'. poll_executor env (executor_run env w) = PollPending ex \<and>
    poll_executor env ex = PollReady (Inr out) ex'"
proof -
  define rs0 where "rs0 = root_scope_new (env_limits env) (single inst name) cp"
  have rl: "sc_limits (rs_root rs0) = l" "\<not> scope_is_active (rs_root rs0)" "sc_factory (rs_root rs0) = None"
    by (simp_all add: rs0_def root_scope_new_def rooted_at_def start(2) lim create_limits_def scope_is_active_def)
  then obtain rs where rs: "root_enter (env_now env w1) cp rs0 = Some rs" "sc_limits (rs_root rs) = l"
    "scope_is_active (rs_root rs)" "sc_entered_at (rs_root rs) = Some (env_now env w1)"
    by (simp add: root_enter_def scope_enter_def create_limits_def lim(2) scope_is_active_def)
  note simps = step_and_ctx_single [OF p] single_paths single_next p
  have run: "ex_cursor (executor_run env w) = Initializing (NotPolled (run_before_jobs env [[1]] cp))"
    "ex_shared (executor_run env w) = (w0, rs0)"
    by (simp_all add: executor_run_def start(1) simps rs0_def del: One_nat_def)
  have at: "scope_entered_at rs [1] = Some (env_now env w1)"
    by (simp add: scope_entered_at_def scope_of_def remove_leaf_def is_toplevel_def sp_depth_def rs(4))
  have init: "run_before_jobs env [[1]] cp (w0, rs0) = (0, Some ((w1, rs0), Inr cp))"
    by (simp add: simps rl before del: One_nat_def)
  have adv: "advance_cursor env [1] (Ok q) (w2, rs) = Some (Finalizing (finalize env (Inr out)), (w2, rs))"
    by (simp add: advance_cursor_def navigator_valid(1) [OF single_paths(1)] simps advance_to_def build del: One_nat_def)
  define ex where "ex = (executor_run env w)\<lparr>ex_cursor := Finalizing (finalize env (Inr out)), ex_shared := (w2, rs)\<rparr>"
  have first: "poll_executor env (executor_run env w) = PollPending ex"
    using init rs adv
    by (simp add: poll_executor_def poll_initializing_def run first_step_def simps nav_at_def poll_finalizing_def
        poll_before_step_def execute_step_def poll_step_in_progress_def at step ex_def del: One_nat_def)
  obtain ms where "job_metrics env (Inr out) = Some ms"
    using job_metrics_Some [OF payload_ok_simps(2) [OF wf, of q]] by (auto simp: build)
  with env_not_retained [OF wf] rs(3) obtain ex' where "poll_executor env ex = PollReady (Inr out) ex'"
    by (simp add: poll_executor_def poll_initializing_def ex_def poll_finalizing_def finalize_def
        simps rs(2) after root_is_active_def root_leave_def scope_leave_def del: One_nat_def)
  with first show ?thesis by blast
qed

text \<open>A sample job: one step that is pending once and then succeeds.\<close>

definition sample_step :: "payload_builder_error + unit \<Rightarrow> (unit, unit, nat) step_instance" where
  "sample_step init =
     \<lparr>si_step = (\<lambda>cp ctx w. (1, w, Ok cp)), si_before_job = (\<lambda>ctx w. (0, w, init)),
      si_after_job = (\<lambda>ctx out w. (0, w, Inr ()))\<rparr>"

definition sample_env ::
    "((unit, unit, nat) step_instance, unit limits_factory) pipeline \<Rightarrow> (unit, unit, nat) exec_env" where
  "sample_env p =
     \<lparr>env_pipeline = p, env_block = sample_block, env_limits = sample_platform,
      env_start = (\<lambda>w. (w, sample_root)), env_build = (\<lambda>cp. Inr (depth cp)),
      env_payload = (\<lambda>p. \<lparr>bp_fees = 21000000000000, bp_gas_used = 21000, bp_gas_limit = 30000000,
        bp_blob_gas_used = None, bp_tx_count = p, bp_number = 1, bp_hash = 7, bp_parent_hash = 99, bp_timestamp = 112\<rparr>),
      env_now = (\<lambda>w. 0), env_unix_secs = (\<lambda>w. 100), env_retained = (\<lambda>w. False)\<rparr>"

definition sample_job :: "payload_builder_error + unit \<Rightarrow> (unit, unit, nat) exec_env" where
  "sample_job init = sample_env (with_step (pipeline_named ''job'') (sample_step init))"

lemma sample_job_wf: "env_wf (sample_job init)"
  by (simp add: env_wf_def payload_ok_def sample_job_def sample_env_def with_step_def pipeline_named_def)

text \<open>
  Claim C1: the executor never panics. For a pipeline that is empty or has a step in every nested
  pipeline, no poll of a job, from its start until its output, reaches a failed \<open>expect\<close>, an
  \<open>unreachable\<close>, a scope assertion or an overflow of the metrics, whatever the steps return,
  provided the fees of its payload are below \<open>2 ^ 64\<close> wei and no step keeps the job's result.
\<close>

theorem executor_never_panics:
  assumes "env_wf env" "exec_reach env w ex"
  shows "poll_executor env ex \<noteq> PollPanic"
  using poll_executor_inv [OF assms(1) exec_reach_inv [OF assms(2,1)]] by simp

theorem executor_never_panics_witness:
  "poll_executor (sample_job (Inr ())) (executor_run (sample_job (Inr ())) ()) \<noteq> PollPanic"
  by (rule executor_never_panics [OF sample_job_wf reach_run])

lemma sample_job_single: "env_pipeline (sample_job init) = single (sample_step init) ''job''"
  by (simp add: sample_job_def sample_env_def with_step_def pipeline_named_def)

lemma sample_job_run:
  "ex_cursor (executor_run (sample_job init) ()) =
     Initializing (NotPolled (run_before_jobs (sample_job init) [[1]] sample_root))"
  "ex_shared (executor_run (sample_job init) ()) =
     ((), root_scope_new sample_platform (env_pipeline (sample_job init)) sample_root)"
  by (simp_all add: executor_run_def single_paths sample_job_single del: One_nat_def)
    (simp_all add: sample_job_def sample_env_def)

lemma sample_job_first_poll:
  "\<exists>ex. poll_executor (sample_job (Inr ())) (executor_run (sample_job (Inr ())) ()) = PollPending ex \<and>
     ex_cursor ex = StepInProgress [1] (Waiting 0 (Some (ex_shared ex, Ok sample_root)))"
proof -
  let ?env = "sample_job (Inr ())"
  define rs0 where "rs0 = root_scope_new sample_platform (env_pipeline ?env) sample_root"
  obtain rs where rs: "root_enter 0 sample_root rs0 = Some rs"
    using root_enter_ok [of sample_root sample_block 0 sample_root sample_platform "env_pipeline ?env"]
    by (auto simp: rs0_def)
  note simps = step_and_ctx_single [OF sample_job_single] single_paths
  note run = sample_job_run [of "Inr ()", folded rs0_def]
  have init: "run_before_jobs ?env [[1]] sample_root ((), rs0) = (0, Some (((), rs0), Inr sample_root))"
    by (simp add: simps del: One_nat_def) (simp add: sample_step_def)
  have now: "env_now ?env () = 0" by (simp add: sample_job_def sample_env_def)
  show ?thesis
    using init rs
    by (simp add: poll_executor_def poll_initializing_def run first_step_def simps nav_at_def poll_finalizing_def
        poll_before_step_def execute_step_def poll_step_in_progress_def now sample_job_single del: One_nat_def)
      (simp add: sample_step_def)
qed

text \<open>
  The bound on the fees is needed: a payload that was built with \<open>2 ^ 64\<close> wei of fees (about 18.4
  ether) or more makes the executor panic after all steps have run, in the conversion of the fees
  for the metric \<open>fees_total\<close>, and the payload is lost.
\<close>

lemma large_fees_panic:
  assumes "ex_cursor ex = Finalizing f" "poll_fut f (ex_shared ex) = Ready sh (Inr p)"
    and "2 ^ 64 \<le> unat (bp_fees (env_payload env p))"
  shows "poll_executor env ex = PollPanic"
  using assms
  by (simp add: poll_executor_def poll_initializing_def poll_finalizing_def job_metrics_def
      record_payload_def to_u64_def)

text \<open>
  The first step of a pipeline that begins with a nested pipeline runs outside the
  scope of that pipeline. Only the root scope is entered before it, so its context has no start
  time and its deadline never counts as reached, however long the step runs.
\<close>

theorem first_nested_step_has_no_deadline:
  assumes "env_wf env" "fresh_ok env rs" "inhabited (env_pipeline env)"
    and "length (first_of (env_pipeline env)) \<ge> 2"
    and "first_step env cp (w, rs) = Some (BeforeStep path input, (w', rs'))"
    and "step_and_ctx env rs' path (scope_entered_at rs' path) = Some (inst, ctx)"
  shows "path = first_of (env_pipeline env) \<and> ctx_started_at ctx = None \<and> \<not> deadline_reached now ctx"
proof -
  let ?p = "env_pipeline env"
  have sm: "small_pipeline ?p" using assms(1) by (simp add: env_wf_def)
  from assms(2) obtain cp0 where cp0: "cp_block cp0 = env_block env"
    "rs = root_scope_new (env_limits env) ?p cp0" by (auto simp: fresh_ok_def)
  from root_enter_ok [OF cp0(1), of "env_now env w" cp "env_limits env" ?p] assms(5)
    entrypoint_first [OF assms(3) sm]
  have path: "path = first_of ?p" and inv: "scope_inv (rs_root rs') []"
    by (auto simp: first_step_def nav_at_def cp0(2) scopes_ok_def)
  have v: "valid_path ?p path" using valid_first_of [OF assms(3) sm] path by simp
  have "length (butlast path) \<noteq> 0" using assms(4) unfolding length_butlast path by linarith
  then have ne: "take (length (butlast path)) [] \<noteq> butlast path" by (cases "butlast path") simp_all
  have "sc_entered_at t = None" if "scope_get (rs_root rs') (butlast path) = Some t" for t
    using inv own_get [OF that] ne unfolding scope_inv_def by blast
  then have "scope_entered_at rs' path = None"
    by (cases "scope_get (rs_root rs') (butlast path)")
      (simp_all add: scope_entered_at_def scope_of_valid [OF v])
  with assms(6) have "ctx_started_at ctx = None"
    by (auto simp: step_and_ctx_def split: option.splits)
  with path show ?thesis by (simp add: deadline_reached_def split: option.split)
qed

theorem first_nested_step_has_no_deadline_witness:
  "\<exists>rs' inst ctx. first_step (sample_env (with_pipeline (pipeline_named ''root'') Once
       (with_step (pipeline_named ''inner'') (sample_step (Inr ()))))) sample_root
     ((), root_scope_new sample_platform (with_pipeline (pipeline_named ''root'') Once
       (with_step (pipeline_named ''inner'') (sample_step (Inr ())))) sample_root) =
     Some (BeforeStep [1, 1] sample_root, ((), rs')) \<and>
   step_and_ctx (sample_env (with_pipeline (pipeline_named ''root'') Once
       (with_step (pipeline_named ''inner'') (sample_step (Inr ()))))) rs' [1, 1]
       (scope_entered_at rs' [1, 1]) = Some (inst, ctx) \<and> \<not> deadline_reached 1000000 ctx"
proof -
  define p :: "((unit, unit, nat) step_instance, unit limits_factory) pipeline" where
    "p = with_pipeline (pipeline_named ''root'') Once
    (with_step (pipeline_named ''inner'') (sample_step (Inr ())))"
  have p: "inhabited p" "small_pipeline p" "first_of p = [1, 1]" "valid_path p [1, 1]"
    by (simp_all add: p_def with_pipeline_def with_step_def pipeline_named_def index_defs)
  have env: "env_wf (sample_env p)" using p by (simp add: env_wf_def payload_ok_def sample_env_def)
  have sel: "env_pipeline (sample_env p) = p" "env_block (sample_env p) = sample_block"
    "env_limits (sample_env p) = sample_platform" "env_now (sample_env p) () = 0"
    by (simp_all add: sample_env_def)
  let ?rs = "root_scope_new sample_platform p sample_root"
  have fresh: "fresh_ok (sample_env p) ?rs"
    unfolding fresh_ok_def sel by (intro exI [of _ sample_root]) simp
  have blk: "cp_block sample_root = sample_block" by simp
  obtain rs' where rs': "root_enter 0 sample_root ?rs = Some rs'" "scopes_ok sample_platform p sample_block rs'"
    using root_enter_ok [OF blk, of 0 sample_root sample_platform p] by blast
  have fs: "first_step (sample_env p) sample_root ((), ?rs) = Some (BeforeStep [1, 1] sample_root, ((), rs'))"
    using entrypoint_first [OF p(1,2)] rs'(1) p(3) by (simp add: first_step_def sel nav_at_def)
  have "has_limits p rs'"
    using entered_has_limits [of "sample_env p" rs'] rs'(2) by (simp add: entered_ok_def sel)
  with step_and_ctx_Some [of "sample_env p" rs' "[1, 1]" "scope_entered_at rs' [1, 1]"] p(4)
  obtain inst ctx where ctx: "step_and_ctx (sample_env p) rs' [1, 1] (scope_entered_at rs' [1, 1]) = Some (inst, ctx)"
    by (auto simp: sel)
  have "\<not> deadline_reached 1000000 ctx"
    using first_nested_step_has_no_deadline [OF env fresh _ _ fs ctx] p by (simp add: sel)
  with fs ctx show ?thesis unfolding p_def by blast
qed

end
