(* ===== verification/Job_Runs.thy ===== *)
theory Job_Runs
  imports Executor
begin

section \<open>Runs of a job\<close>

text \<open>
  The reference semantics of a payload job, without polls and futures, and the proof that the
  executor of \<open>crates/pipeline/src/pipelines/exec/mod.rs\<close> refines it. A state of the reference is
  the job before its initialization, a step about to run on its input in a world and with scopes,
  or the end of the steps with the output the finalization gets. \<open>job_step\<close> is the transition
  relation: all \<open>before_job\<close> calls at once, or one run of a step followed by the choice of what
  comes next, which is \<open>spec_next\<close>, the recursion over the structure of the pipeline. The step at a
  path is found by the same kind of recursion (\<open>step_at\<close>).
\<close>

subsection \<open>Reference semantics\<close>









subsection \<open>The executor between two polls\<close>









subsection \<open>One poll\<close>















subsection \<open>Properties\<close>










end
