(* ===== verification/Scoped_Limits.thy ===== *)
theory Scoped_Limits
  imports Scope
begin

section \<open>Factories of scoped limits\<close>

text \<open>
  The factories \<open>Pipeline::with_limits\<close> accepts (\<open>crates/pipeline/src/pipelines/limits.rs\<close>): a
  function of the payload and the enclosing limits, limits that are fixed, and \<open>Scaled\<close> with its
  builder methods. Scaling itself is in Limits, the use of a factory by a scope in Scope. What is
  shown is the gas limit a chain of nested pipelines ends up with.
\<close>

subsection \<open>Factories\<close>

datatype 'c limits_source = SourceFactory "'c limits_factory" | SourceFixed limits | SourceScaled scaled

definition fixed_limits :: "limits \<Rightarrow> 'c limits_factory" where
  "fixed_limits l = (\<lambda>cp enclosing. l)"

definition scaled_limits :: "scaled \<Rightarrow> 'c limits_factory" where
  "scaled_limits s = (\<lambda>cp enclosing. scaled_from s enclosing)"

fun into_scoped_limits :: "'c limits_source \<Rightarrow> 'c limits_factory" where
  "into_scoped_limits (SourceFactory f) = f"
| "into_scoped_limits (SourceFixed l) = fixed_limits l"
| "into_scoped_limits (SourceScaled s) = scaled_limits s"

definition scaled_deadline :: "duration scale_op \<Rightarrow> scaled \<Rightarrow> scaled" where
  "scaled_deadline op s = s\<lparr>sc_deadline := Some op\<rparr>"

definition scaled_gas :: "u64 scale_op \<Rightarrow> scaled \<Rightarrow> scaled" where
  "scaled_gas op s = s\<lparr>sc_gas := Some op\<rparr>"

definition scaled_max_txs :: "u64 scale_op \<Rightarrow> scaled \<Rightarrow> scaled" where
  "scaled_max_txs op s = s\<lparr>sc_max_txs := Some op\<rparr>"

definition scaled_max_blobs :: "u64 scale_op \<Rightarrow> scaled \<Rightarrow> scaled" where
  "scaled_max_blobs op s = s\<lparr>sc_max_blob_count := Some op\<rparr>"

definition scaled_max_blobs_per_tx :: "u64 scale_op \<Rightarrow> scaled \<Rightarrow> scaled" where
  "scaled_max_blobs_per_tx op s = s\<lparr>sc_max_blobs_per_tx := Some op\<rparr>"

lemmas scaled_builder_defs = scaled_deadline_def scaled_gas_def scaled_max_txs_def scaled_max_blobs_def
  scaled_max_blobs_per_tx_def

subsection \<open>Nested pipelines\<close>

lemma scaled_from_gas:
  "gas_limit (scaled_from s l) = (case sc_gas s of Some op \<Rightarrow> apply_u64 op (gas_limit l) | None \<Rightarrow> gas_limit l)"
  by (simp add: scaled_from_def split: option.split)

text \<open>The order of the builder's calls matters only for calls of the same method, where the last wins.\<close>

lemma scaled_builder_order:
  "scaled_gas a (scaled_deadline b s) = scaled_deadline b (scaled_gas a s)"
  "scaled_gas a (scaled_max_txs n s) = scaled_max_txs n (scaled_gas a s)"
  "scaled_max_blobs m (scaled_max_blobs_per_tx n s) = scaled_max_blobs_per_tx n (scaled_max_blobs m s)"
  "scaled_gas a (scaled_gas c s) = scaled_gas a s"
  by (simp_all add: scaled_builder_defs)

text \<open>The limits of the pipelines on a path, from the outermost to the innermost.\<close>

fun nested_limits :: "'c checkpoint \<Rightarrow> 'c limits_source option list \<Rightarrow> limits \<Rightarrow> limits" where
  "nested_limits cp [] l = l"
| "nested_limits cp (src # srcs) l =
     nested_limits cp srcs (create_limits (map_option into_scoped_limits src) cp l)"

text \<open>The gas limit a source asks for.\<close>

fun wanted_gas :: "'c checkpoint \<Rightarrow> 'c limits_source option \<Rightarrow> limits \<Rightarrow> u64" where
  "wanted_gas cp None l = gas_limit l"
| "wanted_gas cp (Some src) l = gas_limit (into_scoped_limits src cp l)"

lemma create_gas:
  "gas_limit (create_limits (map_option into_scoped_limits src) cp l) = min (wanted_gas cp src l) (gas_limit l)"
  by (cases src) (simp_all add: create_limits_def clamp_def)

lemma nested_gas_le: "gas_limit (nested_limits cp srcs l) \<le> gas_limit l"
proof (induction srcs arbitrary: l)
  case (Cons src srcs)
  have "gas_limit (create_limits (map_option into_scoped_limits src) cp l) \<le> gas_limit l" by (simp add: create_gas)
  with Cons [of "create_limits (map_option into_scoped_limits src) cp l"] show ?case by simp
qed simp

text \<open>A pipeline's own gas limit bounds every pipeline inside it, whatever the inner ones ask for.\<close>

theorem outer_gas_bounds_inner:
  "gas_limit (nested_limits cp (outer @ src # srcs) l) \<le>
     min (wanted_gas cp src (nested_limits cp outer l)) (gas_limit (nested_limits cp outer l))"
proof (induction outer arbitrary: l)
  case Nil
  show ?case
    using nested_gas_le [of cp srcs "create_limits (map_option into_scoped_limits src) cp l"] by (simp add: create_gas)
qed simp

text \<open>Nested fractions of at most one multiply, each rounded down, while the products fit.\<close>

theorem nested_fraction_gas:
  assumes "unat n \<le> unat d" "d \<noteq> 0" "unat (gas_limit l) * unat n < 2 ^ 64"
  shows "unat (gas_limit (nested_limits cp [Some (SourceScaled (scaled_gas (Fraction n d) s))] l)) =
    unat (gas_limit l) * unat n div unat d"
proof -
  have le: "apply_u64 (Fraction n d) (gas_limit l) \<le> gas_limit l"
    using assms(1,2) by (simp add: apply_Fraction_le del: apply_u64.simps)
  have "gas_limit (nested_limits cp [Some (SourceScaled (scaled_gas (Fraction n d) s))] l) =
      apply_u64 (Fraction n d) (gas_limit l)"
    using le unfolding nested_limits.simps create_gas
    by (simp add: scaled_limits_def scaled_from_gas scaled_gas_def min_def del: apply_u64.simps)
  then show ?thesis using assms(3) by (simp add: unat_apply_Fraction del: apply_u64.simps)
qed

end
