(* ===== verification/Printing.thy ===== *)
theory Printing
  imports Pipelines
begin

section \<open>Printed numbers, step paths and type names\<close>

text \<open>
  What the pipelines print: numbers, the \<open>Display\<close> of a \<open>StepPath\<close>
  (\<open>crates/pipeline/src/pipelines/exec/navi.rs\<close>), the name of a pipeline without a name
  (\<open>pipelines/metrics.rs\<close>) and the short name of a step's type (\<open>pipelines/step/name.rs\<close>). The
  printed paths become names of metrics, so they are shown to be different for different paths.
\<close>

subsection \<open>Numbers\<close>

text \<open>\<open>format!\<close> of a number.\<close>

fun decimal :: "nat \<Rightarrow> string" where
  "decimal n = (if n < 10 then [char_of (48 + n)] else decimal (n div 10) @ [char_of (48 + n mod 10)])"

declare decimal.simps [simp del]

definition read_decimal :: "string \<Rightarrow> nat" where
  "read_decimal cs = foldl (\<lambda>n c. 10 * n + (of_char c - 48)) 0 cs"

definition digit :: "char \<Rightarrow> bool" where
  "digit c \<longleftrightarrow> 48 \<le> (of_char c :: nat) \<and> (of_char c :: nat) \<le> 57"

lemma of_char_digit: "n < 10 \<Longrightarrow> (of_char (char_of (48 + n :: nat)) :: nat) = 48 + n"
  by (simp add: of_char_of)

lemma read_decimal_snoc [simp]: "read_decimal (cs @ [c]) = 10 * read_decimal cs + (of_char c - 48)"
  by (simp add: read_decimal_def)

lemma read_decimal_decimal [simp]: "read_decimal (decimal n) = n"
proof (induction n rule: decimal.induct)
  case (1 n)
  show ?case
  proof (cases "n < 10")
    case True
    then have "decimal n = [] @ [char_of (48 + n)]" by (simp add: decimal.simps)
    then show ?thesis using True by (simp only: read_decimal_snoc of_char_digit) (simp add: read_decimal_def)
  next
    case False
    then have "decimal n = decimal (n div 10) @ [char_of (48 + n mod 10)]" by (simp add: decimal.simps)
    with 1 [OF False] show ?thesis by (simp add: of_char_digit)
  qed
qed

lemma digits_decimal: "c \<in> set (decimal n) \<Longrightarrow> digit c"
proof (induction n rule: decimal.induct)
  case (1 n)
  then show ?case
    by (cases "n < 10") (auto simp: decimal.simps [of n] digit_def of_char_digit)
qed

lemma decimal_nonempty [simp]: "decimal n \<noteq> []"
  by (subst decimal.simps) simp

subsection \<open>Step paths\<close>

definition index_text :: "nat \<Rightarrow> string" where
  "index_text i =
     (if i = PROLOGUE_INDEX then ''p'' else if i = EPILOGUE_INDEX then ''e'' else decimal i)"

fun path_text :: "step_path \<Rightarrow> string" where
  "path_text [] = []"
| "path_text (i # rest) = index_text i @ concat (map (\<lambda>j. CHR ''_'' # index_text j) rest)"

text \<open>Reading a printed path back.\<close>

fun split_on :: "char \<Rightarrow> string \<Rightarrow> string list" where
  "split_on d [] = [[]]"
| "split_on d (c # cs) =
     (if c = d then [] # split_on d cs
      else (case split_on d cs of [] \<Rightarrow> [[c]] | w # ws \<Rightarrow> (c # w) # ws))"

definition read_index :: "string \<Rightarrow> nat" where
  "read_index s = (if s = ''p'' then PROLOGUE_INDEX else if s = ''e'' then EPILOGUE_INDEX else read_decimal s)"

definition read_path :: "string \<Rightarrow> step_path" where
  "read_path s = map read_index (split_on (CHR ''_'') s)"

lemma split_on_word:
  "d \<notin> set w \<Longrightarrow> split_on d (w @ d # cs) = w # split_on d cs"
  "d \<notin> set w \<Longrightarrow> split_on d w = [w]"
  by (induction w) auto

lemma index_text_plain: "CHR ''_'' \<notin> set (index_text i)"
  using digits_decimal [of "CHR ''_''" i] by (auto simp: index_text_def digit_def)

lemma read_index_text [simp]: "read_index (index_text i) = i"
proof -
  have "decimal i \<noteq> ''p''" "decimal i \<noteq> ''e''"
    using digits_decimal [of "CHR ''p''" i] digits_decimal [of "CHR ''e''" i] by (auto simp: digit_def)
  then show ?thesis by (simp add: read_index_def index_text_def)
qed

lemma split_path_text:
  "split_on (CHR ''_'') (index_text i @ concat (map (\<lambda>j. CHR ''_'' # index_text j) rest)) =
     index_text i # map index_text rest"
  by (induction rest arbitrary: i) (simp_all add: split_on_word index_text_plain)

lemma read_path_text: "path \<noteq> [] \<Longrightarrow> read_path (path_text path) = path"
  by (cases path) (simp_all add: read_path_def split_path_text comp_def)

text \<open>
  Claim C40: a printed step path can be read back, so two steps of a pipeline never print alike. The
  path is not empty, which holds for every path of a step.
\<close>

theorem path_text_roundtrip:
  assumes "path \<noteq> []"
  shows "read_path (path_text path) = path"
  using assms by (rule read_path_text)

theorem path_text_roundtrip_witness:
  "path_text [1, 0, 12, EPILOGUE_INDEX] = ''1_p_12_e'' \<and> read_path ''1_p_12_e'' = [1, 0, 12, EPILOGUE_INDEX]"
proof -
  have "path_text [1, 0, 12, EPILOGUE_INDEX] = ''1_p_12_e''"
    by (simp add: index_text_def decimal.simps char_of_def bit_0 PROLOGUE_INDEX_def EPILOGUE_INDEX_def)
  with path_text_roundtrip [of "[1, 0, 12, EPILOGUE_INDEX]"] show ?thesis by simp
qed

subsection \<open>Names of pipelines\<close>

text \<open>\<open>Path::file_name\<close> and \<open>str::trim_end_matches\<close>.\<close>

definition file_name :: "string \<Rightarrow> string option" where
  "file_name path =
     (case rev (filter (\<lambda>c. c \<noteq> [] \<and> c \<noteq> ''.'') (split_on (CHR ''/'') path)) of
        [] \<Rightarrow> None
      | c # cs \<Rightarrow> if c = ''..'' then None else Some c)"

fun strip_rs :: "string \<Rightarrow> string" where
  "strip_rs (s # r # d # rest) =
     (if s = CHR ''s'' \<and> r = CHR ''r'' \<and> d = CHR ''.'' then strip_rs rest else s # r # d # rest)"
| "strip_rs cs = cs"

definition trim_end_rs :: "string \<Rightarrow> string" where
  "trim_end_rs s = rev (strip_rs (rev s))"

text \<open>A caller's location is its file and its line; a panic is \<open>None\<close>.\<close>

definition auto_pipeline_name :: "string \<Rightarrow> u32 \<Rightarrow> string option" where
  "auto_pipeline_name caller_file caller_line =
     map_option (\<lambda>file. trim_end_rs file @ CHR ''_'' # decimal (unat caller_line)) (file_name caller_file)"

lemma auto_pipeline_name_sample: "auto_pipeline_name ''src/bin/main.rs'' 42 = Some ''main_42''"
  by (simp add: auto_pipeline_name_def file_name_def trim_end_rs_def decimal.simps char_of_def bit_0)

text \<open>\<open>Pipeline::default\<close>, which takes its name from the caller, \<open>with_name\<close> and \<open>Display\<close>.\<close>

definition pipeline_default :: "string \<Rightarrow> u32 \<Rightarrow> ('s, 'l) pipeline option" where
  "pipeline_default caller_file caller_line =
     map_option (Pipeline None None [] None) (auto_pipeline_name caller_file caller_line)"

text \<open>
  What converts into a pipeline (\<open>IntoPipeline\<close>): a pipeline, a function of the default pipeline, or
  steps.
\<close>

datatype ('s, 'l) pipeline_source =
    FromPipeline "('s, 'l) pipeline"
  | FromFunction "('s, 'l) pipeline \<Rightarrow> ('s, 'l) pipeline"
  | FromSteps "'s list"

definition into_pipeline :: "string \<Rightarrow> u32 \<Rightarrow> ('s, 'l) pipeline_source \<Rightarrow> ('s, 'l) pipeline option" where
  "into_pipeline caller_file caller_line src =
     (case src of
        FromPipeline p \<Rightarrow> Some p
      | FromFunction f \<Rightarrow> map_option f (pipeline_default caller_file caller_line)
      | FromSteps ss \<Rightarrow> map_option (fold (\<lambda>s p. with_step p s) ss) (pipeline_default caller_file caller_line))"

definition with_name :: "string \<Rightarrow> ('s, 'l) pipeline \<Rightarrow> ('s, 'l) pipeline" where
  "with_name name p = (case p of Pipeline pro epi items l _ \<Rightarrow> Pipeline pro epi items l name)"

definition pipeline_display :: "('s, 'l) pipeline \<Rightarrow> string" where
  "pipeline_display p =
     (case p of Pipeline pro epi items l name \<Rightarrow>
        ''Pipeline(name='' @ name @ '', '' @ decimal (length items) @ '' steps)'')"

lemma into_pipeline_steps:
  "into_pipeline caller_file caller_line (FromSteps ss) =
     map_option (Pipeline None None (map Step ss) None) (auto_pipeline_name caller_file caller_line)"
proof -
  have "fold (\<lambda>s p. with_step p s) ss (Pipeline None None items None name) =
      Pipeline None None (items @ map Step ss) None name" for items :: "('a, 'b) step_or_pipeline list" and name
    by (induction ss arbitrary: items) (simp_all add: with_step_def)
  then show ?thesis by (simp add: into_pipeline_def pipeline_default_def option.map_comp comp_def)
qed

subsection \<open>Short names of types\<close>

definition type_delims :: "char set" where
  "type_delims = {CHR ''<'', CHR ''>'', CHR ''('', CHR '')'', CHR ''['', CHR '']'', CHR '','', CHR '';''}"

definition spaced_delims :: "char set" where
  "spaced_delims = {CHR '','', CHR '';''}"

text \<open>\<open>path.rsplit(':').next().unwrap()\<close>\<close>

definition last_component :: "string \<Rightarrow> string" where
  "last_component path = last (split_on (CHR '':'') path)"

lemma dropWhile_shorter: "dropWhile p xs = c # rest \<Longrightarrow> length rest < length xs"
  by (induction xs) (auto split: if_splits)

text \<open>
  The loop over the delimiters. Names are ASCII, so a character is a byte; slicing beyond the end
  of the string is a panic, \<open>None\<close>.
\<close>

function short_type_name :: "string \<Rightarrow> string option" where
  "short_type_name full_name =
     (case dropWhile (\<lambda>c. c \<notin> type_delims) full_name of
        [] \<Rightarrow> Some (if full_name = [] then [] else last_component full_name)
      | c # rest \<Rightarrow>
          let path = takeWhile (\<lambda>c. c \<notin> type_delims) full_name in
          if c \<in> spaced_delims then
            (case rest of
               [] \<Rightarrow> None
             | _ # rest' \<Rightarrow>
                 map_option (\<lambda>short. last_component path @ [c, CHR '' ''] @ short) (short_type_name rest'))
          else map_option (\<lambda>short. last_component path @ [c] @ short) (short_type_name rest))"
  by pat_completeness auto

termination
  by (relation "measure length") (auto dest: dropWhile_shorter)

declare short_type_name.simps [simp del]

text \<open>
  The names \<open>type_name\<close> gives, as far as they are paths with arguments, tuples, slices and arrays,
  and what a short name is meant to be: the same name with every path cut to its last segment.
\<close>

datatype type_expr =
    TypePath "string list" "type_expr list"
  | TupleType "type_expr list"
  | SliceType type_expr
  | ArrayType type_expr nat

fun joined :: "string \<Rightarrow> string list \<Rightarrow> string" where
  "joined sep [] = []"
| "joined sep [w] = w"
| "joined sep (w # ws) = w @ sep @ joined sep ws"

fun render :: "type_expr \<Rightarrow> string" where
  "render (TypePath segs args) =
     joined ''::'' segs @ (if args = [] then [] else ''<'' @ joined '', '' (map render args) @ ''>'')"
| "render (TupleType ts) = ''('' @ joined '', '' (map render ts) @ '')''"
| "render (SliceType t) = ''['' @ render t @ '']''"
| "render (ArrayType t n) = ''['' @ render t @ ''; '' @ decimal n @ '']''"

fun shortened :: "type_expr \<Rightarrow> type_expr" where
  "shortened (TypePath segs args) = TypePath [last segs] (map shortened args)"
| "shortened (TupleType ts) = TupleType (map shortened ts)"
| "shortened (SliceType t) = SliceType (shortened t)"
| "shortened (ArrayType t n) = ArrayType (shortened t) n"

fun type_wf :: "type_expr \<Rightarrow> bool" where
  "type_wf (TypePath segs args) \<longleftrightarrow>
     segs \<noteq> [] \<and> list_all (\<lambda>w. list_all (\<lambda>c. c \<notin> type_delims \<and> c \<noteq> CHR '':'') w) segs \<and> list_all type_wf args"
| "type_wf (TupleType ts) \<longleftrightarrow> length ts \<noteq> 1 \<and> list_all type_wf ts"
| "type_wf (SliceType t) \<longleftrightarrow> type_wf t"
| "type_wf (ArrayType t n) \<longleftrightarrow> type_wf t"

lemma last_component_plain: "CHR '':'' \<notin> set w \<Longrightarrow> last_component w = w"
  by (simp add: last_component_def split_on_word)

lemma split_on_nonempty [simp]: "split_on d cs \<noteq> []"
  by (induction cs) (auto split: list.splits)

lemma split_on_append: "split_on d (w @ d # rest) = split_on d w @ split_on d rest"
proof (induction w)
  case (Cons c w)
  then show ?case by (cases "split_on d w") simp_all
qed simp

lemma last_component_colon: "last_component (w @ CHR '':'' # rest) = last_component rest"
  by (simp add: last_component_def split_on_append)

lemma last_component_joined:
  assumes "segs \<noteq> []" "\<forall>w \<in> set segs. CHR '':'' \<notin> set w"
  shows "last_component (joined ''::'' segs) = last segs"
  using assms
proof (induction segs rule: induct_list012)
  case (3 w v ws)
  have "last_component (w @ ''::'' @ joined ''::'' (v # ws)) = last_component (joined ''::'' (v # ws))"
    using last_component_colon [of w "CHR '':'' # joined ''::'' (v # ws)"]
      last_component_colon [of "[]" "joined ''::'' (v # ws)"] by simp
  with 3 show ?case by simp
qed (simp_all add: last_component_plain)

text \<open>The three ways in which the loop goes on.\<close>

lemma short_word:
  assumes "\<forall>c \<in> set w. c \<notin> type_delims" "rest = [] \<or> hd rest \<in> type_delims"
  shows "short_type_name (w @ rest) = map_option ((@) (last_component w)) (short_type_name rest)"
proof (cases rest)
  case Nil
  have w: "dropWhile (\<lambda>c. c \<notin> type_delims) w = []" using assms(1) by simp
  have "short_type_name w = Some (last_component w)"
    by (simp only: short_type_name.simps [of w] w) (simp add: last_component_plain)
  then show ?thesis using Nil by (simp add: short_type_name.simps [of "[]"])
next
  case (Cons c cs)
  with assms have *: "dropWhile (\<lambda>c. c \<notin> type_delims) (w @ rest) = c # cs"
      "takeWhile (\<lambda>c. c \<notin> type_delims) (w @ rest) = w" and c: "c \<in> type_delims"
    by (simp_all add: takeWhile_append)
  show ?thesis
    using c
    by (simp only: short_type_name.simps [of "w @ rest"] * short_type_name.simps [of rest])
      (simp add: Cons last_component_plain option.map_comp comp_def split: list.split)
qed

lemma short_bracket:
  assumes "c \<in> type_delims" "c \<notin> spaced_delims"
  shows "short_type_name (c # rest) = map_option ((#) c) (short_type_name rest)"
  using assms by (subst short_type_name.simps) (simp add: last_component_plain)

lemma short_separator:
  assumes "c \<in> spaced_delims"
  shows "short_type_name (c # d # rest) = map_option (\<lambda>t. c # CHR '' '' # t) (short_type_name rest)"
proof -
  have "c \<in> type_delims" using assms by (auto simp: spaced_delims_def type_delims_def)
  with assms show ?thesis by (subst short_type_name.simps) (simp add: last_component_plain)
qed

lemmas short_steps = short_bracket short_separator type_delims_def spaced_delims_def

lemma decimal_plain: "c \<in> set (decimal n) \<Longrightarrow> c \<notin> type_delims" "c \<in> set (decimal n) \<Longrightarrow> c \<noteq> CHR '':''"
  using digits_decimal [of c n] by (auto simp: digit_def type_delims_def)

lemma last_component_decimal: "last_component (decimal n) = decimal n"
  using decimal_plain(2) [of "CHR '':''" n] by (auto intro: last_component_plain)

lemma joined_plain:
  "\<forall>w \<in> set segs. \<forall>c \<in> set w. c \<notin> type_delims \<and> c \<noteq> CHR '':'' \<Longrightarrow> c \<in> set (joined ''::'' segs) \<Longrightarrow> c \<notin> type_delims"
  by (induction segs rule: induct_list012) (auto simp: type_delims_def)

lemma short_path:
  assumes "segs \<noteq> []" "\<forall>w \<in> set segs. \<forall>c \<in> set w. c \<notin> type_delims \<and> c \<noteq> CHR '':''"
    and "rest = [] \<or> hd rest \<in> type_delims"
  shows "short_type_name (joined ''::'' segs @ rest) = map_option ((@) (last segs)) (short_type_name rest)"
  using short_word [of "joined ''::'' segs" rest] joined_plain [OF assms(2)] assms
    last_component_joined [OF assms(1)] by fastforce

lemma short_joined:
  assumes "\<forall>t \<in> set ts. \<forall>rest. rest = [] \<or> hd rest \<in> type_delims \<longrightarrow>
      short_type_name (render t @ rest) = map_option ((@) (render (shortened t))) (short_type_name rest)"
    and "rest \<noteq> []" "hd rest \<in> type_delims"
  shows "short_type_name (joined '', '' (map render ts) @ rest) =
    map_option ((@) (joined '', '' (map (\<lambda>t. render (shortened t)) ts))) (short_type_name rest)"
  using assms(1)
proof (induction ts rule: induct_list012)
  case 1
  then show ?case by (simp add: option.map_ident)
next
  case (2 t)
  with assms(3) show ?case by simp
next
  case (3 t u us)
  then have "short_type_name (render t @ CHR '','' # CHR '' '' # (joined '', '' (map render (u # us)) @ rest)) =
      map_option ((@) (render (shortened t)))
        (short_type_name (CHR '','' # CHR '' '' # (joined '', '' (map render (u # us)) @ rest)))"
    by (simp add: type_delims_def)
  with 3 show ?case by (simp add: short_steps option.map_comp comp_def)
qed

lemma short_render:
  "type_wf t \<Longrightarrow> rest = [] \<or> hd rest \<in> type_delims \<Longrightarrow>
     short_type_name (render t @ rest) = map_option ((@) (render (shortened t))) (short_type_name rest)"
proof (induction t arbitrary: rest)
  case (TypePath segs args)
  have segs: "segs \<noteq> []" "\<forall>w \<in> set segs. \<forall>c \<in> set w. c \<notin> type_delims \<and> c \<noteq> CHR '':''"
    using TypePath.prems(1) by (auto simp: list_all_iff)
  show ?case
  proof (cases "args = []")
    case True
    with short_path [OF segs TypePath.prems(2)] show ?thesis by simp
  next
    case False
    have "\<forall>t \<in> set args. \<forall>rest. rest = [] \<or> hd rest \<in> type_delims \<longrightarrow>
        short_type_name (render t @ rest) = map_option ((@) (render (shortened t))) (short_type_name rest)"
      using TypePath by (auto simp: list_all_iff)
    from short_joined [OF this, of "CHR ''>'' # rest"] False
      short_path [OF segs, of "CHR ''<'' # joined '', '' (map render args) @ CHR ''>'' # rest"]
    show ?thesis by (simp add: short_steps option.map_comp comp_def)
  qed
next
  case (TupleType ts)
  have "\<forall>t \<in> set ts. \<forall>rest. rest = [] \<or> hd rest \<in> type_delims \<longrightarrow>
      short_type_name (render t @ rest) = map_option ((@) (render (shortened t))) (short_type_name rest)"
    using TupleType by (auto simp: list_all_iff)
  from short_joined [OF this, of "CHR '')'' # rest"] show ?case
    by (simp add: short_steps option.map_comp comp_def)
next
  case (SliceType t)
  from SliceType.IH [of "CHR '']'' # rest"] SliceType.prems show ?case
    by (simp add: short_steps option.map_comp comp_def)
next
  case (ArrayType t n)
  have "short_type_name (decimal n @ CHR '']'' # rest) = map_option ((@) (decimal n)) (short_type_name (CHR '']'' # rest))"
    using short_word [of "decimal n" "CHR '']'' # rest"] decimal_plain(1) [of _ n]
    by (auto simp: type_delims_def last_component_decimal)
  with ArrayType.IH [of "CHR '';'' # CHR '' '' # decimal n @ CHR '']'' # rest"] ArrayType.prems show ?case
    by (simp add: short_steps option.map_comp comp_def)
qed

text \<open>
  The short name of a step's type is the type's name with every path in it, also those of
  its arguments, cut to its last segment. This covers paths with arguments, tuples other than
  those of one element, slices and arrays.
\<close>

theorem short_type_name_shortens_paths:
  assumes "type_wf t"
  shows "short_type_name (render t) = Some (render (shortened t))"
  using short_render [OF assms, of "[]"] by (simp add: short_type_name.simps [of "[]"])

theorem short_type_name_shortens_paths_witness:
  "short_type_name ''rblib::steps::AppendOrders<rblib::Ethereum, (u8, [core::Foo; 4])>'' =
     Some ''AppendOrders<Ethereum, (u8, [Foo; 4])>''"
proof -
  let ?t = "TypePath [''rblib'', ''steps'', ''AppendOrders'']
    [TypePath [''rblib'', ''Ethereum''] [], TupleType [TypePath [''u8''] [], ArrayType (TypePath [''core'', ''Foo''] []) 4]]"
  have "render ?t = ''rblib::steps::AppendOrders<rblib::Ethereum, (u8, [core::Foo; 4])>''"
    "render (shortened ?t) = ''AppendOrders<Ethereum, (u8, [Foo; 4])>''"
    by (simp_all add: decimal.simps char_of_def bit_0)
  moreover have "type_wf ?t" by (simp add: type_delims_def)
  ultimately show ?thesis using short_type_name_shortens_paths [of ?t] by simp
qed

text \<open>
  In the name of a tuple of one element the comma is not followed by a space. The two characters
  that are skipped are then the comma and the closing parenthesis, which is lost.
\<close>

lemma short_name_of_single_tuple: "short_type_name ''(core::Foo,)'' = Some ''(Foo, ''"
  by (simp add: short_type_name.simps type_delims_def spaced_delims_def last_component_def)

end
