(* ===== verification/Displays.thy ===== *)
theory Displays
  imports Printing Checkpoints
begin

section \<open>Printed checkpoints\<close>

text \<open>
  \<open>Display\<close> of a checkpoint (\<open>crates/core/src/payload/checkpoint.rs\<close>) and of a span
  (\<open>span.rs\<close>). How a context and a hash are printed are parameters. Printing a transaction reads
  its first result by an index, which panics when there is none: \<open>None\<close>.
\<close>

fun outcome_text :: "tx_exec_result \<Rightarrow> string" where
  "outcome_text (Success g) = ''success''"
| "outcome_text (Revert g) = ''revert''"
| "outcome_text (Halt r g) = ''halt''"

definition checkpoint_display :: "('c \<Rightarrow> string) \<Rightarrow> (b256 \<Rightarrow> string) \<Rightarrow> 'c checkpoint \<Rightarrow> string option" where
  "checkpoint_display show_ctx show_hash cp =
     (let tag = ''['' @ decimal (depth cp) @ ''] ''; gas = decimal (unat (gas_used cp)) in
      case mutation cp of
        Barrier \<Rightarrow>
          if depth cp = 0 then Some (tag @ ''initial'')
          else Some (tag @ ''barrier, context='' @ show_ctx (cp_context cp))
      | Executable r \<Rightarrow>
          (case source r of
             Transaction tx \<Rightarrow>
               map_option (\<lambda>out. tag @ ''tx '' @ show_hash (tx_hash tx) @ '' ('' @ outcome_text out @ '', '' @ gas @ '' gas)'')
                 (list_get (results r) 0)
           | Bundle b \<Rightarrow>
               Some (tag @ ''(bundle '' @ decimal (length (bundle_transactions b)) @ '' txs, '' @ gas @
                     '' gas) metadata='' @ show_ctx (cp_context cp))))"

definition span_display :: "'c span \<Rightarrow> string option" where
  "span_display s =
     (if s = [] then Some ''[empty]''
      else case (span_first s, span_last s) of
        (Some a, Some z) \<Rightarrow>
          Some (''[checkpoints '' @ decimal (depth a) @ ''-'' @ decimal (depth z) @ '' / '' @
                decimal (length (span_transactions s)) @ '' txs] ('' @ decimal (unat (span_gas_used s)) @ '' gas, '' @
                decimal (unat (span_blob_gas_used s)) @ '' blob gas)'')
      | _ \<Rightarrow> None)"

text \<open>The \<open>unwrap\<close>s of the span's ends never fail.\<close>

lemma span_display_total: "\<exists>t. span_display s = Some t"
  by (cases s) (auto simp: span_display_def span_first_def span_last_def)

text \<open>A checkpoint that was made by an execution, or is a barrier, can be printed.\<close>

lemma execute_transaction_results:
  "execute block db ex = Inr r \<Longrightarrow> source r = Transaction tx \<Longrightarrow> results r \<noteq> []"
  by (cases ex) (auto simp: execute_bundle_Inr run_result_def execute_transaction_def result_simps)

theorem checkpoint_display_total:
  assumes "cp_apply addr now p ex = Inr cp \<or> is_barrier cp"
  shows "\<exists>t. checkpoint_display show_ctx show_hash cp = Some t"
proof (cases "mutation cp")
  case Barrier
  then show ?thesis by (simp add: checkpoint_display_def Let_def)
next
  case (Executable r)
  with assms obtain e where "execute (cp_block p) (checkpoint_db p) e = Inr r"
    by (auto simp: cp_apply_def apply_with_def is_barrier_def result_simps)
  from execute_transaction_results [OF this] Executable show ?thesis
    by (auto simp: checkpoint_display_def Let_def list_get_def split: executable.split)
qed

text \<open>The tag of a printed checkpoint determines its depth.\<close>

lemma checkpoint_display_depth:
  assumes "checkpoint_display show_ctx show_hash cp = Some t"
  shows "read_decimal (takeWhile digit (tl t)) = depth cp"
proof -
  from assms obtain rest where "t = ''['' @ decimal (depth cp) @ '']'' @ rest"
    by (auto simp: checkpoint_display_def Let_def split: mutation.splits executable.splits if_splits)
  then show ?thesis using digits_decimal [of _ "depth cp"] by (simp add: takeWhile_append digit_def)
qed

end
