(* ===== verification/Combinators.thy ===== *)
theory Combinators
  imports Executor
begin

section \<open>Step combinators\<close>

text \<open>
  \<open>crates/pipeline/src/steps/combinator\<close>: \<open>Chain\<close> runs its steps one after the other and
  stops at the first that does not return \<open>Ok\<close>; \<open>Atomic\<close> does the same and gives the initial
  checkpoint back when it stops early. A combinator is the list of its steps, the code's
  \<open>Vec<Arc<StepInstance>>\<close>. Awaiting a step is \<open>async_bind\<close>: its pending polls add up and it
  hands on the world, from which the clock \<open>now\<close> of the deadline checks is read. Both
  combinators are steps themselves, so they nest.

  The \<open>setup\<close> hook is not part of \<open>step_instance\<close>; its loops take the setup functions of the
  steps. The macros \<open>chain\<close> and \<open>atomic\<close> only write a sequence of \<open>then\<close> and \<open>and\<close> calls.
\<close>

subsection \<open>Awaiting\<close>

definition async_return :: "'a \<Rightarrow> ('w, 'a) async" where
  "async_return a w = (0, w, a)"

definition async_bind :: "('w, 'a) async \<Rightarrow> ('a \<Rightarrow> ('w, 'b) async) \<Rightarrow> ('w, 'b) async" where
  "async_bind f g w = (case f w of (n, w', a) \<Rightarrow> case g a w' of (m, w'', b) \<Rightarrow> (n + m, w'', b))"

lemma async_return_bind [simp]: "async_bind (async_return a) g = g a"
  by (rule ext) (simp add: async_bind_def async_return_def split: prod.split)

lemma async_bind_return [simp]: "async_bind f async_return = f"
  by (rule ext) (simp add: async_bind_def async_return_def split: prod.split)

lemma async_bind_assoc: "async_bind (async_bind f g) h = async_bind f (\<lambda>a. async_bind (g a) h)"
  by (rule ext) (simp add: async_bind_def split: prod.split)

subsection \<open>Construction\<close>

type_synonym ('c, 'w, 'p) steps = "('c, 'w, 'p) step_instance list"

definition into_steps :: "('c, 'w, 'p) step_instance \<Rightarrow> ('c, 'w, 'p) steps" where
  "into_steps s = [s]"

definition combinator_of :: "('c, 'w, 'p) step_instance \<Rightarrow> ('c, 'w, 'p) steps" where
  "combinator_of s = into_steps s"

definition combinator_append ::
    "('c, 'w, 'p) steps \<Rightarrow> ('c, 'w, 'p) step_instance \<Rightarrow> ('c, 'w, 'p) steps" where
  "combinator_append c other = c @ into_steps other"

subsection \<open>Hooks\<close>

text \<open>A loop of awaited hooks with the question mark operator: it ends at the first error.\<close>

fun run_hooks :: "('i \<Rightarrow> ('w, 'e + unit) async) \<Rightarrow> 'i list \<Rightarrow> ('w, 'e + unit) async" where
  "run_hooks hook [] = async_return (Inr ())"
| "run_hooks hook (s # ss) =
     async_bind (hook s) (\<lambda>r. case r of Inl e \<Rightarrow> async_return (Inl e) | Inr u \<Rightarrow> run_hooks hook ss)"

definition chain_before_job ::
    "('c, 'w, 'p) steps \<Rightarrow> step_context \<Rightarrow> ('w, payload_builder_error + unit) async" where
  "chain_before_job ss ctx = run_hooks (\<lambda>s. si_before_job s ctx) ss"

definition chain_after_job ::
    "('c, 'w, 'p) steps \<Rightarrow> step_context \<Rightarrow> payload_builder_error + 'p \<Rightarrow>
     ('w, payload_builder_error + unit) async" where
  "chain_after_job ss ctx result = run_hooks (\<lambda>s. si_after_job s ctx result) ss"

definition chain_setup ::
    "('i \<Rightarrow> ('w, payload_builder_error + unit) async) list \<Rightarrow> 'i \<Rightarrow> ('w, payload_builder_error + unit) async" where
  "chain_setup setups init = run_hooks (\<lambda>setup. setup init) setups"

definition atomic_setup ::
    "('i \<Rightarrow> ('w, payload_builder_error + unit) async) list \<Rightarrow> 'i \<Rightarrow> ('w, payload_builder_error + unit) async" where
  "atomic_setup setups init = run_hooks (\<lambda>setup. setup init) setups"

definition atomic_before_job ::
    "('c, 'w, 'p) steps \<Rightarrow> step_context \<Rightarrow> ('w, payload_builder_error + unit) async" where
  "atomic_before_job ss ctx = run_hooks (\<lambda>s. si_before_job s ctx) ss"

definition atomic_after_job ::
    "('c, 'w, 'p) steps \<Rightarrow> step_context \<Rightarrow> payload_builder_error + 'p \<Rightarrow>
     ('w, payload_builder_error + unit) async" where
  "atomic_after_job ss ctx result = run_hooks (\<lambda>s. si_after_job s ctx result) ss"

subsection \<open>Chain\<close>

fun chain_step ::
    "('w \<Rightarrow> nat) \<Rightarrow> ('c, 'w, 'p) steps \<Rightarrow> 'c checkpoint \<Rightarrow> step_context \<Rightarrow> ('w, 'c control_flow) async"
where
  "chain_step now [] current ctx w =
     (if deadline_reached (now w) ctx then (0, w, Break current) else (0, w, Ok current))"
| "chain_step now (s # ss) current ctx w =
     (if deadline_reached (now w) ctx then (0, w, Break current)
      else async_bind (si_step s current ctx) (\<lambda>r.
        case r of
          Ok nxt \<Rightarrow> chain_step now ss nxt ctx
        | Break nxt \<Rightarrow> async_return (Break nxt)
        | Fail err \<Rightarrow> async_return (Fail err)) w)"

definition chain :: "('w \<Rightarrow> nat) \<Rightarrow> ('c, 'w, 'p) steps \<Rightarrow> ('c, 'w, 'p) step_instance" where
  "chain now ss =
     \<lparr>si_step = chain_step now ss, si_before_job = chain_before_job ss,
      si_after_job = chain_after_job ss\<rparr>"

subsection \<open>Atomic\<close>

fun atomic_loop ::
    "('w \<Rightarrow> nat) \<Rightarrow> ('c, 'w, 'p) steps \<Rightarrow> 'c checkpoint \<Rightarrow> 'c checkpoint \<Rightarrow> step_context \<Rightarrow>
     ('w, 'c control_flow) async"
where
  "atomic_loop now [] initial current ctx w =
     (if deadline_reached (now w) ctx then (0, w, Ok initial) else (0, w, Ok current))"
| "atomic_loop now (s # ss) initial current ctx w =
     (if deadline_reached (now w) ctx then (0, w, Ok initial)
      else async_bind (si_step s current ctx) (\<lambda>r.
        case r of
          Ok nxt \<Rightarrow> atomic_loop now ss initial nxt ctx
        | _ \<Rightarrow> async_return (Ok initial)) w)"

definition atomic_step ::
    "('w \<Rightarrow> nat) \<Rightarrow> ('c, 'w, 'p) steps \<Rightarrow> 'c checkpoint \<Rightarrow> step_context \<Rightarrow> ('w, 'c control_flow) async"
where
  "atomic_step now ss payload ctx = atomic_loop now ss payload payload ctx"

definition atomic :: "('w \<Rightarrow> nat) \<Rightarrow> ('c, 'w, 'p) steps \<Rightarrow> ('c, 'w, 'p) step_instance" where
  "atomic now ss =
     \<lparr>si_step = atomic_step now ss, si_before_job = atomic_before_job ss,
      si_after_job = atomic_after_job ss\<rparr>"

subsection \<open>Sequential composition\<close>

text \<open>
  The control flow of running one step after another: what \<open>Ok\<close> hands on, everything else
  stops.
\<close>

definition seq_flow ::
    "('w, 'c control_flow) async \<Rightarrow> ('c checkpoint \<Rightarrow> ('w, 'c control_flow) async) \<Rightarrow>
     ('w, 'c control_flow) async" where
  "seq_flow f g = async_bind f (\<lambda>r. case r of Ok cp \<Rightarrow> g cp | _ \<Rightarrow> async_return r)"

lemma seq_flow_return [simp]:
  "seq_flow (async_return (Ok cp)) g = g cp"
  "seq_flow (async_return (Break cp)) g = async_return (Break cp)"
  "seq_flow (async_return (Fail e)) g = async_return (Fail e)"
  by (simp_all add: seq_flow_def)

lemma seq_flow_assoc: "seq_flow (seq_flow f g) h = seq_flow f (\<lambda>cp. seq_flow (g cp) h)"
  by (rule ext)
    (auto simp: seq_flow_def async_bind_def async_return_def split: prod.splits control_flow.splits)

definition check_deadline :: "('w \<Rightarrow> nat) \<Rightarrow> step_context \<Rightarrow> 'c checkpoint \<Rightarrow> ('w, 'c control_flow) async" where
  "check_deadline now ctx cp w = (0, w, if deadline_reached (now w) ctx then Break cp else Ok cp)"

lemma chain_step_eq:
  "chain_step now [] cp ctx = check_deadline now ctx cp"
  "chain_step now (s # ss) cp ctx =
     seq_flow (check_deadline now ctx cp)
       (\<lambda>cp. seq_flow (si_step s cp ctx) (\<lambda>cp. chain_step now ss cp ctx))"
proof -
  have "(\<lambda>r. case r of Ok nxt \<Rightarrow> chain_step now ss nxt ctx | Break nxt \<Rightarrow> async_return (Break nxt)
          | Fail err \<Rightarrow> async_return (Fail err)) =
        (\<lambda>r. case r of Ok cp \<Rightarrow> chain_step now ss cp ctx | _ \<Rightarrow> async_return r)"
    by (rule ext) (simp split: control_flow.split)
  then show "chain_step now (s # ss) cp ctx =
     seq_flow (check_deadline now ctx cp)
       (\<lambda>cp. seq_flow (si_step s cp ctx) (\<lambda>cp. chain_step now ss cp ctx))"
    by (intro ext) (simp add: seq_flow_def check_deadline_def async_bind_def async_return_def split: prod.split)
qed (rule ext, simp add: check_deadline_def)

lemma check_deadline_twice:
  "seq_flow (check_deadline now ctx cp) (check_deadline now ctx) = check_deadline now ctx cp"
  by (rule ext) (simp add: seq_flow_def check_deadline_def async_bind_def async_return_def)

lemma check_then_chain:
  "seq_flow (check_deadline now ctx cp) (\<lambda>cp. chain_step now ss cp ctx) = chain_step now ss cp ctx"
proof (cases ss)
  case Nil
  then show ?thesis by (simp add: chain_step_eq check_deadline_twice)
next
  case (Cons s ss')
  then show ?thesis
    by (simp add: chain_step_eq check_deadline_twice flip: seq_flow_assoc)
qed

lemma chain_append:
  "chain_step now (xs @ ys) cp ctx = seq_flow (chain_step now xs cp ctx) (\<lambda>cp. chain_step now ys cp ctx)"
proof (induction xs arbitrary: cp)
  case Nil
  then show ?case by (simp add: chain_step_eq(1) check_then_chain)
next
  case (Cons s xs)
  then show ?case by (simp add: chain_step_eq(2) seq_flow_assoc)
qed

lemma chain_then_check:
  "seq_flow (chain_step now xs cp ctx) (\<lambda>cp. check_deadline now ctx cp) = chain_step now xs cp ctx"
  using chain_append [of now xs "[]" cp ctx] by (simp add: chain_step_eq)

text \<open>Rolling back: whatever is not \<open>Ok\<close> becomes the initial checkpoint.\<close>

fun rollback :: "'c checkpoint \<Rightarrow> 'c control_flow \<Rightarrow> 'c control_flow" where
  "rollback initial (Ok cp) = Ok cp"
| "rollback initial _ = Ok initial"

lemma atomic_loop_chain:
  "atomic_loop now ss initial cp ctx w =
     (case chain_step now ss cp ctx w of (n, w', r) \<Rightarrow> (n, w', rollback initial r))"
proof (induction ss arbitrary: cp w)
  case Nil
  then show ?case by simp
next
  case (Cons s ss)
  then show ?case
    by (auto simp: async_bind_def async_return_def split: prod.split control_flow.split)
qed

lemma run_hooks_append:
  "run_hooks hook (xs @ ys) =
     async_bind (run_hooks hook xs) (\<lambda>r. case r of Inl e \<Rightarrow> async_return (Inl e) | Inr u \<Rightarrow> run_hooks hook ys)"
proof (induction xs)
  case (Cons x xs)
  then show ?case
    by (intro ext)
      (auto simp: async_bind_def async_return_def fun_eq_iff split: prod.splits sum.splits)
qed simp

subsection \<open>Properties\<close>

text \<open>
  Chains nest transparently. A chain of two chains runs like the one chain of all
  their steps: for every input it takes as many polls, leaves the same world and returns the
  same control flow, and its hooks do the same, stopping at the first error. A chain of no
  steps only checks the deadline.
\<close>

theorem chain_flattens:
  fixes xs ys :: "('c, 'w, 'p) steps"
  shows "chain now (combinator_append (combinator_of (chain now xs)) (chain now ys)) = chain now (xs @ ys)"
proof -
  have step: "chain_step now [chain now xs, chain now ys] cp ctx = chain_step now (xs @ ys) cp ctx"
    for cp :: "'c checkpoint" and ctx
  proof -
    have "chain_step now [chain now xs, chain now ys] cp ctx =
      seq_flow (seq_flow (check_deadline now ctx cp) (\<lambda>cp. chain_step now xs cp ctx))
        (\<lambda>cp. seq_flow (seq_flow (check_deadline now ctx cp) (\<lambda>cp. chain_step now ys cp ctx))
          (\<lambda>cp. check_deadline now ctx cp))"
      by (simp add: chain_step_eq chain_def seq_flow_assoc)
    also have "\<dots> = chain_step now (xs @ ys) cp ctx"
      by (simp add: check_then_chain chain_then_check chain_append)
    finally show ?thesis .
  qed
  have hooks: "run_hooks hook [a, b] = run_hooks hook' (xs @ ys)"
    if "hook a = run_hooks hook' xs" "hook b = run_hooks hook' ys"
    for hook hook' :: "('c, 'w, 'p) step_instance \<Rightarrow> ('w, payload_builder_error + unit) async" and a b
  proof -
    have "(\<lambda>r. case r of Inl e \<Rightarrow> async_return (Inl e) | Inr u \<Rightarrow> async_return (Inr ())) =
        (async_return :: payload_builder_error + unit \<Rightarrow> ('w, _) async)"
      by (rule ext) (simp split: sum.split)
    then show ?thesis using that by (simp add: run_hooks_append)
  qed
  have b: "chain_before_job [chain now xs, chain now ys] ctx = chain_before_job (xs @ ys) ctx"
    and a: "chain_after_job [chain now xs, chain now ys] ctx res = chain_after_job (xs @ ys) ctx res"
    for ctx res
    unfolding chain_before_job_def chain_after_job_def
    by (rule hooks; simp add: chain_def chain_before_job_def chain_after_job_def)+
  show ?thesis
    by (simp add: combinator_append_def combinator_of_def into_steps_def chain_def [of now "_ # _"]
        chain_def [of now "xs @ ys"] step b a fun_eq_iff)
qed

text \<open>No check of the deadline in the run of a chain or an \<open>Atomic\<close> finds it reached.\<close>

fun in_time :: "('w \<Rightarrow> nat) \<Rightarrow> ('c, 'w, 'p) steps \<Rightarrow> 'c checkpoint \<Rightarrow> step_context \<Rightarrow> 'w \<Rightarrow> bool" where
  "in_time now [] cp ctx w \<longleftrightarrow> \<not> deadline_reached (now w) ctx"
| "in_time now (s # ss) cp ctx w \<longleftrightarrow>
     \<not> deadline_reached (now w) ctx \<and>
     (case si_step s cp ctx w of (n, w', Ok nxt) \<Rightarrow> in_time now ss nxt ctx w' | _ \<Rightarrow> True)"

text \<open>
  Claim C26: \<open>Atomic\<close> is \<open>Chain\<close> with rollback. It runs exactly the steps the chain of the same
  steps runs, with the same polls and the same effects on the world. The checkpoint it hands on is
  the chain's when the chain returns \<open>Ok\<close>, and the one it was given when a step breaks or fails or a
  deadline is reached. While no deadline is reached, it returns that checkpoint with \<open>Ok\<close>, so it
  never breaks or fails. Which control flow a reached deadline gives is not claimed: there the
  documentation and the code disagree, which is a finding.
\<close>

theorem atomic_is_chain_with_rollback:
  fixes cp :: "'c checkpoint"
  shows "\<exists>n w' r r'. chain_step now ss cp ctx w = (n, w', r) \<and> atomic_step now ss cp ctx w = (n, w', r') \<and>
    try_into_payload r' = Inr (case r of Ok q \<Rightarrow> q | _ \<Rightarrow> cp) \<and>
    (in_time now ss cp ctx w \<longrightarrow> r' = Ok (case r of Ok q \<Rightarrow> q | _ \<Rightarrow> cp))"
proof -
  obtain n w' r where "chain_step now ss cp ctx w = (n, w', r)" by (metis prod_cases3)
  then show ?thesis by (cases r) (simp_all add: atomic_step_def atomic_loop_chain)
qed

text \<open>Two steps, of which the second fails, with a deadline that is not reached.\<close>

theorem atomic_is_chain_with_rollback_witness:
  "\<exists>n w'. atomic_step (\<lambda>w :: unit. 4)
      [sample_step (Inr ()), (sample_step (Inr ()))\<lparr>si_step := \<lambda>cp ctx w. (2, w, Fail ChannelClosed)\<rparr>] sample_root
      \<lparr>ctx_block = sample_block, ctx_limits = with_deadline sample_limits 5, ctx_started_at = Some 3\<rparr> () =
    (n, w', Ok sample_root) \<and> n = 3"
proof -
  let ?ctx = "\<lparr>ctx_block = sample_block, ctx_limits = with_deadline sample_limits 5, ctx_started_at = Some 3\<rparr>"
  let ?ss = "[sample_step (Inr ()), (sample_step (Inr ()))\<lparr>si_step := \<lambda>cp ctx w. (2, w, Fail ChannelClosed)\<rparr>]"
  have d: "\<not> deadline_reached 4 ?ctx" by (simp add: deadline_reached_def with_deadline_def)
  then have "in_time (\<lambda>w. 4) ?ss sample_root ?ctx ()"
    and "chain_step (\<lambda>w. 4) ?ss sample_root ?ctx () = (3, (), Fail ChannelClosed)"
    by (simp_all add: sample_step_def async_bind_def async_return_def)
  with atomic_is_chain_with_rollback [of "\<lambda>w. 4" ?ss sample_root ?ctx "()"] show ?thesis
    by (auto simp del: chain_step.simps in_time.simps)
qed

text \<open>
  A reached deadline: the documentation of \<open>Atomic\<close> says \<open>Break\<close> with the initial checkpoint, the
  code returns \<open>Ok\<close> with it, while a chain breaks.
\<close>

lemma atomic_deadline_returns_ok:
  "deadline_reached (now w) ctx \<Longrightarrow>
   atomic_step now ss cp ctx w = (0, w, Ok cp) \<and> chain_step now ss cp ctx w = (0, w, Break cp)"
  by (cases ss) (simp_all add: atomic_step_def)

end
