(* ===== verification/Allocation.thy ===== *)
theory Allocation
  imports Executor
begin

section \<open>Allocation of checkpoints by steps\<close>

text \<open>
  A step that extends a payload allocates checkpoints, and each takes the address the allocator
  gives and the time the clock shows. Both are inputs of the model: a \<open>heap\<close> maps the
  checkpoints that are alive and the state of the world to an address, a time and the next
  state. What the code relies on is \<open>fresh_heap\<close>: the address is not the one of a live
  checkpoint. Addresses of dropped checkpoints may be used again.
\<close>

type_synonym ('c, 'w) heap = "'c checkpoint list \<Rightarrow> 'w \<Rightarrow> nat \<times> nat \<times> 'w"

definition fresh_heap :: "('c, 'w) heap \<Rightarrow> bool" where
  "fresh_heap heap \<longleftrightarrow> (\<forall>alive w. fst (heap alive w) \<notin> cp_addr ` set alive)"

text \<open>\<open>Checkpoint::apply\<close> allocates only when the execution succeeds.\<close>

definition apply_in ::
    "('c, 'w) heap \<Rightarrow> 'c checkpoint list \<Rightarrow> 'w \<Rightarrow> 'c checkpoint \<Rightarrow> executable \<Rightarrow>
     (execution_error + 'c checkpoint) \<times> 'w" where
  "apply_in heap alive w cp ex =
     (case heap alive w of (addr, now, w') \<Rightarrow>
        case cp_apply addr now cp (Inr ex) of
          Inl e \<Rightarrow> (Inl e, w)
        | Inr cp' \<Rightarrow> (Inr cp', w'))"

definition barrier_in ::
    "('c, 'w) heap \<Rightarrow> 'c checkpoint list \<Rightarrow> 'w \<Rightarrow> 'c checkpoint \<Rightarrow> 'c checkpoint \<times> 'w" where
  "barrier_in heap alive w cp =
     (case heap alive w of (addr, now, w') \<Rightarrow> (barrier addr now cp, w'))"

text \<open>A first-fit allocator with a clock: an example of a fresh heap.\<close>

definition bump_heap :: "('c, nat) heap" where
  "bump_heap alive w = (Suc (fold (\<lambda>cp. max (cp_addr cp)) alive 0), w, Suc w)"

lemma fold_max_ge: "cp \<in> set alive \<Longrightarrow> cp_addr cp \<le> fold (\<lambda>cp. max (cp_addr cp)) alive n"
  and fold_max_start: "n \<le> fold (\<lambda>cp. max (cp_addr cp)) alive n"
proof (induction alive arbitrary: n)
  case (Cons x xs)
  {
    case 1
    show ?case
    proof (cases "cp = x")
      case True
      then show ?thesis using Cons(2) [of "max (cp_addr x) n"] by (simp add: max_def split: if_splits)
    next
      case False
      then show ?thesis using 1 Cons(1) by simp
    qed
  next
    case 2
    show ?case using Cons(2) [of "max (cp_addr x) n"] by (simp add: max_def split: if_splits)
  }
qed simp_all

lemma fresh_bump_heap: "fresh_heap bump_heap"
  by (auto simp: fresh_heap_def bump_heap_def dest: fold_max_ge [of _ _ 0])

subsection \<open>Extensions of a checkpoint\<close>

text \<open>What a successful allocation gives: one more checkpoint on top, coherent and executed.\<close>

lemma apply_in_Inr:
  assumes "apply_in heap alive w cp ex = (Inr cp', w')" "fresh_heap heap"
    and "coherent_cp cp" "set (cp_iter cp) \<subseteq> set alive"
  shows "coherent_cp cp' \<and> history cp' = history cp @ [cp'] \<and> \<not> is_barrier cp' \<and> cp_iter cp' = cp' # cp_iter cp \<and>
    (\<exists>r. execute (cp_block cp) (checkpoint_db cp) ex = Inr r \<and> mutation cp' = Executable r)"
proof -
  obtain addr now w1 where h: "heap alive w = (addr, now, w1)" by (cases "heap alive w") auto
  with assms(2) have "addr \<notin> cp_addr ` set alive" by (metis fresh_heap_def fst_conv)
  with assms(4) have fresh: "addr \<notin> cp_addr ` set (cp_iter cp)" by auto
  from assms(1) h obtain r where r: "execute (cp_block cp) (checkpoint_db cp) ex = Inr r"
    "cp' = apply_with addr now cp (Executable r) (cp_context cp)"
    by (auto simp: apply_in_def cp_apply_Inr split: sum.splits)
  then show ?thesis
    using coherent_cp_apply_with [OF assms(3) fresh] history_apply_with [OF assms(3) fresh]
    by (simp add: is_barrier_def)
qed

lemma barrier_in_spec:
  assumes "barrier_in heap alive w cp = (cp', w')" "fresh_heap heap" "coherent_cp cp" "set (cp_iter cp) \<subseteq> set alive"
  shows "coherent_cp cp' \<and> history cp' = history cp @ [cp'] \<and> is_barrier cp'"
proof -
  obtain addr now w1 where h: "heap alive w = (addr, now, w1)" by (cases "heap alive w") auto
  with assms(2) have "addr \<notin> cp_addr ` set alive" by (metis fresh_heap_def fst_conv)
  with assms(4) have fresh: "addr \<notin> cp_addr ` set (cp_iter cp)" by auto
  from assms(1) h have "cp' = barrier addr now cp" by (simp add: barrier_in_def)
  then show ?thesis
    using coherent_cp_apply_with [OF assms(3) fresh] history_apply_with [OF assms(3) fresh]
    by (simp add: is_barrier_def barrier_def)
qed

text \<open>Every checkpoint of a history is coherent, and its history is a part of the history.\<close>

lemma history_nth:
  "coherent_cp cp \<Longrightarrow> k < length (history cp) \<Longrightarrow>
     coherent_cp (history cp ! k) \<and> history (history cp ! k) = take (Suc k) (history cp)"
proof (induction cp arbitrary: k rule: cp_iter.induct)
  case (1 a b d m t c)
  then show ?case by (simp add: history_eq)
next
  case (2 a b p d m t c)
  let ?cp = "Checkpoint a b (Some p) d m t c"
  have co: "coherent_cp p" using 2(2) by (rule coherent_cp_prev)
  have h: "history ?cp = history p @ [?cp]" using history_eq [OF 2(2)] history_eq [OF co] by simp
  show ?case
  proof (cases "k < length (history p)")
    case True
    with 2(1) [OF co True] h show ?thesis by (simp add: nth_append)
  next
    case False
    with 2(3) h have "k = length (history p)" by simp
    with 2(2) h show ?thesis by simp
  qed
qed

text \<open>\<open>q\<close> extends \<open>p\<close> by executed checkpoints that satisfy \<open>P\<close>.\<close>

inductive extends :: "('c checkpoint \<Rightarrow> bool) \<Rightarrow> 'c checkpoint \<Rightarrow> 'c checkpoint \<Rightarrow> bool" for P p where
  extends_refl: "extends P p p"
| extends_step: "extends P p q \<Longrightarrow> coherent_cp q' \<Longrightarrow> history q' = history q @ [q'] \<Longrightarrow>
    \<not> is_barrier q' \<Longrightarrow> P q' \<Longrightarrow> extends P p q'"

lemma extends_trans: "extends P q r \<Longrightarrow> extends P p q \<Longrightarrow> extends P p r"
  by (induction rule: extends.induct) (auto intro: extends_step)

lemma extends_history:
  "extends P p q \<Longrightarrow> coherent_cp p \<Longrightarrow> coherent_cp q \<and>
     (\<exists>es. history q = history p @ es \<and> (\<forall>c \<in> set es. P c \<and> \<not> is_barrier c))"
proof (induction rule: extends.induct)
  case extends_refl
  then show ?case by (auto intro: exI [of _ "[]"])
next
  case (extends_step q q')
  then obtain es where "history q = history p @ es" "\<forall>c \<in> set es. P c \<and> \<not> is_barrier c" by blast
  with extends_step show ?case by (auto intro!: exI [of _ "es @ [q']"])
qed

lemma apply_in_extends:
  assumes "apply_in heap alive w cp ex = (Inr cp', w')" "fresh_heap heap"
    and "coherent_cp cp" "set (cp_iter cp) \<subseteq> set alive" "P cp'"
  shows "extends P cp cp'"
  using apply_in_Inr [OF assms(1-4)] assms(5) by (auto intro: extends_step extends_refl)

text \<open>A history that ends after its last barrier: the staging part of what extends it.\<close>

lemma staging_of_extension:
  assumes "coherent_cp q" "history q = history_sealed p @ es" "coherent_cp p"
    and "\<forall>c \<in> set es. \<not> is_barrier c"
  shows "history_sealed q = history_sealed p \<and> history_staging q = last (history_sealed p) # es"
proof -
  obtain i where i: "i < length (history p)" "history_sealed p = take (Suc i) (history p)"
    "is_barrier (history p ! i)"
    by (rule staging_sealed [OF assms(3)]) blast
  obtain j where j: "j < length (history q)" "history_staging q = drop j (history q)"
    "history_sealed q = take (Suc j) (history q)" "is_barrier (history q ! j)"
    "\<And>k. j < k \<Longrightarrow> k < length (history q) \<Longrightarrow> \<not> is_barrier (history q ! k)"
    by (rule staging_sealed [OF assms(1)]) blast
  have len: "length (history_sealed p) = Suc i" using i by simp
  have last: "last (history_sealed p) = history p ! i"
    using i(1) by (simp add: i(2) take_Suc_conv_app_nth)
  have qi: "history q ! i = history p ! i"
    using i(1) by (simp add: assms(2) i(2) nth_append)
  have "j = i"
  proof (rule ccontr)
    assume "j \<noteq> i"
    then consider "j < i" | "i < j" by linarith
    then show False
    proof cases
      case 1
      with j(5) [of i] qi i(3) len show False by (simp add: assms(2))
    next
      case 2
      then have "history q ! j = es ! (j - Suc i)" using len by (simp add: assms(2) nth_append)
      moreover have "j - Suc i < length es" using 2 j(1) len by (simp add: assms(2))
      ultimately show False using j(4) assms(4) by auto
    qed
  qed
  moreover have "drop i (history_sealed p) = [last (history_sealed p)]"
    using i(1) last by (simp add: i(2) take_Suc_conv_app_nth)
  ultimately show ?thesis using j(2,3) len by (simp add: assms(2))
qed

end
