(* ===== verification/Revert.thy ===== *)
theory Revert
  imports Allocation
begin

section \<open>Removal of reverted transactions\<close>

text \<open>
  \<open>crates/pipeline/src/steps/revert.rs\<close>, the step \<open>RemoveRevertedTransactions\<close>: it keeps the
  staging history up to the first checkpoint with a removable failure and executes the rest
  again, leaving out what fails. \<open>None\<close> stands for a panic (a failed \<open>expect\<close>). The state of
  the step is the counters of the job, the events it has emitted and the world of the allocator.
  The counters are kept at their widths, where \<open>fetch_add\<close> wraps around.

  Not modelled: the metrics that \<open>setup\<close> creates and \<open>after_job\<close> records; what \<open>after_job\<close>
  does to the counters is.
\<close>

subsection \<open>Counters and events\<close>

record per_job_counters =
  txs_dropped :: u32
  gas_dropped :: u64

datatype revert_event =
  TransactionDropped recovered_tx
| BundleDropped flashbots_bundle
| BundlePartiallyDropped flashbots_bundle "b256 list"

record 'w revert_state =
  rv_counters :: per_job_counters
  rv_events :: "revert_event list"
  rv_world :: 'w

definition counters_reset :: "per_job_counters \<Rightarrow> per_job_counters" where
  "counters_reset c = \<lparr>txs_dropped = 0, gas_dropped = 0\<rparr>"

definition inc_txs_dropped :: "nat \<Rightarrow> per_job_counters \<Rightarrow> per_job_counters option" where
  "inc_txs_dropped n c =
     (if n < 2 ^ 32 then Some (c\<lparr>txs_dropped := txs_dropped c + of_nat n\<rparr>) else None)"

definition inc_gas_dropped :: "u64 \<Rightarrow> per_job_counters \<Rightarrow> per_job_counters" where
  "inc_gas_dropped amount c = c\<lparr>gas_dropped := gas_dropped c + amount\<rparr>"

definition mark_dropped :: "'c checkpoint \<Rightarrow> per_job_counters \<Rightarrow> per_job_counters option" where
  "mark_dropped cp c =
     map_option (inc_gas_dropped (gas_used cp)) (inc_txs_dropped (length (cp_transactions cp)) c)"

definition emit :: "revert_event \<Rightarrow> 'w revert_state \<Rightarrow> 'w revert_state" where
  "emit e s = s\<lparr>rv_events := rv_events s @ [e]\<rparr>"

definition count_with ::
    "(per_job_counters \<Rightarrow> per_job_counters option) \<Rightarrow> 'w revert_state \<Rightarrow> 'w revert_state option" where
  "count_with f s = map_option (\<lambda>c. s\<lparr>rv_counters := c\<rparr>) (f (rv_counters s))"

subsection \<open>The step\<close>

definition removable_failures :: "'c checkpoint \<Rightarrow> bool" where
  "removable_failures cp =
     (case cp_result cp of
        None \<Rightarrow> False
      | Some r \<Rightarrow>
          (case source r of
             Transaction tx \<Rightarrow> list_ex (\<lambda>t. \<not> is_success t) (results r)
           | Bundle b \<Rightarrow>
               list_ex (\<lambda>(is_failure, h). is_failure \<and> is_optional b h)
                 (zip (map (\<lambda>t. \<not> is_success t) (results r)) (map tx_hash (result_transactions r)))))"

definition optional_failed_txs :: "flashbots_bundle \<Rightarrow> 'c checkpoint \<Rightarrow> (b256 \<times> u64) list" where
  "optional_failed_txs b cp =
     map (\<lambda>(tx, res). (tx_hash tx, result_gas res))
       (filter (\<lambda>(tx, res). is_optional b (tx_hash tx)) (failed_txs cp))"

text \<open>The loop over one bundle. Every round removes optional transactions from the bundle.\<close>

lemma dropping_without_all:
  "dropping_tx_hashes (inner (fold (\<lambda>h b. without_transaction b h) hs b)) =
     filter (\<lambda>d. d \<notin> set hs) (dropping_tx_hashes (inner b))"
proof (induction hs arbitrary: b)
  case (Cons h hs)
  have "dropping_tx_hashes (inner (without_transaction b h)) =
      filter (\<lambda>d. d \<noteq> h) (dropping_tx_hashes (inner b))"
    by (simp add: without_transaction_def Let_def split: option.split)
  with Cons show ?case by (simp add: conj_commute)
qed simp

lemma removal_decreases:
  assumes "hs = map fst (optional_failed_txs b cp)" "optional_failed_txs b cp \<noteq> []"
  shows "length (dropping_tx_hashes (inner (fold (\<lambda>h b. without_transaction b h) hs b)))
    < length (dropping_tx_hashes (inner b))"
proof -
  from assms(2) obtain h g where "(h, g) \<in> set (optional_failed_txs b cp)"
    by (cases "optional_failed_txs b cp") auto
  then have "h \<in> set hs" "is_optional b h"
    unfolding assms(1) by (force, auto simp: optional_failed_txs_def)
  then show ?thesis
    unfolding dropping_without_all is_optional_def by (intro length_filter_less) auto
qed

function revert_bundle ::
    "('c, 'w) heap \<Rightarrow> 'c checkpoint \<Rightarrow> 'c checkpoint \<Rightarrow> 'c checkpoint \<Rightarrow> flashbots_bundle \<Rightarrow>
     'w revert_state \<Rightarrow> ('c checkpoint \<times> 'w revert_state) option"
where
  "revert_bundle heap payload checkpoint prefix b s =
     (case apply_in heap (cp_iter payload @ cp_iter prefix) (rv_world s) prefix (Bundle b) of
        (Inl e, w) \<Rightarrow>
          map_option (\<lambda>s. (prefix, emit (BundleDropped b) s)) (count_with (mark_dropped checkpoint) s)
      | (Inr new_checkpoint, w) \<Rightarrow>
          let s = s\<lparr>rv_world := w\<rparr>; failed = optional_failed_txs b new_checkpoint in
          if failed = [] then Some (new_checkpoint, s)
          else
            (case count_with (inc_txs_dropped (length failed)) s of
               None \<Rightarrow> None
             | Some s \<Rightarrow>
                 let s = s\<lparr>rv_counters := inc_gas_dropped (sum_list (map snd failed)) (rv_counters s)\<rparr>;
                     b' = fold (\<lambda>h b. without_transaction b h) (map fst failed) b
                 in revert_bundle heap payload checkpoint prefix b'
                      (emit (BundlePartiallyDropped b' (map fst failed)) s)))"
  by pat_completeness auto
termination
  by (relation "measure (\<lambda>(heap, payload, checkpoint, prefix, b, s). length (dropping_tx_hashes (inner b)))")
    (simp_all add: removal_decreases)

declare revert_bundle.simps [simp del]

fun revert_loop ::
    "('c, 'w) heap \<Rightarrow> 'c checkpoint \<Rightarrow> 'c checkpoint list \<Rightarrow> 'c checkpoint \<Rightarrow>
     'w revert_state \<Rightarrow> ('c checkpoint \<times> 'w revert_state) option"
where
  "revert_loop heap payload [] prefix s = Some (prefix, s)"
| "revert_loop heap payload (checkpoint # remaining) prefix s =
     (case as_transaction checkpoint of
        Some tx \<Rightarrow>
          (case apply_in heap (cp_iter payload @ cp_iter prefix) (rv_world s) prefix (Transaction tx) of
             (Inl e, w) \<Rightarrow>
               Option.bind (count_with (inc_txs_dropped 1) (emit (TransactionDropped tx) s))
                 (revert_loop heap payload remaining prefix)
           | (Inr new_checkpoint, w) \<Rightarrow>
               let s = s\<lparr>rv_world := w\<rparr> in
               if removable_failures new_checkpoint then
                 Option.bind (count_with (mark_dropped new_checkpoint) (emit (TransactionDropped tx) s))
                   (revert_loop heap payload remaining prefix)
               else revert_loop heap payload remaining new_checkpoint s)
      | None \<Rightarrow>
          (case as_bundle checkpoint of
             Some b \<Rightarrow>
               Option.bind (revert_bundle heap payload checkpoint prefix b s)
                 (\<lambda>(prefix, s). revert_loop heap payload remaining prefix s)
           | None \<Rightarrow> revert_loop heap payload remaining prefix s))"

definition revert_step ::
    "('c, 'w) heap \<Rightarrow> 'c checkpoint \<Rightarrow> 'w revert_state \<Rightarrow> ('c control_flow \<times> 'w revert_state) option"
where
  "revert_step heap payload s =
     (if cp_is_empty payload then Some (Ok payload, s)
      else let history = history_staging payload in
        case position removable_failures history of
          None \<Rightarrow> Some (Ok payload, s)
        | Some prefix_len \<Rightarrow>
            let (valid, remaining) = split_at history prefix_len in
            case span_last valid of
              None \<Rightarrow> None
            | Some prefix \<Rightarrow>
                map_option (\<lambda>(p, s). (Ok p, s)) (revert_loop heap payload remaining prefix s))"

definition revert_after_job :: "'w revert_state \<Rightarrow> 'w revert_state" where
  "revert_after_job s = s\<lparr>rv_counters := counters_reset (rv_counters s)\<rparr>"

subsection \<open>The loops\<close>

lemma count_with_Some:
  "n < 2 ^ 32 \<Longrightarrow> \<exists>s'. count_with (inc_txs_dropped n) s = Some s'"
  by (auto simp: count_with_def inc_txs_dropped_def)

lemma count_with_mark:
  "length (cp_transactions cp) < 2 ^ 32 \<Longrightarrow> \<exists>s'. count_with (mark_dropped cp) s = Some s'"
  by (auto simp: count_with_def mark_dropped_def inc_txs_dropped_def)

lemma length_without_all:
  "length (bundle_transactions (fold (\<lambda>h b. without_transaction b h) hs b)) \<le> length (bundle_transactions b)"
proof (induction hs arbitrary: b)
  case (Cons h hs)
  have "length (bundle_transactions (without_transaction b h)) \<le> length (bundle_transactions b)"
    by (auto simp: bundle_ops_defs Let_def list_remove_def split: option.split)
  with Cons [of "without_transaction b h"] show ?case by simp
qed simp

text \<open>What the execution of a bundle leaves: a part of it, with the same options.\<close>

lemma executed_bundle:
  assumes "execute block db (Bundle b) = Inr r" "mutation cp = Executable r"
  shows "length (optional_failed_txs b cp) \<le> length (bundle_transactions b)"
    and "optional_failed_txs b cp = [] \<Longrightarrow> \<not> removable_failures cp"
proof -
  from assms(1) obtain dis where src: "source r = Bundle (fold (\<lambda>h b. without_transaction b h) dis b)"
    by (auto simp: execute_bundle_Inr run_result_def)
  let ?b = "fold (\<lambda>h b. without_transaction b h) dis b"
  have txs: "result_transactions r = bundle_transactions ?b"
    by (simp add: result_transactions_def src)
  have "length (optional_failed_txs b cp) \<le> length (failed_txs cp)"
    by (simp add: optional_failed_txs_def)
  also have "\<dots> \<le> length (result_transactions r)"
    using assms(2) by (simp add: failed_txs_def cp_result_def) (metis le_trans length_filter_le length_zip min.cobounded1)
  finally show "length (optional_failed_txs b cp) \<le> length (bundle_transactions b)"
    using length_without_all [of dis b] by (simp add: txs)
  have opt: "is_optional ?b h \<Longrightarrow> is_optional b h" for h
    by (simp add: is_optional_def dropping_without_all)
  assume none: "optional_failed_txs b cp = []"
  show "\<not> removable_failures cp"
  proof
    assume "removable_failures cp"
    then obtain i where i: "i < length (results r)" "i < length (result_transactions r)"
      "\<not> is_success (results r ! i)" "is_optional ?b (tx_hash (result_transactions r ! i))"
      using assms(2) by (auto simp: removable_failures_def cp_result_def src list_ex_iff in_set_zip)
    then have "(result_transactions r ! i, results r ! i) \<in> set (failed_txs cp)"
      using assms(2) by (auto simp: failed_txs_def cp_result_def in_set_zip)
    with none opt [OF i(4)] show False by (auto simp: optional_failed_txs_def filter_empty_conv)
  qed
qed

abbreviation settled :: "'c checkpoint \<Rightarrow> bool" where
  "settled cp \<equiv> \<not> removable_failures cp"

lemma revert_bundle_ok:
  assumes "fresh_heap heap" "coherent_cp prefix"
    and "length (cp_transactions checkpoint) < 2 ^ 32" "length (bundle_transactions b) < 2 ^ 32"
  shows "\<exists>p s'. revert_bundle heap payload checkpoint prefix b s = Some (p, s') \<and>
    extends settled prefix p \<and> coherent_cp p"
  using assms
proof (induction heap payload checkpoint prefix b s rule: revert_bundle.induct)
  case (1 heap payload checkpoint prefix b s)
  show ?case
  proof (cases "apply_in heap (cp_iter payload @ cp_iter prefix) (rv_world s) prefix (Bundle b)")
    case (Pair res w)
    show ?thesis
    proof (cases res)
      case (Inl e)
      with Pair 1(3,4) count_with_mark [of checkpoint s] show ?thesis
        by (subst revert_bundle.simps) (auto intro: extends_refl)
    next
      case (Inr cp)
      note ap = apply_in_Inr [OF Pair [unfolded Inr] 1(2,3)]
      then obtain r where r: "execute (cp_block prefix) (checkpoint_db prefix) (Bundle b) = Inr r"
        "mutation cp = Executable r" by auto
      note eb = executed_bundle [OF r]
      show ?thesis
      proof (cases "optional_failed_txs b cp = []")
        case True
        have "extends settled prefix cp"
          using apply_in_extends [OF Pair [unfolded Inr] 1(2,3)] eb(2) [OF True] by auto
        with True ap Pair Inr show ?thesis by (subst revert_bundle.simps) auto
      next
        case False
        let ?f = "optional_failed_txs b cp"
        obtain s1 where s1: "count_with (inc_txs_dropped (length ?f)) (s\<lparr>rv_world := w\<rparr>) = Some s1"
          using count_with_Some [OF le_less_trans [OF eb(1) 1(5)]] by blast
        have "length (bundle_transactions (fold (\<lambda>h b. without_transaction b h) (map fst ?f) b)) < 2 ^ 32"
          using length_without_all 1(5) le_less_trans by blast
        then show ?thesis
          using 1(1) [OF Pair [symmetric] Inr refl refl False s1 refl refl 1(2-4)] False s1 Pair Inr
          by (subst revert_bundle.simps) (simp add: Let_def)
      qed
    qed
  qed
qed

lemma applied_transaction_counts:
  assumes "apply_in heap past w prefix (Transaction tx) = (Inr cp, w')" "fresh_heap heap" "coherent_cp prefix"
    and "set (cp_iter prefix) \<subseteq> set past"
  shows "\<exists>s'. count_with (mark_dropped cp) s = Some s'"
proof -
  from apply_in_Inr [OF assms] obtain r where "mutation cp = Executable r" "source r = Transaction tx"
    by (auto simp: execute_transaction_def result_simps)
  then have "length (cp_transactions cp) < 2 ^ 32"
    by (simp add: cp_transactions_def result_transactions_def)
  then show ?thesis using count_with_mark by blast
qed

lemma revert_loop_ok:
  assumes "fresh_heap heap" "coherent_cp prefix"
    and "\<forall>c \<in> set remaining. length (cp_transactions c) < 2 ^ 32"
  shows "\<exists>p s'. revert_loop heap payload remaining prefix s = Some (p, s') \<and>
    extends settled prefix p \<and> coherent_cp p"
  using assms
proof (induction remaining arbitrary: prefix s)
  case Nil
  then show ?case by (auto intro: extends_refl)
next
  case (Cons checkpoint remaining)
  have IH: "\<exists>p s'. revert_loop heap payload remaining q s = Some (p, s') \<and>
      extends settled prefix p \<and> coherent_cp p" if "extends settled prefix q" "coherent_cp q" for q s
    using Cons.IH [OF Cons.prems(1) that(2)] Cons.prems(3) extends_trans [OF _ that(1)] by fastforce
  note IH0 = IH [OF extends_refl Cons.prems(2)]
  show ?case
  proof (cases "as_transaction checkpoint")
    case (Some tx)
    show ?thesis
    proof (cases "apply_in heap (cp_iter payload @ cp_iter prefix) (rv_world s) prefix (Transaction tx)")
      case (Pair res w)
      show ?thesis
      proof (cases res)
        case (Inl e)
        obtain s1 where "count_with (inc_txs_dropped 1) (emit (TransactionDropped tx) s) = Some s1"
          using count_with_Some [of 1 "emit (TransactionDropped tx) s"] by auto
        with Some Pair Inl IH0 [of s1] show ?thesis by simp
      next
        case (Inr cp)
        note ap = apply_in_Inr [OF Pair [unfolded Inr] Cons.prems(1,2)]
        obtain s1 where
          "count_with (mark_dropped cp) (emit (TransactionDropped tx) (s\<lparr>rv_world := w\<rparr>)) = Some s1"
          using applied_transaction_counts [OF Pair [unfolded Inr] Cons.prems(1,2)] by auto
        moreover have "extends settled prefix cp" if "settled cp"
          using apply_in_extends [OF Pair [unfolded Inr] Cons.prems(1,2)] that by auto
        ultimately show ?thesis
          using Some Pair Inr IH0 [of s1] IH [of cp] ap by (auto simp: Let_def)
      qed
    qed
  next
    case None
    show ?thesis
    proof (cases "as_bundle checkpoint")
      case (Some b)
      then have "cp_transactions checkpoint = bundle_transactions b"
        by (auto simp: as_bundle_def cp_transactions_def result_transactions_def
            split: mutation.splits executable.splits)
      with Cons.prems revert_bundle_ok [of heap prefix checkpoint b payload s]
      obtain q s1 where "revert_bundle heap payload checkpoint prefix b s = Some (q, s1)"
        "extends settled prefix q" "coherent_cp q" by auto
      with None Some IH [of q s1] show ?thesis by auto
    qed (use None IH0 in simp)
  qed
qed

subsection \<open>Properties\<close>

lemma barrier_settled [simp]: "is_barrier cp \<Longrightarrow> settled cp"
  by (simp add: removable_failures_def cp_result_def is_barrier_def)

lemma staging_head:
  assumes "coherent_cp cp"
  shows "\<exists>b rest. history_staging cp = b # rest \<and> is_barrier b \<and> (\<forall>c \<in> set rest. \<not> is_barrier c) \<and>
    history cp = history_sealed cp @ rest \<and> last (history_sealed cp) = b \<and> history_sealed cp \<noteq> []"
proof -
  obtain i where i: "i < length (history cp)" "history_staging cp = drop i (history cp)"
    "history_sealed cp = take (Suc i) (history cp)" "is_barrier (history cp ! i)"
    "\<And>j. i < j \<Longrightarrow> j < length (history cp) \<Longrightarrow> \<not> is_barrier (history cp ! j)"
    by (rule staging_sealed [OF assms]) blast
  have "\<not> is_barrier c" if "c \<in> set (drop (Suc i) (history cp))" for c
    using that i(5) by (auto simp: in_set_conv_nth)
  then show ?thesis
    using i(1-4) by (intro exI [of _ "history cp ! i"] exI [of _ "drop (Suc i) (history cp)"])
      (auto simp: Cons_nth_drop_Suc take_Suc_conv_app_nth simp flip: append_take_drop_id [of "Suc i"])
qed

lemma settled_staging_unchanged:
  assumes "\<forall>c \<in> set (history_staging r). settled c"
  shows "revert_step heap r s = Some (Ok r, s)"
proof -
  have "position removable_failures (history_staging r) = None" using assms by (simp add: position_None)
  then show ?thesis by (simp add: revert_step_def Let_def)
qed

text \<open>The checkpoints before the first removable failure, which the step starts from.\<close>

lemma first_failure:
  assumes "coherent_cp payload" "position removable_failures (history_staging payload) = Some n"
  obtains b rest k where "history_staging payload = b # rest" "is_barrier b" "n = Suc k"
    "last (history_sealed payload) = b" "\<forall>c \<in> set (take k rest). settled c \<and> \<not> is_barrier c"
    "takeWhile settled (history_staging payload) = b # take k rest" "\<not> cp_is_empty payload"
    "coherent_cp (last (take n (b # rest)))"
    "history (last (take n (b # rest))) = history_sealed payload @ take k rest" "k < length rest"
proof -
  obtain b rest where st: "history_staging payload = b # rest" "is_barrier b"
    "\<forall>c \<in> set rest. \<not> is_barrier c" "history payload = history_sealed payload @ rest"
    "last (history_sealed payload) = b" "history_sealed payload \<noteq> []"
    using staging_head [OF assms(1)] by blast
  from assms(2) have n: "n < length (b # rest)" "removable_failures ((b # rest) ! n)"
    "\<forall>j < n. settled ((b # rest) ! j)" unfolding st(1) position_Some by blast+
  with st(2) obtain k where k: "n = Suc k" "k < length rest" by (cases n) auto
  let ?i = "length (history_sealed payload) - 1"
  let ?prefix = "last (take n (b # rest))"
  have hp: "history payload = butlast (history_sealed payload) @ b # rest"
    using st(4-6) by (metis append_butlast_last_id append.assoc append_Cons append_Nil)
  have "?prefix = (b # rest) ! k"
    unfolding k(1) by (subst take_Suc_conv_app_nth) (use k(2) in simp_all)
  then have pre: "?prefix = history payload ! (?i + k)" by (simp add: hp nth_append)
  have "coherent_cp ?prefix \<and> history ?prefix = take (Suc (?i + k)) (history payload)"
    unfolding pre using k by (intro history_nth [OF assms(1)]) (simp add: st(4))
  moreover have "take (Suc (?i + k)) (history payload) = history_sealed payload @ take k rest"
    using st(6) unfolding st(4) by (cases "history_sealed payload") simp_all
  moreover have "settled c" if "c \<in> set (take k rest)" for c
    using that n(3) k by (fastforce simp: in_set_conv_nth)
  then have "\<forall>c \<in> set (take k rest). settled c \<and> \<not> is_barrier c" using st(3) by (auto dest: in_set_takeD)
  moreover have "takeWhile settled rest = take k rest"
  proof (rule takeWhile_eq_take_P_nth)
    show "settled (rest ! i)" if "i < k" for i using n(3) [rule_format, of "Suc i"] that k by simp
    show "\<not> settled (rest ! k)" using n(2) k by simp
  qed
  moreover have "length (history payload) = Suc (depth payload)"
    using wf_length_iter [of payload] assms(1) history_eq [OF assms(1)] by (simp add: coherent_cp_def)
  then have "\<not> cp_is_empty payload"
    using k(2) st(6) by (cases "history_sealed payload") (auto simp: st(4) cp_is_empty_def)
  ultimately show ?thesis using that [OF st(1,2) k(1) st(5)] st(1,2) k(2) by simp
qed

text \<open>
  Claim C15: removing reverted transactions never panics and always ends (bundles of less than
  \<open>2^32\<close> transactions). The resulting payload has the sealed part of the given one, nothing in
  its staging part has a failure that could be removed, the checkpoints before the first such
  failure are kept as they are and not executed again, and a second run of the step changes
  nothing.
\<close>

theorem revert_removes_failures:
  assumes "coherent_cp payload" "fresh_heap heap"
    and "\<forall>c \<in> set (history_staging payload). length (cp_transactions c) < 2 ^ 32"
  shows "\<exists>r s'. revert_step heap payload s = Some (Ok r, s') \<and>
    history_sealed r = history_sealed payload \<and>
    (\<forall>c \<in> set (history_staging r). \<not> removable_failures c) \<and>
    (let kept = takeWhile (\<lambda>c. \<not> removable_failures c) (history_staging payload)
     in take (length kept) (history_staging r) = kept) \<and>
    revert_step heap r s' = Some (Ok r, s')"
proof (cases "position removable_failures (history_staging payload)")
  case None
  then have "\<forall>c \<in> set (history_staging payload). settled c" by (simp add: position_None)
  then show ?thesis
    using settled_staging_unchanged [of payload heap s]
    by (intro exI [of _ payload] exI [of _ s]) (simp add: Let_def takeWhile_eq_all_conv [THEN iffD2])
next
  case (Some n)
  obtain b rest k where st: "history_staging payload = b # rest" "is_barrier b" "n = Suc k"
    "last (history_sealed payload) = b" "\<forall>c \<in> set (take k rest). settled c \<and> \<not> is_barrier c"
    "takeWhile settled (history_staging payload) = b # take k rest" "\<not> cp_is_empty payload"
    and prefix: "coherent_cp (last (take n (b # rest)))"
      "history (last (take n (b # rest))) = history_sealed payload @ take k rest" and k: "k < length rest"
    by (rule first_failure [OF assms(1) Some])
  let ?prefix = "last (take n (b # rest))"
  obtain r s' where r: "revert_loop heap payload (drop n (b # rest)) ?prefix s = Some (r, s')"
    "extends settled ?prefix r" "coherent_cp r"
    using revert_loop_ok [OF assms(2) prefix(1)] assms(3) by (metis in_set_dropD st(1))
  then obtain es where es: "history r = history ?prefix @ es" "\<forall>c \<in> set es. settled c \<and> \<not> is_barrier c"
    using extends_history prefix(1) by blast
  have nb: "\<forall>c \<in> set (take k rest @ es). \<not> is_barrier c" using st(5) es(2) by auto
  have sr: "history_sealed r = history_sealed payload" "history_staging r = b # take k rest @ es"
    using staging_of_extension [OF r(3) _ assms(1) nb] es(1) prefix(2) st(4) by simp_all
  have all: "\<forall>c \<in> set (history_staging r). settled c" using sr(2) es(2) st(2,5) by auto
  have "revert_step heap payload s = Some (Ok r, s')"
    using Some r(1) st(3,7) k by (simp add: revert_step_def Let_def st(1) split_at_def span_last_def)
  with sr all st(6) settled_staging_unchanged [OF all] k show ?thesis by (auto simp: Let_def)
qed

lemma sample_staging: "history_staging sample_cp2 = [sample_root, sample_cp1, sample_cp2]"
  by (simp add: history_staging_def sample_history rposition_def span_skip_def split_at_def)

lemma sample_removable:
  "settled sample_root" "settled sample_cp1" "removable_failures sample_cp2"
  by (simp_all add: removable_failures_def cp_result_def)
    (simp_all add: sample_root_def sample_cp1_def sample_cp2_def sample_result_def is_success_def)

lemma sample_tx_counts: "length (cp_transactions sample_cp1) = 1" "length (cp_transactions sample_cp2) = 1"
  "length (cp_transactions sample_root) = 0"
  by (simp_all add: cp_transactions_def result_transactions_def)
    (simp_all add: sample_cp1_def sample_cp2_def sample_root_def sample_result_def result_transactions_def)

theorem revert_removes_failures_witness:
  "\<exists>r s'. revert_step bump_heap sample_cp2
       \<lparr>rv_counters = \<lparr>txs_dropped = 0, gas_dropped = 0\<rparr>, rv_events = [], rv_world = 20\<rparr> = Some (Ok r, s') \<and>
     list_all settled (history_staging r) \<and> take 2 (history_staging r) = [sample_root, sample_cp1]"
proof -
  have "\<forall>c \<in> set (history_staging sample_cp2). length (cp_transactions c) < 2 ^ 32"
    by (simp add: sample_staging sample_tx_counts)
  from revert_removes_failures [OF sample_coherent(1) fresh_bump_heap this]
  show ?thesis
    by (simp add: Let_def sample_staging sample_removable list_all_iff numeral_2_eq_2) blast
qed

end
