(* ===== verification/Ordering.thy ===== *)
theory Ordering
  imports Allocation "HOL-Library.AList"
begin

section \<open>Ordering of a payload\<close>

text \<open>
  \<open>crates/pipeline/src/steps/ordering\<close>: the step \<open>OrderBy\<close>, which executes the staging part of
  a payload again in the order of a score, and its two scores. \<open>SortedOrders\<close> keeps the orders
  of the span in maps from which \<open>pop_best\<close> takes the best order whose nonces are not blocked by
  a lower nonce of the same signer.

  A \<open>BTreeMap\<close> and a \<open>BTreeSet\<close> are sorted lists, a \<open>HashMap\<close> that is only looked up is a
  function to options, and \<open>all_orders\<close>, over which the code iterates, an association list; the
  order of that list can only select which of several score errors is reported. The score is an
  argument, with the text of its error. The loop of \<open>into_iter\<close> is \<open>drain\<close>, where \<open>None\<close> would
  be a loop without end; in the step, \<open>None\<close> is that or a failed assertion.
\<close>

subsection \<open>Maps of sets\<close>

definition entry_insert :: "'k \<Rightarrow> 'v :: linorder \<Rightarrow> ('k \<Rightarrow> 'v list option) \<Rightarrow> 'k \<Rightarrow> 'v list option" where
  "entry_insert k v m = m(k \<mapsto> insort_insert v (case m k of Some vs \<Rightarrow> vs | None \<Rightarrow> []))"

definition entry_remove :: "'k \<Rightarrow> 'v :: linorder \<Rightarrow> ('k \<Rightarrow> 'v list option) \<Rightarrow> 'k \<Rightarrow> 'v list option" where
  "entry_remove k v m =
     (case m k of
        None \<Rightarrow> m
      | Some vs \<Rightarrow> let vs' = remove1 v vs in if vs' = [] then m(k := None) else m(k \<mapsto> vs'))"

fun score_insert :: "'s :: linorder \<Rightarrow> b256 \<Rightarrow> ('s \<times> b256 list) list \<Rightarrow> ('s \<times> b256 list) list" where
  "score_insert s h [] = [(s, [h])]"
| "score_insert s h ((s', hs) # m) =
     (if s < s' then (s, [h]) # (s', hs) # m
      else if s = s' then (s', insort_insert h hs) # m
      else (s', hs) # score_insert s h m)"

fun score_remove :: "'s :: linorder \<Rightarrow> b256 \<Rightarrow> ('s \<times> b256 list) list \<Rightarrow> ('s \<times> b256 list) list" where
  "score_remove s h [] = []"
| "score_remove s h ((s', hs) # m) =
     (if s = s' then let hs' = remove1 h hs in if hs' = [] then m else (s', hs') # m
      else (s', hs) # score_remove s h m)"

subsection \<open>SortedOrders\<close>

record ('c, 's) sorted_orders =
  by_signer :: "address \<Rightarrow> b256 list option"
  by_score :: "('s \<times> b256 list) list"
  so_nonces :: "address \<Rightarrow> u64 list option"
  all_orders :: "(b256 \<times> 'c checkpoint) list"

text \<open>\<open>hash().unwrap()\<close>: a checkpoint that is no barrier has a hash.\<close>

definition order_hash :: "(bytes \<Rightarrow> b256) \<Rightarrow> 'c checkpoint \<Rightarrow> b256" where
  "order_hash keccak cp = (case cp_hash keccak cp of Some h \<Rightarrow> h | None \<Rightarrow> 0)"

lemma order_hash_Some: "\<not> is_barrier cp \<Longrightarrow> cp_hash keccak cp = Some (order_hash keccak cp)"
  by (auto simp: order_hash_def cp_hash_def as_transaction_def as_bundle_def is_barrier_def
      split: mutation.splits executable.splits)

fun score_all ::
    "('c checkpoint \<Rightarrow> string + 's :: linorder) \<Rightarrow> (b256 \<times> 'c checkpoint) list \<Rightarrow>
     ('s \<times> b256 list) list \<Rightarrow> string + ('s \<times> b256 list) list" where
  "score_all score [] m = Inr m"
| "score_all score ((h, cp) # rest) m = and_then (score cp) (\<lambda>s. score_all score rest (score_insert s h m))"

definition sorted_orders_try_from ::
    "(bytes \<Rightarrow> b256) \<Rightarrow> ('c checkpoint \<Rightarrow> string + 's :: linorder) \<Rightarrow> 'c span \<Rightarrow>
     string + ('c, 's) sorted_orders" where
  "sorted_orders_try_from keccak score s =
     (let executables = filter (\<lambda>cp. \<not> is_barrier cp) s;
          all = fold (\<lambda>cp. AList.update (order_hash keccak cp) cp) executables [];
          signers = fold (\<lambda>(signer, h). entry_insert signer h)
            (concat (map (\<lambda>(h, cp). map (\<lambda>tx. (tx_signer tx, h)) (cp_transactions cp)) all)) Map.empty;
          ns = fold (\<lambda>(signer, n). entry_insert signer n)
            (concat (map (\<lambda>(h, cp). nonces cp) all)) Map.empty
      in and_then (score_all score all []) (\<lambda>scores.
         Inr \<lparr>by_signer = signers, by_score = scores, so_nonces = ns, all_orders = all\<rparr>))"

fun nth_order_loop :: "('s \<times> b256 list) list \<Rightarrow> nat \<Rightarrow> ('s \<times> b256) option" where
  "nth_order_loop [] skip = None"
| "nth_order_loop ((s, hs) # m) skip =
     (if skip < length hs then Some (s, hs ! skip) else nth_order_loop m (skip - length hs))"

definition nth_order_by_score :: "('c, 's) sorted_orders \<Rightarrow> nat \<Rightarrow> ('s \<times> b256) option" where
  "nth_order_by_score so skip = nth_order_loop (rev (by_score so)) skip"

text \<open>The inner loop of \<open>pop_best\<close>: \<open>None\<close> returns from it, \<open>Some False\<close> skips the order.\<close>

fun nonces_ready :: "(address \<Rightarrow> u64 list option) \<Rightarrow> (address \<times> u64) list \<Rightarrow> bool option" where
  "nonces_ready m [] = Some True"
| "nonces_ready m ((signer, n) # rest) =
     (case m signer of
        None \<Rightarrow> None
      | Some [] \<Rightarrow> None
      | Some (lowest # _) \<Rightarrow> if lowest < n then Some False else nonces_ready m rest)"

lemma nth_order_loop_flat:
  "nth_order_loop m skip = list_get (concat (map (\<lambda>(s, hs). map (Pair s) hs) m)) skip"
proof (induction m arbitrary: skip)
  case (Cons p m)
  then show ?case by (cases p) (auto simp: list_get_def nth_append)
qed (simp add: list_get_def)

definition flat :: "('s \<times> b256 list) list \<Rightarrow> ('s \<times> b256) list" where
  "flat m = concat (map (\<lambda>(s, hs). map (Pair s) hs) (rev m))"

lemma nth_order_flat: "nth_order_by_score so skip = list_get (flat (by_score so)) skip"
  by (simp add: nth_order_by_score_def nth_order_loop_flat flat_def)

function pop_best_loop :: "('c, 's) sorted_orders \<Rightarrow> nat \<Rightarrow> ('c checkpoint \<times> 's) option" where
  "pop_best_loop so skip =
     (case nth_order_by_score so skip of
        None \<Rightarrow> None
      | Some (score, h) \<Rightarrow>
          (case map_of (all_orders so) h of
             None \<Rightarrow> None
           | Some order \<Rightarrow>
               (case nonces_ready (so_nonces so) (nonces order) of
                  None \<Rightarrow> None
                | Some False \<Rightarrow> pop_best_loop so (skip + 1)
                | Some True \<Rightarrow> Some (order, score))))"
  by pat_completeness auto
termination
  by (relation "measure (\<lambda>(so, skip). length (flat (by_score so)) - skip)")
    (auto simp: nth_order_flat list_get_Some)

declare pop_best_loop.simps [simp del]

definition remove_order ::
    "(bytes \<Rightarrow> b256) \<Rightarrow> ('c, 's :: linorder) sorted_orders \<Rightarrow> 'c checkpoint \<Rightarrow> 's \<Rightarrow> ('c, 's) sorted_orders" where
  "remove_order keccak so order score =
     (let h = order_hash keccak order in
      so\<lparr>so_nonces := fold (\<lambda>(signer, n). entry_remove signer n) (nonces order) (so_nonces so),
         by_score := score_remove score h (by_score so),
         by_signer := fold (\<lambda>signer. entry_remove signer h) (signers order) (by_signer so),
         all_orders := AList.delete h (all_orders so)\<rparr>)"

definition pop_best ::
    "(bytes \<Rightarrow> b256) \<Rightarrow> ('c, 's :: linorder) sorted_orders \<Rightarrow> ('c checkpoint \<times> ('c, 's) sorted_orders) option" where
  "pop_best keccak so =
     map_option (\<lambda>(order, score). (order, remove_order keccak so order score)) (pop_best_loop so 0)"

partial_function (option) drain ::
    "(bytes \<Rightarrow> b256) \<Rightarrow> ('c, 's :: linorder) sorted_orders \<Rightarrow> 'c checkpoint list option" where
  "drain keccak so =
     (case pop_best keccak so of
        None \<Rightarrow> Some []
      | Some (order, so') \<Rightarrow> Option.bind (drain keccak so') (\<lambda>ordered. Some (order # ordered)))"

subsection \<open>The step\<close>

fun apply_all ::
    "('c, 'w) heap \<Rightarrow> (execution_error \<Rightarrow> string) \<Rightarrow> 'c checkpoint \<Rightarrow> 'c checkpoint list \<Rightarrow>
     'c checkpoint \<Rightarrow> 'w \<Rightarrow> (payload_builder_error + 'c checkpoint) \<times> 'w" where
  "apply_all heap display payload [] ordered_prefix w = (Inr ordered_prefix, w)"
| "apply_all heap display payload (item # items) ordered_prefix w =
     (case cp_try_into_executable item of
        Inl e \<Rightarrow> (Inl (Other (display e)), w)
      | Inr ex \<Rightarrow>
          (case apply_in heap (cp_iter payload @ cp_iter ordered_prefix) w ordered_prefix ex of
             (Inl e, w) \<Rightarrow> (Inl (Other (display e)), w)
           | (Inr checkpoint, w) \<Rightarrow> apply_all heap display payload items checkpoint w))"

definition order_by_step ::
    "('c, 'w) heap \<Rightarrow> (bytes \<Rightarrow> b256) \<Rightarrow> (execution_error \<Rightarrow> string) \<Rightarrow>
     ('c checkpoint \<Rightarrow> string + 's :: linorder) \<Rightarrow> 'c checkpoint \<Rightarrow> 'w \<Rightarrow>
     ('c control_flow \<times> 'w) option" where
  "order_by_step heap keccak display score payload w =
     (let history = history_staging payload in
      case sorted_orders_try_from keccak score history of
        Inl e \<Rightarrow> Some (Fail (Other e), w)
      | Inr so \<Rightarrow>
          Option.bind (drain keccak so) (\<lambda>ordered.
          case position (\<lambda>(a, b). cp_hash keccak a \<noteq> cp_hash keccak b) (zip history ordered) of
            None \<Rightarrow> Some (Ok payload, w)
          | Some first_out_of_order \<Rightarrow>
              Option.bind (span_at history first_out_of_order) (\<lambda>ordered_prefix.
              case apply_all heap display payload (drop first_out_of_order ordered) ordered_prefix w of
                (Inl e, w') \<Rightarrow> Some (Fail e, w')
              | (Inr r, w') \<Rightarrow> if depth r = depth payload then Some (Ok r, w') else None)))"

subsection \<open>Scores\<close>

definition priority_fee_score :: "'c checkpoint \<Rightarrow> string + u128" where
  "priority_fee_score cp = Inr (effective_tip_per_gas cp)"

definition coinbase_profit_score :: "'c checkpoint \<Rightarrow> string + u256" where
  "coinbase_profit_score cp =
     (let fee_recipient = coinbase (cp_block cp) in
      and_then (balance_of cp fee_recipient) (\<lambda>current_balance.
      and_then (balance_of (case prev cp of Some p \<Rightarrow> p | None \<Rightarrow> root cp) fee_recipient) (\<lambda>prev_balance.
      Inr (saturating_sub current_balance prev_balance))))"

subsection \<open>The maps as sets\<close>

definition vals :: "('k \<Rightarrow> 'v list option) \<Rightarrow> 'k \<Rightarrow> 'v set" where
  "vals m k = (case m k of None \<Rightarrow> {} | Some vs \<Rightarrow> set vs)"

definition wf_entries :: "('k \<Rightarrow> 'v :: linorder list option) \<Rightarrow> bool" where
  "wf_entries m \<longleftrightarrow> (\<forall>k vs. m k = Some vs \<longrightarrow> vs \<noteq> [] \<and> sorted vs \<and> distinct vs)"

lemma insort_insert_ne [simp]: "insort_insert x xs \<noteq> []"
  by (metis insort_insert_triv insort_insert_insort insort_not_Nil list.set_cases empty_iff list.set(1) list.discI)

lemma entry_insert_ok:
  assumes "wf_entries m"
  shows "wf_entries (entry_insert k v m)" "vals (entry_insert k v m) = (vals m)(k := insert v (vals m k))"
  using assms
  by (auto simp: wf_entries_def entry_insert_def vals_def fun_eq_iff set_insort_insert sorted_insort_insert
      distinct_insort_insert split: option.splits)

lemma entry_remove_ok:
  assumes "wf_entries m"
  shows "wf_entries (entry_remove k v m)" "vals (entry_remove k v m) = (vals m)(k := vals m k - {v})"
  using assms
  by (auto simp: wf_entries_def entry_remove_def vals_def fun_eq_iff Let_def sorted_remove1
      split: option.splits dest: set_remove1_eq) (metis distinct_remove1_removeAll empty_iff list.set(1) set_remove1_eq Diff_iff singletonD)+

lemma entries_fold_insert:
  "wf_entries m \<Longrightarrow> wf_entries (fold (\<lambda>(k, v). entry_insert k v) kvs m) \<and>
     vals (fold (\<lambda>(k, v). entry_insert k v) kvs m) = (\<lambda>k. vals m k \<union> {v. (k, v) \<in> set kvs})"
proof (induction kvs arbitrary: m)
  case (Cons p kvs)
  then show ?case by (cases p) (auto simp: entry_insert_ok fun_eq_iff)
qed simp

lemma entries_fold_remove:
  "wf_entries m \<Longrightarrow> wf_entries (fold (\<lambda>(k, v). entry_remove k v) kvs m) \<and>
     vals (fold (\<lambda>(k, v). entry_remove k v) kvs m) = (\<lambda>k. vals m k - {v. (k, v) \<in> set kvs})"
proof (induction kvs arbitrary: m)
  case (Cons p kvs)
  then show ?case by (cases p) (auto simp: entry_remove_ok fun_eq_iff)
qed simp

text \<open>The order in which \<open>nth_order_by_score\<close> goes through the orders.\<close>

fun better :: "'s :: linorder \<times> b256 \<Rightarrow> 's \<times> b256 \<Rightarrow> bool" where
  "better (s, h) (s', h') \<longleftrightarrow> s' < s \<or> s = s' \<and> h < h'"

definition wf_scores :: "('s :: linorder \<times> b256 list) list \<Rightarrow> bool" where
  "wf_scores m \<longleftrightarrow> sorted_wrt (<) (map fst m) \<and> (\<forall>(s, hs) \<in> set m. hs \<noteq> [] \<and> sorted hs \<and> distinct hs)"

lemma set_flat: "set (flat m) = {(s, h). \<exists>hs. (s, hs) \<in> set m \<and> h \<in> set hs}"
  by (auto simp: flat_def)

lemma set_flat_Cons: "set (flat ((s, hs) # m)) = Pair s ` set hs \<union> set (flat m)"
  by (auto simp: set_flat)

lemma wf_scores_Cons:
  "wf_scores ((s, hs) # m) \<longleftrightarrow>
     (\<forall>(s', hs') \<in> set m. s < s') \<and> hs \<noteq> [] \<and> sorted hs \<and> distinct hs \<and> wf_scores m"
  by (auto simp: wf_scores_def)

lemma flat_sorted: "wf_scores m \<Longrightarrow> sorted_wrt better (flat m)"
proof (induction m)
  case (Cons p m)
  obtain s hs where p: "p = (s, hs)" by (cases p)
  with Cons.prems have "sorted_wrt better (map (Pair s) hs)"
    by (auto simp: wf_scores_Cons sorted_wrt_map strict_sorted_iff)
  moreover have "better x y" if "x \<in> set (flat m)" "y \<in> set (map (Pair s) hs)" for x y
    using that Cons.prems by (auto simp: p wf_scores_Cons set_flat)
  moreover have "flat (p # m) = flat m @ map (Pair s) hs" by (simp add: flat_def p)
  ultimately show ?case using Cons by (auto simp: sorted_wrt_append p wf_scores_Cons)
qed (simp add: flat_def)

lemma score_insert_ok:
  "wf_scores m \<Longrightarrow> wf_scores (score_insert s h m) \<and>
     set (flat (score_insert s h m)) = insert (s, h) (set (flat m)) \<and>
     fst ` set (score_insert s h m) = insert s (fst ` set m)"
proof (induction m)
  case (Cons p m)
  obtain s' hs where p: "p = (s', hs)" by (cases p)
  consider "s < s'" | "s = s'" | "s' < s" by fastforce
  then show ?case
  proof cases
    case 1
    then have "\<forall>(t, hs') \<in> set m. s < t" using Cons.prems by (fastforce simp: p wf_scores_Cons)
    with 1 Cons.prems show ?thesis by (simp add: p wf_scores_Cons set_flat_Cons)
  next
    case 2
    with Cons.prems show ?thesis
      by (auto simp: p wf_scores_Cons set_flat_Cons set_insort_insert sorted_insort_insert
          distinct_insort_insert)
  next
    case 3
    with Cons have ih: "wf_scores (score_insert s h m)"
      "set (flat (score_insert s h m)) = insert (s, h) (set (flat m))"
      "fst ` set (score_insert s h m) = insert s (fst ` set m)" by (auto simp: p wf_scores_Cons)
    have "s' < t" if "t \<in> insert s (fst ` set m)" for t
      using that 3 Cons.prems by (auto simp: p wf_scores_Cons)
    then have "\<forall>(t, hs') \<in> set (score_insert s h m). s' < t"
      unfolding ih(3) [symmetric] by (metis case_prodI2 fst_conv imageI)
    moreover have "\<not> s < s'" "s \<noteq> s'" using 3 by auto
    ultimately show ?thesis
      using ih 3 Cons.prems by (simp add: p wf_scores_Cons set_flat_Cons insert_commute)
  qed
qed (simp add: wf_scores_def set_flat)

lemma score_remove_subset: "fst ` set (score_remove s h m) \<subseteq> fst ` set m"
  by (induction s h m rule: score_remove.induct) (auto simp: Let_def)

lemma score_remove_ok:
  "wf_scores m \<Longrightarrow> wf_scores (score_remove s h m) \<and>
     set (flat (score_remove s h m)) = set (flat m) - {(s, h)}"
proof (induction m)
  case (Cons p m)
  obtain s' hs where p: "p = (s', hs)" by (cases p)
  show ?case
  proof (cases "s = s'")
    case True
    from Cons.prems have "set (remove1 h hs) = set hs - {h}" "(s, hs') \<notin> set m" for hs'
      by (auto simp: p wf_scores_Cons True)
    moreover have "b = h" if "remove1 h hs = []" "b \<in> set hs" for b
      using that in_set_remove1 [of b h hs] by auto
    ultimately show ?thesis
      using Cons.prems True by (auto simp: p wf_scores_Cons set_flat Let_def sorted_remove1)
  next
    case False
    have "\<forall>(s'', hs') \<in> set (score_remove s h m). s' < s''"
      using Cons.prems score_remove_subset [of s h m] by (fastforce simp: p wf_scores_Cons)
    with Cons False show ?thesis by (auto simp: p wf_scores_Cons set_flat_Cons)
  qed
qed (simp add: wf_scores_def set_flat)

subsection \<open>Specification of the order\<close>

text \<open>
  An order is ready when no remaining order has a lower nonce of one of its signers. The
  specification takes, as long as orders remain, the ready order with the highest score, and
  among equal scores the one with the lowest hash.
\<close>

definition order_ready :: "'c checkpoint list \<Rightarrow> 'c checkpoint \<Rightarrow> bool" where
  "order_ready L x \<longleftrightarrow>
     (\<forall>(a, n) \<in> set (nonces x). \<forall>y \<in> set L. \<forall>(a', n') \<in> set (nonces y). a' = a \<longrightarrow> n \<le> n')"

definition nonce_before :: "'c checkpoint \<Rightarrow> 'c checkpoint \<Rightarrow> bool" where
  "nonce_before x y \<longleftrightarrow>
     (\<forall>(a, n) \<in> set (nonces x). \<forall>(a', n') \<in> set (nonces y). a' = a \<longrightarrow> n < n')"

definition nonce_ordered :: "'c checkpoint list \<Rightarrow> bool" where
  "nonce_ordered L \<longleftrightarrow> sorted_wrt nonce_before L \<and> (\<forall>x \<in> set L. distinct (map fst (nonces x)))"

inductive greedy ::
    "(bytes \<Rightarrow> b256) \<Rightarrow> ('c checkpoint \<Rightarrow> string + 's :: linorder) \<Rightarrow>
     'c checkpoint list \<Rightarrow> 'c checkpoint list \<Rightarrow> bool" for keccak score where
  greedy_Nil: "greedy keccak score [] []"
| greedy_step: "x \<in> set L \<Longrightarrow> order_ready L x \<Longrightarrow> score x = Inr s \<Longrightarrow>
    (\<And>y. y \<in> set L \<Longrightarrow> order_ready L y \<Longrightarrow> y \<noteq> x \<Longrightarrow>
       \<exists>s'. score y = Inr s' \<and> better (s, order_hash keccak x) (s', order_hash keccak y)) \<Longrightarrow>
    greedy keccak score (remove1 x L) os \<Longrightarrow> greedy keccak score L (x # os)"

lemma nonce_ordered_remove1: "distinct L \<Longrightarrow> nonce_ordered L \<Longrightarrow> nonce_ordered (remove1 x L)"
  by (auto simp: nonce_ordered_def distinct_remove1_removeAll removeAll_filter_not_eq sorted_wrt_filter)

lemma nonce_before_cases:
  "sorted_wrt nonce_before L \<Longrightarrow> x \<in> set L \<Longrightarrow> y \<in> set L \<Longrightarrow> x \<noteq> y \<Longrightarrow>
     nonce_before x y \<or> nonce_before y x"
  by (induction L) auto

lemma ready_before:
  assumes "nonce_ordered L" "x \<in> set L" "y \<in> set L" "x \<noteq> y" "order_ready L x"
  shows "nonce_before x y"
proof -
  have "n < n'" if "(a, n) \<in> set (nonces x)" "(a, n') \<in> set (nonces y)" for a n n'
  proof -
    from assms(5) that assms(3) have "n \<le> n'" by (fastforce simp: order_ready_def)
    moreover from nonce_before_cases [OF _ assms(2-4)] assms(1) that have "n < n' \<or> n' < n"
      by (fastforce simp: nonce_ordered_def nonce_before_def)
    ultimately show ?thesis by auto
  qed
  then show ?thesis by (auto simp: nonce_before_def)
qed

lemma greedy_perm: "greedy keccak score L os \<Longrightarrow> mset os = mset L"
  by (induction rule: greedy.induct) simp_all

lemma greedy_nonce_ordered:
  "greedy keccak score L os \<Longrightarrow> distinct L \<Longrightarrow> nonce_ordered L \<Longrightarrow> nonce_ordered os"
proof (induction rule: greedy.induct)
  case (greedy_step x L s os)
  from greedy_perm [OF greedy_step(5)] have set_os: "set os = set (remove1 x L)"
    by (metis set_mset_mset)
  then have "\<forall>y \<in> set os. nonce_before x y"
    using ready_before [OF greedy_step.prems(2) greedy_step(1) _ _ greedy_step(2)] greedy_step.prems(1)
    by auto
  moreover have "nonce_ordered os"
    using greedy_step nonce_ordered_remove1 by (metis distinct_remove1)
  ultimately show ?case using greedy_step(1) greedy_step.prems(2) by (auto simp: nonce_ordered_def)
qed simp

text \<open>The first order of a nonce-ordered list is always ready, so the greedy choice exists.\<close>

lemma first_ready:
  assumes "nonce_ordered (x # L)"
  shows "order_ready (x # L) x"
proof -
  have "n \<le> n'" if "(a, n) \<in> set (nonces x)" "(a, n') \<in> set (nonces x)" for a n n'
    using that assms by (auto simp: nonce_ordered_def dest: eq_key_imp_eq_value)
  moreover have "n \<le> n'" if "(a, n) \<in> set (nonces x)" "y \<in> set L" "(a, n') \<in> set (nonces y)" for a n n' y
    using that assms by (fastforce simp: nonce_ordered_def nonce_before_def)
  ultimately show ?thesis by (auto simp: order_ready_def)
qed

subsection \<open>SortedOrders implements the specification\<close>

definition so_inv ::
    "(bytes \<Rightarrow> b256) \<Rightarrow> ('c checkpoint \<Rightarrow> string + 's :: linorder) \<Rightarrow> ('c, 's) sorted_orders \<Rightarrow>
     'c checkpoint list \<Rightarrow> bool" where
  "so_inv keccak score so L \<longleftrightarrow>
     distinct (map (order_hash keccak) L) \<and>
     map_of (all_orders so) = map_of (map (\<lambda>x. (order_hash keccak x, x)) L) \<and>
     wf_scores (by_score so) \<and>
     set (flat (by_score so)) = {(s, h). \<exists>x \<in> set L. score x = Inr s \<and> h = order_hash keccak x} \<and>
     (\<forall>x \<in> set L. \<exists>s. score x = Inr s) \<and>
     wf_entries (so_nonces so) \<and>
     vals (so_nonces so) = (\<lambda>a. {n. \<exists>x \<in> set L. (a, n) \<in> set (nonces x)})"

lemma nonces_ready_iff:
  assumes "wf_entries m" "\<And>a n. (a, n) \<in> set ns \<Longrightarrow> vals m a \<noteq> {}"
  shows "nonces_ready m ns = Some (\<forall>(a, n) \<in> set ns. \<forall>n' \<in> vals m a. n \<le> n')"
  using assms(2)
proof (induction ns)
  case (Cons p ns)
  obtain a n where p: "p = (a, n)" by (cases p)
  with Cons.prems [of a n] obtain l vs where m: "m a = Some (l # vs)"
    by (auto simp: vals_def neq_Nil_conv split: option.splits)
  then have "sorted (l # vs)" using assms(1) by (metis wf_entries_def)
  then have "\<forall>n' \<in> vals m a. l \<le> n'" "l \<in> vals m a"
    using m by (auto simp: vals_def)
  then have "(\<forall>n' \<in> vals m a. n \<le> n') \<longleftrightarrow> \<not> l < n" by (meson leD leI order_trans)
  with Cons m p show ?case by auto
qed simp

lemma order_ready_vals:
  "order_ready L x \<longleftrightarrow>
     (\<forall>(a, n) \<in> set (nonces x). \<forall>n' \<in> {n'. \<exists>y \<in> set L. (a, n') \<in> set (nonces y)}. n \<le> n')"
  unfolding order_ready_def by blast

lemma map_of_order:
  "distinct (map f L) \<Longrightarrow> x \<in> set L \<Longrightarrow> map_of (map (\<lambda>x. (f x, x)) L) (f x) = Some x"
  by (rule map_of_is_SomeI) (auto simp: comp_def)

lemma pop_best_loop_find:
  assumes inv: "so_inv keccak score so L"
  shows "pop_best_loop so skip =
    map_option (\<lambda>(s, h). (the (map_of (all_orders so) h), s))
      (find (\<lambda>(s, h). order_ready L (the (map_of (all_orders so) h))) (drop skip (flat (by_score so))))"
proof (induction "length (flat (by_score so)) - skip" arbitrary: skip rule: less_induct)
  case less
  show ?case
  proof (cases "skip < length (flat (by_score so))")
    case False
    then show ?thesis
      by (subst pop_best_loop.simps) (simp add: nth_order_flat list_get_def)
  next
    case True
    obtain s h where sh: "flat (by_score so) ! skip = (s, h)" by fastforce
    with True inv obtain x where x: "x \<in> set L" "score x = Inr s" "h = order_hash keccak x"
      by (fastforce simp: so_inv_def dest: nth_mem)
    then have look: "map_of (all_orders so) h = Some x"
      using inv map_of_order [of "order_hash keccak" L x] by (simp add: so_inv_def)
    have rd: "nonces_ready (so_nonces so) (nonces x) = Some (order_ready L x)"
      using inv x(1) unfolding order_ready_vals by (subst nonces_ready_iff) (auto simp: so_inv_def)
    show ?thesis
      using True sh look rd less [of "Suc skip"]
      by (subst pop_best_loop.simps)
        (auto simp: nth_order_flat list_get_def Cons_nth_drop_Suc [symmetric] split: bool.splits)
  qed
qed

lemma nonces_private:
  assumes "nonce_ordered L" "x \<in> set L" "y \<in> set L" "(a, n) \<in> set (nonces x)" "(a, n) \<in> set (nonces y)"
  shows "x = y"
  using nonce_before_cases [of L x y] assms by (fastforce simp: nonce_ordered_def nonce_before_def)

lemma remove_order_inv:
  assumes inv: "so_inv keccak score so L" and x: "x \<in> set L" "score x = Inr s" and "nonce_ordered L"
  shows "so_inv keccak score (remove_order keccak so x s) (remove1 x L)"
proof -
  let ?h = "order_hash keccak"
  have dist: "distinct (map ?h L)" "distinct L" using inv by (auto simp: so_inv_def distinct_map)
  have set_r: "set (remove1 x L) = set L - {x}" using dist(2) by simp
  have hx: "?h y = ?h x \<longleftrightarrow> y = x" if "y \<in> set L" for y
    using that x(1) dist(1) by (auto simp: distinct_map dest: inj_onD)
  have r: "remove1 x L = filter (\<lambda>y. ?h y \<noteq> ?h x) L"
    using hx by (auto simp: distinct_remove1_removeAll [OF dist(2)] removeAll_filter_not_eq intro: filter_cong)
  have "map_of (filter (\<lambda>(k, _). ?h x \<noteq> k) (map (\<lambda>x. (?h x, x)) L)) =
      (map_of (map (\<lambda>x. (?h x, x)) L))(?h x := None)"
    using AList.delete_conv' [of "?h x" "map (\<lambda>x. (?h x, x)) L"] by (simp add: AList.delete_eq fun_upd_def)
  then have lookup: "(map_of (map (\<lambda>x. (?h x, x)) L))(?h x := None) = map_of (map (\<lambda>x. (?h x, x)) (remove1 x L))"
    by (simp add: r filter_map comp_def eq_commute [of "?h x"])
  have sc: "wf_scores (score_remove s (?h x) (by_score so))"
    "set (flat (score_remove s (?h x) (by_score so))) = set (flat (by_score so)) - {(s, ?h x)}"
    using score_remove_ok inv by (auto simp: so_inv_def)
  have ent: "wf_entries (fold (\<lambda>(k, v). entry_remove k v) (nonces x) (so_nonces so))"
    "vals (fold (\<lambda>(k, v). entry_remove k v) (nonces x) (so_nonces so)) =
      (\<lambda>a. vals (so_nonces so) a - {n. (a, n) \<in> set (nonces x)})"
    using entries_fold_remove [of "so_nonces so" "nonces x"] inv by (simp_all add: so_inv_def)
  have "set (flat (by_score so)) - {(s, ?h x)} =
      {(s, h). \<exists>y \<in> set (remove1 x L). score y = Inr s \<and> h = ?h y}"
    using inv x hx unfolding set_r by (auto simp: so_inv_def)
  moreover have "vals (so_nonces so) a - {n. (a, n) \<in> set (nonces x)} =
      {n. \<exists>y \<in> set (remove1 x L). (a, n) \<in> set (nonces y)}" for a
    using inv x(1) nonces_private [OF assms(4) x(1)] unfolding set_r by (auto simp: so_inv_def)
  moreover have "distinct (map ?h (remove1 x L))" using dist(1) by (simp add: r distinct_map_filter)
  moreover have "\<forall>y \<in> set (remove1 x L). \<exists>s. score y = Inr s" using inv set_r by (auto simp: so_inv_def)
  ultimately show ?thesis
    using inv lookup sc ent by (simp add: so_inv_def remove_order_def Let_def delete_conv')
qed

lemma pop_best_spec:
  assumes inv: "so_inv keccak score so L" and "nonce_ordered L" "L \<noteq> []"
  shows "\<exists>x s so'. pop_best keccak so = Some (x, so') \<and> x \<in> set L \<and> order_ready L x \<and> score x = Inr s \<and>
    (\<forall>y \<in> set L. order_ready L y \<longrightarrow> y \<noteq> x \<longrightarrow>
       (\<exists>s'. score y = Inr s' \<and> better (s, order_hash keccak x) (s', order_hash keccak y))) \<and>
    so_inv keccak score so' (remove1 x L)"
proof -
  let ?f = "flat (by_score so)" and ?o = "\<lambda>h. the (map_of (all_orders so) h)"
  have look: "?o (order_hash keccak y) = y" if "y \<in> set L" for y
    using inv that map_of_order [of "order_hash keccak" L y] by (simp add: so_inv_def)
  have in_flat: "\<exists>s. score y = Inr s \<and> (s, order_hash keccak y) \<in> set ?f" if "y \<in> set L" for y
    using inv that by (fastforce simp: so_inv_def)
  from assms(2,3) obtain z where z: "z \<in> set L" "order_ready L z"
    using first_ready by (cases L) auto
  then obtain t where "find (\<lambda>(s, h). order_ready L (?o h)) ?f = Some t"
    using in_flat [OF z(1)] look [OF z(1)] by (cases "find (\<lambda>(s, h). order_ready L (?o h)) ?f")
      (fastforce simp: find_None_iff)+
  then obtain i s h where i: "i < length ?f" "?f ! i = (s, h)" "order_ready L (?o h)" "t = (s, h)"
    "\<And>j. j < i \<Longrightarrow> \<not> (case ?f ! j of (s, h) \<Rightarrow> order_ready L (?o h))"
    by (cases t) (auto simp: find_Some_iff)
  with inv obtain x where x: "x \<in> set L" "score x = Inr s" "h = order_hash keccak x"
    by (fastforce simp: so_inv_def dest: nth_mem)
  have best: "\<exists>s'. score y = Inr s' \<and> better (s, order_hash keccak x) (s', order_hash keccak y)"
    if y: "y \<in> set L" "order_ready L y" "y \<noteq> x" for y
  proof -
    obtain s' j where j: "score y = Inr s'" "j < length ?f" "?f ! j = (s', order_hash keccak y)"
      using in_flat [OF y(1)] by (auto simp: in_set_conv_nth)
    moreover have "j \<noteq> i" using i(2) j(3) x(3) look [OF x(1)] look [OF y(1)] y(3) by auto
    moreover have "\<not> j < i" using i(5) [of j] j(3) look [OF y(1)] y(2) by auto
    moreover have "sorted_wrt better ?f" using flat_sorted inv by (auto simp: so_inv_def)
    ultimately have "better (?f ! i) (?f ! j)" by (metis linorder_neqE_nat sorted_wrt_nth_less)
    with i(2) j x(3) show ?thesis by simp
  qed
  have "pop_best keccak so = Some (x, remove_order keccak so x s)"
    using pop_best_loop_find [OF inv, of 0] \<open>find _ _ = Some t\<close> i(4) x look [OF x(1)]
    by (simp add: pop_best_def)
  with x best i(3) look [OF x(1)] remove_order_inv [OF inv x(1,2) assms(2)] show ?thesis by auto
qed

lemma pop_best_empty:
  assumes "so_inv keccak score so []"
  shows "pop_best keccak so = None"
proof -
  have "flat (by_score so) = []" using assms by (simp add: so_inv_def)
  then show ?thesis using pop_best_loop_find [OF assms, of 0] by (simp add: pop_best_def)
qed

lemma drain_greedy:
  "so_inv keccak score so L \<Longrightarrow> nonce_ordered L \<Longrightarrow> \<exists>os. drain keccak so = Some os \<and> greedy keccak score L os"
proof (induction "length L" arbitrary: so L)
  case 0
  then show ?case by (subst drain.simps) (auto simp: pop_best_empty intro: greedy_Nil)
next
  case (Suc n)
  then obtain x s so' where x: "pop_best keccak so = Some (x, so')" "x \<in> set L" "order_ready L x" "score x = Inr s"
    "\<forall>y \<in> set L. order_ready L y \<longrightarrow> y \<noteq> x \<longrightarrow>
       (\<exists>s'. score y = Inr s' \<and> better (s, order_hash keccak x) (s', order_hash keccak y))"
    "so_inv keccak score so' (remove1 x L)"
    using pop_best_spec [OF Suc(3,4)] by (metis list.size(3) nat.distinct(1))
  have "distinct L" using Suc(3) by (auto simp: so_inv_def distinct_map)
  with Suc x obtain os where "drain keccak so' = Some os" "greedy keccak score (remove1 x L) os"
    using nonce_ordered_remove1 by (metis length_remove1 diff_Suc_1)
  with x show ?case by (subst drain.simps) (auto intro: greedy_step)
qed

subsection \<open>Construction\<close>

lemma update_all_new:
  assumes "distinct (map f L)" "\<And>x. x \<in> set L \<Longrightarrow> f x \<notin> fst ` set m"
  shows "fold (\<lambda>x. AList.update (f x) x) L m = m @ map (\<lambda>x. (f x, x)) L"
  using assms
proof (induction L arbitrary: m)
  case (Cons x L)
  have new: "k \<notin> fst ` set m \<Longrightarrow> AList.update k v m = m @ [(k, v)]" for k v and m :: "('a \<times> 'b) list"
    by (induction m) auto
  have "f y \<notin> fst ` set (m @ [(f x, x)])" if "y \<in> set L" for y
    using that Cons.prems by (auto simp: image_iff)
  with Cons.IH [of "m @ [(f x, x)]"] Cons.prems new [of "f x" m x] show ?case by simp
qed simp

lemma score_all_ok:
  assumes "\<forall>(h, x) \<in> set xs. \<exists>s. score x = Inr s" "wf_scores m"
  shows "\<exists>m'. score_all score xs m = Inr m' \<and> wf_scores m' \<and>
    set (flat m') = set (flat m) \<union> {(s, h). \<exists>x. (h, x) \<in> set xs \<and> score x = Inr s}"
  using assms
proof (induction xs arbitrary: m)
  case (Cons p xs)
  obtain h x where p: "p = (h, x)" by (cases p)
  with Cons.prems obtain s where s: "score x = Inr s" by auto
  with Cons.IH [of "score_insert s h m"] Cons.prems score_insert_ok [of m s h] p show ?case by auto
qed simp

lemma try_from_inv:
  assumes "L = filter (\<lambda>cp. \<not> is_barrier cp) h" "distinct (map (order_hash keccak) L)"
    and "\<forall>x \<in> set L. \<exists>s. score x = Inr s"
  shows "\<exists>so. sorted_orders_try_from keccak score h = Inr so \<and> so_inv keccak score so L"
proof -
  let ?all = "map (\<lambda>x. (order_hash keccak x, x)) L"
  have all: "fold (\<lambda>cp. AList.update (order_hash keccak cp) cp) L [] = ?all"
    using update_all_new [OF assms(2), of "[]"] by simp
  obtain m where m: "score_all score ?all [] = Inr m" "wf_scores m"
    "set (flat m) = {(s, h). \<exists>x. (h, x) \<in> set ?all \<and> score x = Inr s}"
    using score_all_ok [of ?all score "[]"] assms(3) by (auto simp: wf_scores_def flat_def)
  let ?ns = "fold (\<lambda>(k, v). entry_insert k v) (concat (map (\<lambda>(h, cp). nonces cp) ?all)) Map.empty"
  have ns: "wf_entries ?ns" "vals ?ns = (\<lambda>a. {n. \<exists>x \<in> set L. (a, n) \<in> set (nonces x)})"
    using entries_fold_insert [of Map.empty "concat (map (\<lambda>(h, cp). nonces cp) ?all)"]
    by (auto simp: wf_entries_def vals_def fun_eq_iff)
  show ?thesis
    using m ns assms unfolding sorted_orders_try_from_def Let_def assms(1) [symmetric] all
    by (auto simp: so_inv_def)
qed

subsection \<open>Execution in the new order\<close>

text \<open>\<open>es\<close> are the checkpoints that execute \<open>items\<close> one after the other on top of \<open>p\<close>.\<close>

fun executed_chain :: "'c checkpoint \<Rightarrow> 'c checkpoint list \<Rightarrow> 'c checkpoint list \<Rightarrow> bool" where
  "executed_chain p [] [] \<longleftrightarrow> True"
| "executed_chain p (item # items) (e # es) \<longleftrightarrow>
     (\<exists>ex r. cp_try_into_executable item = Inr ex \<and> execute (cp_block p) (checkpoint_db p) ex = Inr r \<and>
        mutation e = Executable r) \<and> executed_chain e items es"
| "executed_chain p _ _ \<longleftrightarrow> False"

lemma executed_chain_length: "executed_chain p items es \<Longrightarrow> length es = length items"
  by (induction p items es rule: executed_chain.induct) auto

lemma apply_all_ok:
  assumes "fresh_heap heap" "coherent_cp p" "apply_all heap display payload items p w = (Inr r, w')"
  shows "coherent_cp r \<and> (\<exists>es. history r = history p @ es \<and> executed_chain p items es \<and>
    (\<forall>c \<in> set es. \<not> is_barrier c))"
  using assms(2,3)
proof (induction items arbitrary: p w)
  case (Cons item items)
  then obtain ex cp w1 where ex: "cp_try_into_executable item = Inr ex"
    "apply_in heap (cp_iter payload @ cp_iter p) w p ex = (Inr cp, w1)"
    "apply_all heap display payload items cp w1 = (Inr r, w')"
    by (auto split: sum.splits prod.splits)
  have ap: "coherent_cp cp" "history cp = history p @ [cp]" "\<not> is_barrier cp"
    "\<exists>r. execute (cp_block p) (checkpoint_db p) ex = Inr r \<and> mutation cp = Executable r"
    using apply_in_Inr [OF ex(2) assms(1) Cons.prems(1)] by auto
  from Cons.IH [OF ap(1) ex(3)] obtain es where "coherent_cp r" "history r = history cp @ es"
    "executed_chain cp items es" "\<forall>c \<in> set es. \<not> is_barrier c" by blast
  with ap ex(1) show ?case by (intro conjI exI [of _ "cp # es"]) auto
qed (auto intro: exI [of _ "[]"])

lemma coherent_depth: "coherent_cp cp \<Longrightarrow> length (history cp) = Suc (depth cp)"
  using wf_length_iter [of cp] history_eq [of cp] by (simp add: coherent_cp_def)

lemma staging_parts:
  assumes "coherent_cp cp"
  shows "\<exists>b rest. history_staging cp = b # rest \<and> is_barrier b \<and> (\<forall>c \<in> set rest. \<not> is_barrier c) \<and>
    history cp = history_sealed cp @ rest \<and> coherent_cp b \<and> history b = history_sealed cp"
proof -
  obtain i where i: "i < length (history cp)" "history_staging cp = drop i (history cp)"
    "history_sealed cp = take (Suc i) (history cp)" "is_barrier (history cp ! i)"
    "\<And>j. i < j \<Longrightarrow> j < length (history cp) \<Longrightarrow> \<not> is_barrier (history cp ! j)"
    by (rule staging_sealed [OF assms]) blast
  have "\<not> is_barrier c" if "c \<in> set (drop (Suc i) (history cp))" for c
    using that i(5) by (auto simp: in_set_conv_nth)
  moreover have "history cp = take (Suc i) (history cp) @ drop (Suc i) (history cp)" by simp
  ultimately show ?thesis
    using i history_nth [OF assms i(1)] by (metis Cons_nth_drop_Suc)
qed

subsection \<open>Properties\<close>

text \<open>The orders of the staging part, drained by their scores.\<close>

lemma staging_drained:
  fixes score :: "'c checkpoint \<Rightarrow> string + 's :: linorder"
  assumes "L = filter (\<lambda>c. \<not> is_barrier c) (history_staging payload)"
    and "distinct (map (order_hash keccak) L)" "nonce_ordered L" "\<forall>x \<in> set L. \<exists>s. score x = Inr s"
  obtains so os where "sorted_orders_try_from keccak score (history_staging payload) = Inr so"
    "drain keccak so = Some os" "greedy keccak score L os" "nonce_ordered os" "mset os = mset L"
proof -
  obtain so where so: "sorted_orders_try_from keccak score (history_staging payload) = Inr so"
    "so_inv keccak score so L"
    using try_from_inv [OF assms(1,2,4)] by auto
  obtain os where os: "drain keccak so = Some os" "greedy keccak score L os"
    using drain_greedy [OF so(2) assms(3)] by blast
  have "distinct L" using assms(2) by (simp add: distinct_map)
  then have "nonce_ordered os" using greedy_nonce_ordered [OF os(2)] assms(3) by blast
  then show ?thesis using that so(1) os greedy_perm [OF os(2)] by blast
qed

text \<open>Applying the staged orders anew, in any order, on the last barrier.\<close>

lemma apply_all_restages:
  assumes "coherent_cp payload" "fresh_heap heap" "history payload = history_sealed payload @ rest"
    and "coherent_cp b" "history b = history_sealed payload" "length os = length rest"
    and "apply_all heap display payload os b w = (Inr r, w')"
  obtains es where "history r = history_sealed payload @ es" "executed_chain b os es"
    "depth r = depth payload" "history_sealed r = history_sealed payload"
proof -
  obtain es where es: "coherent_cp r" "history r = history b @ es" "executed_chain b os es"
    "\<forall>c \<in> set es. \<not> is_barrier c"
    using apply_all_ok [OF assms(2,4,7)] by blast
  have "length es = length rest" using executed_chain_length [OF es(3)] assms(6) by simp
  then have "depth r = depth payload"
    using coherent_depth [OF es(1)] coherent_depth [OF assms(1)] es(2) assms(3,5) by simp
  moreover have "history_sealed r = history_sealed payload"
    using staging_of_extension [OF es(1) _ assms(1) es(4)] es(2) assms(5) by simp
  ultimately show ?thesis using that es(2,3) assms(5) by simp
qed

text \<open>With an order in the staging part, every order of it is executed again on its barrier.\<close>

lemma order_by_step_reorders:
  assumes "history_staging payload = b # rest" "is_barrier b" "sorted_orders_try_from keccak score (b # rest) = Inr so"
    and "drain keccak so = Some (x # xs)" "\<not> is_barrier x"
  shows "order_by_step heap keccak display score payload w =
    (case apply_all heap display payload (x # xs) b w of
       (Inl e, w') \<Rightarrow> Some (Fail e, w')
     | (Inr r, w') \<Rightarrow> if depth r = depth payload then Some (Ok r, w') else None)"
proof -
  have "cp_hash keccak b \<noteq> cp_hash keccak x"
    using order_hash_Some [of x keccak] assms(2,5)
    by (simp add: cp_hash_def as_transaction_def as_bundle_def is_barrier_def)
  with assms show ?thesis by (simp add: order_by_step_def span_at_def list_get_def)
qed

text \<open>
  An order of a list cannot be executed: the orders before it are executed on top of \<open>b\<close>, and its
  own execution on the checkpoint \<open>q\<close> they lead to gives an error, which is the error of the step.
\<close>

definition fails_at ::
    "(execution_error \<Rightarrow> string) \<Rightarrow> 'c checkpoint \<Rightarrow> 'c checkpoint list \<Rightarrow> payload_builder_error \<Rightarrow> bool" where
  "fails_at display b ordered err \<longleftrightarrow>
     (\<exists>pre item post es q ex e. ordered = pre @ item # post \<and> executed_chain b pre es \<and>
        history q = history b @ es \<and> cp_try_into_executable item = Inr ex \<and>
        execute (cp_block q) (checkpoint_db q) ex = Inl e \<and> err = Other (display e))"

lemma fails_at_Cons:
  assumes "fails_at display c items err" "executed_chain b [item] [c]" "history c = history b @ [c]"
  shows "fails_at display b (item # items) err"
proof -
  from assms(1) obtain pre it post es q ex e where f: "items = pre @ it # post" "executed_chain c pre es"
    "history q = history c @ es" "cp_try_into_executable it = Inr ex"
    "execute (cp_block q) (checkpoint_db q) ex = Inl e" "err = Other (display e)"
    unfolding fails_at_def by blast
  then have "item # items = (item # pre) @ it # post \<and> executed_chain b (item # pre) (c # es) \<and>
      history q = history b @ c # es" using assms(2,3) by simp
  with f(4-6) show ?thesis unfolding fails_at_def by blast
qed

lemma apply_all_fails:
  assumes "fresh_heap heap" "coherent_cp b" "\<forall>x \<in> set items. \<not> is_barrier x"
    and "apply_all heap display payload items b w = (Inl err, w')"
  shows "fails_at display b items err"
  using assms(2-4)
proof (induction items arbitrary: b w)
  case (Cons item items)
  from Cons.prems(2) obtain r where "mutation item = Executable r"
    by (cases "mutation item") (auto simp: is_barrier_def)
  then obtain ex where ex: "cp_try_into_executable item = Inr ex"
    by (cases "source r") (simp_all add: cp_try_into_executable_def as_transaction_def as_bundle_def)
  obtain res w1 where ap: "apply_in heap (cp_iter payload @ cp_iter b) w b ex = (res, w1)" by fastforce
  show ?case
  proof (cases res)
    case (Inl e)
    with ap have "execute (cp_block b) (checkpoint_db b) ex = Inl e"
      by (cases "execute (cp_block b) (checkpoint_db b) ex")
        (auto simp: apply_in_def cp_apply_def split: prod.splits)
    moreover have "err = Other (display e)" using Cons.prems(3) ex ap Inl by simp
    ultimately show ?thesis
      using ex unfolding fails_at_def
      by (intro exI [of _ "[]"] exI [of _ item] exI [of _ items] exI [of _ b]) simp
  next
    case (Inr c)
    have c: "coherent_cp c" "history c = history b @ [c]"
      "\<exists>r. execute (cp_block b) (checkpoint_db b) ex = Inr r \<and> mutation c = Executable r"
      using apply_in_Inr [OF ap [unfolded Inr] assms(1) Cons.prems(1)] by auto
    have "apply_all heap display payload items c w1 = (Inl err, w')" using Cons.prems(3) ex ap Inr by simp
    with Cons.IH [OF c(1)] Cons.prems(2) have "fails_at display c items err" by simp
    then show ?thesis by (rule fails_at_Cons) (use c ex in auto)
  qed
qed simp

text \<open>The step when every order has a score.\<close>

lemma order_by_scored:
  fixes score :: "'c checkpoint \<Rightarrow> string + 's :: linorder"
  assumes "coherent_cp payload" "fresh_heap heap"
    and "L = filter (\<lambda>c. \<not> is_barrier c) (history_staging payload)"
    and "distinct (map (order_hash keccak) L)" "nonce_ordered L" "\<forall>x \<in> set L. \<exists>s. score x = Inr s"
  shows "\<exists>flow w' ordered. order_by_step heap keccak display score payload w = Some (flow, w') \<and>
    greedy keccak score L ordered \<and> mset ordered = mset L \<and> nonce_ordered ordered \<and>
    (case flow of
       Fail e \<Rightarrow> fails_at display (last (history_sealed payload)) ordered e
     | Break r \<Rightarrow> False
     | Ok r \<Rightarrow> history_sealed r = history_sealed payload \<and>
         (\<exists>es. history r = history_sealed payload @ es \<and>
           executed_chain (last (history_sealed payload)) ordered es))"
proof -
  obtain b rest where st: "history_staging payload = b # rest" "is_barrier b"
    "\<forall>c \<in> set rest. \<not> is_barrier c" "history payload = history_sealed payload @ rest"
    "coherent_cp b" "history b = history_sealed payload"
    using staging_parts [OF assms(1)] by blast
  then have L: "L = rest" by (simp add: assms(3))
  have bl: "last (history_sealed payload) = b" using last_history [OF st(5)] st(6) by simp
  obtain so os where so: "sorted_orders_try_from keccak score (b # rest) = Inr so" and
    os: "drain keccak so = Some os" "greedy keccak score L os" and
    no: "nonce_ordered os" and perm: "mset os = mset L"
    using staging_drained [OF assms(3-6)] unfolding st(1) .
  note ordered = os(2) perm no
  show ?thesis
  proof (cases os)
    case Nil
    with perm L have "rest = []" by simp
    then have "order_by_step heap keccak display score payload w = Some (Ok payload, w)"
      using so os(1) Nil by (simp add: order_by_step_def st(1))
    with ordered st(4) Nil \<open>rest = []\<close> show ?thesis by force
  next
    case (Cons x xs)
    have bars: "\<forall>y \<in> set os. \<not> is_barrier y" using perm L st(3) by (metis set_mset_mset)
    then have "\<not> is_barrier x" using Cons by simp
    note run = order_by_step_reorders [OF st(1,2) so os(1) [unfolded Cons] this, folded Cons]
    obtain res w' where app: "apply_all heap display payload os b w = (res, w')" by fastforce
    show ?thesis
    proof (cases res)
      case (Inl e)
      with apply_all_fails [OF assms(2) st(5) bars] app have "fails_at display b os e" by blast
      with ordered Inl show ?thesis unfolding run app bl by force
    next
      case (Inr r)
      have "length os = length rest" using perm L by (metis size_mset)
      then obtain es where "history r = history_sealed payload @ es" "executed_chain b os es"
        "depth r = depth payload" "history_sealed r = history_sealed payload"
        using apply_all_restages [OF assms(1,2) st(4,5,6) _ app [unfolded Inr]] by blast
      with ordered Inr show ?thesis unfolding run app bl by force
    qed
  qed
qed

text \<open>An order whose score cannot be computed fails the step.\<close>

lemma score_all_error:
  "\<exists>(h, x) \<in> set xs. \<exists>e. score x = Inl e \<Longrightarrow> \<exists>(h, x) \<in> set xs. \<exists>e. score x = Inl e \<and> score_all score xs m = Inl e"
proof (induction xs arbitrary: m)
  case (Cons p xs)
  obtain h x where p: "p = (h, x)" by (cases p)
  show ?case
  proof (cases "score x")
    case (Inr s)
    with p Cons show ?thesis by fastforce
  qed (use p in auto)
qed simp

lemma order_by_unscored:
  assumes "distinct (map (order_hash keccak) L)" "L = filter (\<lambda>c. \<not> is_barrier c) (history_staging payload)"
    and "\<exists>x \<in> set L. \<exists>e. score x = Inl e"
  shows "\<exists>x \<in> set L. \<exists>e. score x = Inl e \<and>
    order_by_step heap keccak display score payload w = Some (Fail (Other e), w)"
proof -
  let ?all = "map (\<lambda>x. (order_hash keccak x, x)) L"
  have all: "fold (\<lambda>cp. AList.update (order_hash keccak cp) cp) L [] = ?all"
    using update_all_new [OF assms(1), of "[]"] by simp
  have "\<exists>(h, x) \<in> set ?all. \<exists>e. score x = Inl e" using assms(3) by auto
  from score_all_error [OF this, of "[]"] obtain x e where
    "x \<in> set L" "score x = Inl e" "score_all score ?all [] = Inl e" by auto
  then show ?thesis
    unfolding order_by_step_def sorted_orders_try_from_def Let_def assms(2) [symmetric] all by auto
qed

text \<open>
  Claim C16: ordering a payload never panics when each order has at most one transaction of a
  signer, the nonces of a signer rise along the payload and the orders have distinct hashes. If the
  score of an order cannot be computed, the step fails with such a score's error and leaves the world
  as it was. Otherwise the orders of the staging part have an order of the specification, which
  always takes the order with the best score among those whose nonces are due; it is a permutation of
  them, and the nonces of every signer still rise along it. The step then returns \<open>Ok\<close> with a payload
  that has the same sealed part and on top of it executes the orders in this order, or it fails with
  the error of executing one of them on the payload of those before it. It never breaks.
\<close>

theorem order_by_sorts_staging:
  fixes score :: "'c checkpoint \<Rightarrow> string + 's :: linorder"
  assumes "coherent_cp payload" "fresh_heap heap"
    and "L = filter (\<lambda>c. \<not> is_barrier c) (history_staging payload)"
    and "distinct (map (order_hash keccak) L)" "nonce_ordered L"
  shows "if \<exists>x \<in> set L. \<exists>e. score x = Inl e
    then \<exists>x \<in> set L. \<exists>e. score x = Inl e \<and>
      order_by_step heap keccak display score payload w = Some (Fail (Other e), w)
    else \<exists>flow w' ordered. order_by_step heap keccak display score payload w = Some (flow, w') \<and>
      greedy keccak score L ordered \<and> mset ordered = mset L \<and> nonce_ordered ordered \<and>
      (case flow of
         Fail e \<Rightarrow> fails_at display (last (history_sealed payload)) ordered e
       | Break r \<Rightarrow> False
       | Ok r \<Rightarrow> history_sealed r = history_sealed payload \<and>
           (\<exists>es. history r = history_sealed payload @ es \<and>
             executed_chain (last (history_sealed payload)) ordered es))"
proof (cases "\<exists>x \<in> set L. \<exists>e. score x = Inl e")
  case True
  with order_by_unscored [OF assms(4,3) True] show ?thesis by simp
next
  case False
  then have "\<forall>x \<in> set L. \<exists>s. score x = Inr s" by (metis sum.exhaust_sel)
  with False order_by_scored [OF assms] show ?thesis by simp
qed

text \<open>
  A payload of a barrier, a transaction of signer \<open>8\<close> and a bundle of two transactions of
  signer \<open>7\<close>.
\<close>

definition sample_single :: "unit checkpoint" where
  "sample_single =
     apply_with 2 11 sample_root
       (Executable \<lparr>source = Transaction (sample_tx 3 8 0), results = [Success 21000],
                    er_state = empty_bundle_state\<rparr>) ()"

definition sample_two_nonces :: "unit checkpoint" where
  "sample_two_nonces =
     apply_with 3 12 sample_single
       (Executable \<lparr>source = Bundle (bundle_of_txs [sample_tx 5 7 0, sample_tx 7 7 1]),
                    results = [Success 21000, Success 21000], er_state = empty_bundle_state\<rparr>) ()"

lemma sample_single_sel [simp]:
  "\<not> is_barrier sample_single" "cp_hash keccak sample_single = Some 3"
  "cp_transactions sample_single = [sample_tx 3 8 0]" "cp_block sample_single = sample_block"
  "cp_iter sample_single = [sample_single, sample_root]" "depth sample_single = 1"
  "cp_try_into_executable sample_single = Inr (Transaction (sample_tx 3 8 0))"
  by (simp_all add: sample_single_def is_barrier_def cp_hash_def as_transaction_def cp_transactions_def
      result_transactions_def cp_try_into_executable_def sample_cp_iter)

lemma sample_two_nonces_sel [simp]:
  "\<not> is_barrier sample_two_nonces" "cp_hash (\<lambda>bs. 9) sample_two_nonces = Some 9"
  "cp_transactions sample_two_nonces = [sample_tx 5 7 0, sample_tx 7 7 1]"
  "cp_block sample_two_nonces = sample_block" "depth sample_two_nonces = 2"
  "cp_iter sample_two_nonces = [sample_two_nonces, sample_single, sample_root]"
  by (simp_all add: sample_two_nonces_def is_barrier_def cp_hash_def as_transaction_def as_bundle_def
      cp_transactions_def result_transactions_def bundle_transactions_def bundle_of_txs_def
      with_transaction_def bundle_default_def bundle_hash_def)

lemma sample_ordering_coherent: "coherent_cp sample_two_nonces" "coherent_cp sample_single"
proof -
  show single: "coherent_cp sample_single" unfolding sample_single_def
    by (rule coherent_cp_apply_with [OF sample_coherent(3)]) (simp add: sample_root_def)
  show "coherent_cp sample_two_nonces" unfolding sample_two_nonces_def
    by (rule coherent_cp_apply_with [OF single]) (simp add: sample_single_def sample_root_def)
qed

lemma sample_ordering_history:
  "history_staging sample_two_nonces = [sample_root, sample_single, sample_two_nonces]"
  "history_staging sample_single = [sample_root, sample_single]"
  by (simp_all add: history_staging_def history_eq [OF sample_ordering_coherent(1)]
      history_eq [OF sample_ordering_coherent(2)] rposition_def span_skip_def split_at_def)

lemma sample_scores [simp]:
  "priority_fee_score sample_single = Inr 1" "priority_fee_score sample_two_nonces = Inr 2"
  by (simp_all add: priority_fee_score_def effective_tip_per_gas_def List.map_filter_def)

lemma sample_hashes [simp]:
  "order_hash keccak sample_single = 3" "order_hash (\<lambda>bs. 9) sample_two_nonces = 9"
  by (simp_all add: order_hash_def)

lemma sample_nonces [simp]:
  "nonces sample_single = [(8, 0)]" "nonces sample_two_nonces = [(7, 0), (7, 1)]"
  "signers sample_single = [8]"
  by (simp_all add: nonces_def signers_def)

lemma apply_sample_single:
  "apply_in bump_heap alive 20 sample_root (Transaction (sample_tx 3 8 0)) = (Inr r, w') \<Longrightarrow> depth r = 1"
  "\<exists>r w'. apply_in bump_heap alive 20 sample_root (Transaction (sample_tx 3 8 0)) = (Inr r, w')"
proof -
  have "cp_apply addr now sample_root (Inr (Transaction (sample_tx 3 8 0))) =
      Inr (apply_with addr now sample_root (Executable
        \<lparr>source = Transaction (sample_tx 3 8 0), results = [Success 21000],
         er_state = take_bundle sample_evm (checkpoint_db sample_root) [undefined]\<rparr>) (cp_context sample_root))"
    for addr now
    by (simp add: cp_apply_def execute_transaction_def sample_block_defs)
  then show "apply_in bump_heap alive 20 sample_root (Transaction (sample_tx 3 8 0)) = (Inr r, w') \<Longrightarrow> depth r = 1"
    "\<exists>r w'. apply_in bump_heap alive 20 sample_root (Transaction (sample_tx 3 8 0)) = (Inr r, w')"
    by (auto simp: apply_in_def bump_heap_def)
qed

theorem order_by_sorts_staging_witness:
  "\<exists>r w' ordered es. order_by_step bump_heap (\<lambda>bs. 9) (\<lambda>e. []) priority_fee_score sample_single 20 =
     Some (Ok r, w') \<and> mset ordered = {#sample_single#} \<and>
     history r = history_sealed sample_single @ es \<and>
     executed_chain (last (history_sealed sample_single)) ordered es"
proof -
  let ?L = "filter (\<lambda>c. \<not> is_barrier c) (history_staging sample_single)"
  let ?step = "order_by_step bump_heap (\<lambda>bs. 9) (\<lambda>e. []) priority_fee_score sample_single 20"
  have L: "?L = [sample_single]" by (simp add: sample_ordering_history)
  have pre: "distinct (map (order_hash (\<lambda>bs. 9)) ?L)" "nonce_ordered ?L"
    "\<forall>x \<in> set ?L. \<exists>s. priority_fee_score x = Inr s"
    unfolding L by (simp_all add: nonce_ordered_def)
  then have scored: "(\<exists>x \<in> set ?L. \<exists>e. priority_fee_score x = Inl e) = False" by force
  from order_by_sorts_staging [OF sample_ordering_coherent(2) fresh_bump_heap refl pre(1,2),
      of priority_fee_score "\<lambda>e. []" 20, unfolded scored]
  obtain flow w' ordered where flow: "?step = Some (flow, w')" "mset ordered = mset ?L"
    "case flow of Fail e \<Rightarrow> fails_at (\<lambda>e. []) (last (history_sealed sample_single)) ordered e | Break r \<Rightarrow> False
     | Ok r \<Rightarrow> history_sealed r = history_sealed sample_single \<and>
         (\<exists>es. history r = history_sealed sample_single @ es \<and>
           executed_chain (last (history_sealed sample_single)) ordered es)"
    by auto
  obtain so where so: "sorted_orders_try_from (\<lambda>bs. 9) priority_fee_score [sample_root, sample_single] = Inr so"
    "so_inv (\<lambda>bs. 9) priority_fee_score so ?L"
    using try_from_inv [OF refl pre(1,3)] by (auto simp: sample_ordering_history)
  obtain os where os: "drain (\<lambda>bs. 9) so = Some os" "greedy (\<lambda>bs. 9) priority_fee_score ?L os"
    using drain_greedy [OF so(2) pre(2)] by blast
  have "os = [sample_single]" using greedy_perm [OF os(2)] by (simp add: L)
  obtain r w1 where r:
    "apply_in bump_heap (cp_iter sample_single @ cp_iter sample_root) 20 sample_root (Transaction (sample_tx 3 8 0)) =
      (Inr r, w1)" "depth r = 1"
    using apply_sample_single by blast
  have "cp_hash (\<lambda>bs. 9) sample_root \<noteq> Some 3"
    using sample_cp_simps(1) by (simp add: cp_hash_def as_transaction_def as_bundle_def is_barrier_def)
  then have "?step = Some (Ok r, w1)"
    using so os(1) r \<open>os = _\<close>
    by (simp add: order_by_step_def sample_ordering_history span_at_def list_get_def)
  with flow(1) have "flow = Ok r" "w' = w1" by simp_all
  with flow show ?thesis unfolding L by auto
qed

lemma sample_two_nonces_orders:
  "\<exists>so. sorted_orders_try_from (\<lambda>bs. 9) priority_fee_score
      [sample_root, sample_single, sample_two_nonces] = Inr so \<and>
     by_score so = [(1, [3]), (2, [9])] \<and> all_orders so = [(3, sample_single), (9, sample_two_nonces)] \<and>
     so_nonces so 7 = Some [0, 1] \<and> so_nonces so 8 = Some [0]"
  by (simp add: sorted_orders_try_from_def Let_def entry_insert_def insort_insert_key_def)

lemma sample_two_nonces_drain:
  assumes "by_score so = [(1, [3]), (2, [9])]" "all_orders so = [(3, sample_single), (9, sample_two_nonces)]"
    and "so_nonces so 7 = Some [0, 1]" "so_nonces so 8 = Some [0]"
  shows "drain (\<lambda>bs. 9) so = Some [sample_single]"
proof -
  have "pop_best_loop so (Suc 0) = Some (sample_single, 1)"
    by (subst pop_best_loop.simps) (simp add: nth_order_by_score_def assms)
  then have "pop_best_loop so 0 = Some (sample_single, 1)"
    by (subst pop_best_loop.simps) (simp add: nth_order_by_score_def assms)
  then have pop: "pop_best (\<lambda>bs. 9) so = Some (sample_single, remove_order (\<lambda>bs. 9) so sample_single 1)"
    by (simp add: pop_best_def)
  let ?so = "remove_order (\<lambda>bs. 9) so sample_single 1"
  have so': "by_score ?so = [(2, [9])]" "all_orders ?so = [(9, sample_two_nonces)]" "so_nonces ?so 7 = Some [0, 1]"
    by (simp_all add: remove_order_def Let_def entry_remove_def assms)
  have "pop_best_loop ?so (Suc 0) = None"
    by (subst pop_best_loop.simps) (simp add: nth_order_by_score_def so')
  then have "pop_best_loop ?so 0 = None"
    by (subst pop_best_loop.simps) (simp add: nth_order_by_score_def so')
  then have "drain (\<lambda>bs. 9) ?so = Some []" by (subst drain.simps) (simp add: pop_best_def)
  with pop show ?thesis by (subst drain.simps) simp
qed

text \<open>
  A bundle with two transactions of one signer makes the ordering panic. The second
  nonce is always above the lowest nonce of the signer that is left, its own first one, so the
  bundle never comes up; once another order was executed, the payload is shorter than before
  and the assertion on its length fails.
\<close>

theorem two_nonces_of_a_signer_panic:
  "order_by_step bump_heap (\<lambda>bs. 9) (\<lambda>e. []) priority_fee_score sample_two_nonces 20 = None"
proof -
  obtain so where so: "sorted_orders_try_from (\<lambda>bs. 9) priority_fee_score
      [sample_root, sample_single, sample_two_nonces] = Inr so"
    "drain (\<lambda>bs. 9) so = Some [sample_single]"
    using sample_two_nonces_orders sample_two_nonces_drain by blast
  obtain r w1 where r:
    "apply_in bump_heap (cp_iter sample_two_nonces @ cp_iter sample_root) 20 sample_root
      (Transaction (sample_tx 3 8 0)) = (Inr r, w1)" "depth r = 1"
    using apply_sample_single by blast
  have "cp_hash (\<lambda>bs. 9) sample_root \<noteq> Some 3"
    using sample_cp_simps(1) by (simp add: cp_hash_def as_transaction_def as_bundle_def is_barrier_def)
  then show ?thesis
    using so r by (simp add: order_by_step_def sample_ordering_history span_at_def list_get_def)
qed

end
