(* ===== verification/Order_Pool.thy ===== *)
theory Order_Pool
  imports Exec "HOL-Library.AList"
begin

section \<open>The order pool\<close>

text \<open>
  \<open>crates/pipeline/src/pool\<close>: the pool of transactions and bundles (\<open>mod.rs\<close>), the selection
  of orders for a block (\<open>select.rs\<close>), what the pool does with reports about its orders
  (\<open>report.rs\<close>, \<open>maintain.rs\<close>), its host node (\<open>host.rs\<close>) and the \<open>eth_sendBundle\<close> method
  (\<open>rpc.rs\<close>). The concurrent maps are association lists; each method runs as one step.

  reth's transaction pool is a parameter: a state of type \<open>'n\<close> and the two methods the code
  calls on it. Not modelled: the tasks that feed the methods from event streams (one iteration
  of each loop is), tracing, and the construction of the node (\<open>setup.rs\<close>).
\<close>

subsection \<open>Orders\<close>

datatype order = OrderTransaction recovered_tx | OrderBundle flashbots_bundle

fun pool_order_hash :: "(bytes \<Rightarrow> b256) \<Rightarrow> order \<Rightarrow> b256" where
  "pool_order_hash keccak (OrderTransaction tx) = tx_hash tx"
| "pool_order_hash keccak (OrderBundle b) = bundle_hash keccak b"

fun order_transactions :: "order \<Rightarrow> recovered_tx list" where
  "order_transactions (OrderBundle b) = bundle_transactions b"
| "order_transactions (OrderTransaction tx) = [tx]"

fun order_try_into_executable :: "order \<Rightarrow> execution_error + executable" where
  "order_try_into_executable (OrderTransaction tx) = Inr (Transaction tx)"
| "order_try_into_executable (OrderBundle b) = Inr (Bundle b)"

fun order_is_bundle :: "order \<Rightarrow> bool" where
  "order_is_bundle (OrderBundle b) = True"
| "order_is_bundle (OrderTransaction tx) = False"

subsection \<open>The host node\<close>

record 'n pool_ops =
  remove_transactions :: "b256 list \<Rightarrow> 'n \<Rightarrow> 'n"
  best_transactions :: "'n \<Rightarrow> recovered_tx list"

record 'n host_node =
  system_pool :: 'n
  tip_header :: header

datatype attach_error = AlreadyAttached

subsection \<open>The pool\<close>

record 'n order_pool =
  orders :: "(b256 \<times> order) list"
  tx_map :: "(b256 \<times> b256 list) list"
  host :: "'n host_node option"

definition pool_default :: "'n order_pool" where
  "pool_default = \<lparr>orders = [], tx_map = [], host = None\<rparr>"

definition attach :: "'n \<Rightarrow> header \<Rightarrow> 'n order_pool \<Rightarrow> (attach_error + unit) \<times> 'n order_pool" where
  "attach pool tip p =
     (case host p of
        Some h \<Rightarrow> (Inl AlreadyAttached, p)
      | None \<Rightarrow> (Inr (), p\<lparr>host := Some \<lparr>system_pool = pool, tip_header = tip\<rparr>\<rparr>))"

definition is_attached :: "'n order_pool \<Rightarrow> bool" where
  "is_attached p \<longleftrightarrow> host p \<noteq> None"

definition map_tip_header :: "(header \<Rightarrow> 'a) \<Rightarrow> 'n order_pool \<Rightarrow> 'a option" where
  "map_tip_header f p = map_option (\<lambda>h. f (tip_header h)) (host p)"

definition host_remove_transaction :: "'n pool_ops \<Rightarrow> b256 \<Rightarrow> 'n order_pool \<Rightarrow> 'n order_pool" where
  "host_remove_transaction ops h p =
     p\<lparr>host := map_option (\<lambda>n. n\<lparr>system_pool := remove_transactions ops [h] (system_pool n)\<rparr>) (host p)\<rparr>"

text \<open>\<open>entry(..).or_default().insert(..)\<close> on a map of sets.\<close>

definition index_insert :: "b256 \<Rightarrow> b256 \<Rightarrow> (b256 \<times> b256 list) list \<Rightarrow> (b256 \<times> b256 list) list" where
  "index_insert k v m = AList.update k (List.insert v (case map_of m k of Some vs \<Rightarrow> vs | None \<Rightarrow> [])) m"

definition pool_insert :: "(bytes \<Rightarrow> b256) \<Rightarrow> order \<Rightarrow> 'n order_pool \<Rightarrow> 'n order_pool" where
  "pool_insert keccak ord p =
     (let h = pool_order_hash keccak ord;
          p = p\<lparr>tx_map := fold (\<lambda>tx. index_insert (tx_hash tx) h) (order_transactions ord) (tx_map p)\<rparr>
      in p\<lparr>orders := AList.update h ord (orders p)\<rparr>)"

definition pool_remove :: "'n pool_ops \<Rightarrow> b256 \<Rightarrow> 'n order_pool \<Rightarrow> 'n order_pool" where
  "pool_remove ops h p = host_remove_transaction ops h (p\<lparr>orders := AList.delete h (orders p)\<rparr>)"

definition remove_any_with :: "'n pool_ops \<Rightarrow> b256 \<Rightarrow> 'n order_pool \<Rightarrow> 'n order_pool" where
  "remove_any_with ops h p =
     (let p = host_remove_transaction ops h p in
      case map_of (tx_map p) h of
        Some hs \<Rightarrow> fold (pool_remove ops) hs (p\<lparr>tx_map := AList.delete h (tx_map p)\<rparr>)
      | None \<Rightarrow> p)"

definition pool_is_permanently_ineligible :: "flashbots_bundle \<Rightarrow> 'n order_pool \<Rightarrow> bool" where
  "pool_is_permanently_ineligible b p =
     (case map_tip_header (\<lambda>hdr. is_permanently_ineligible b (hdr_timestamp hdr) (hdr_number hdr)) p of
        Some x \<Rightarrow> x | None \<Rightarrow> False)"

subsection \<open>Selection\<close>

fun select_order :: "block_context \<Rightarrow> order \<Rightarrow> order option" where
  "select_order block (OrderTransaction tx) = Some (OrderTransaction tx)"
| "select_order block (OrderBundle b) =
     (if eligibility_into_bool (is_eligible b block) then Some (OrderBundle b) else None)"

text \<open>\<open>PoolsDemux\<close>: the two iterators as the lists of what they yield; one call of \<open>next\<close>.\<close>

record pools_demux =
  system_pool_iter :: "order list option"
  order_pool_iter :: "order list"

definition pools_demux_new :: "'n pool_ops \<Rightarrow> 'n host_node option \<Rightarrow> order list \<Rightarrow> pools_demux" where
  "pools_demux_new ops h os =
     \<lparr>system_pool_iter = map_option (\<lambda>n. map OrderTransaction (best_transactions ops (system_pool n))) h,
      order_pool_iter = os\<rparr>"

fun demux_next :: "pools_demux \<Rightarrow> order option \<times> pools_demux" where
  "demux_next d =
     (case order_pool_iter d of
        ord # os \<Rightarrow> (Some ord, d\<lparr>order_pool_iter := os\<rparr>)
      | [] \<Rightarrow>
          (case system_pool_iter d of
             Some (ord # os) \<Rightarrow> (Some ord, d\<lparr>system_pool_iter := Some os\<rparr>)
           | _ \<Rightarrow> (None, d)))"

definition demux_size :: "pools_demux \<Rightarrow> nat" where
  "demux_size d = length (order_pool_iter d) + (case system_pool_iter d of Some os \<Rightarrow> length os | None \<Rightarrow> 0)"

function demux_collect :: "pools_demux \<Rightarrow> order list" where
  "demux_collect d = (case demux_next d of (None, d') \<Rightarrow> [] | (Some ord, d') \<Rightarrow> ord # demux_collect d')"
  by pat_completeness auto
termination
  by (relation "measure demux_size") (auto simp: demux_size_def split: list.splits option.splits)

declare demux_collect.simps [simp del] demux_next.simps [simp del]

definition best_orders_for_block :: "'n pool_ops \<Rightarrow> block_context \<Rightarrow> 'n order_pool \<Rightarrow> order list" where
  "best_orders_for_block ops block p =
     demux_collect (pools_demux_new ops (host p)
       (List.map_filter (select_order block) (map snd (orders p))))"

subsection \<open>Reports\<close>

definition report_execution_error :: "'n pool_ops \<Rightarrow> b256 \<Rightarrow> execution_error \<Rightarrow> 'n order_pool \<Rightarrow> 'n order_pool" where
  "report_execution_error ops h e p =
     (case e of
        IneligibleBundle PermanentlyIneligible \<Rightarrow> pool_remove ops h p
      | InvalidSignature \<Rightarrow> pool_remove ops h p
      | _ \<Rightarrow> p)"

definition report_inclusion_attempt :: "b256 \<Rightarrow> 'n order_pool \<Rightarrow> 'n order_pool" where
  "report_inclusion_attempt h p = p"

definition survives :: "header \<Rightarrow> order \<Rightarrow> bool" where
  "survives hdr ord =
     (case ord of
        OrderBundle b \<Rightarrow> \<not> is_permanently_ineligible b (hdr_timestamp hdr) (hdr_number hdr)
      | OrderTransaction tx \<Rightarrow> True)"

definition remove_invalidated_orders :: "header \<Rightarrow> 'n order_pool \<Rightarrow> 'n order_pool" where
  "remove_invalidated_orders hdr p = p\<lparr>orders := filter (\<lambda>(h, ord). survives hdr ord) (orders p)\<rparr>"

text \<open>A block is the hashes of its transactions and its header.\<close>

definition report_committed_block ::
    "'n pool_ops \<Rightarrow> b256 list \<times> header \<Rightarrow> 'n order_pool \<Rightarrow> 'n order_pool" where
  "report_committed_block ops block p =
     remove_invalidated_orders (snd block) (fold (remove_any_with ops) (fst block) p)"

text \<open>One chain event of the maintenance loop; \<open>None\<close> is the \<open>expect\<close> on an attached host.\<close>

definition handle_chain_event ::
    "'n pool_ops \<Rightarrow> (b256 list \<times> header) list \<Rightarrow> header \<Rightarrow> 'n order_pool \<Rightarrow> 'n order_pool option" where
  "handle_chain_event ops blocks tip p =
     (if host p = None then None
      else let p = fold (report_committed_block ops) blocks p
           in Some (p\<lparr>host := map_option (\<lambda>n. n\<lparr>tip_header := tip\<rparr>) (host p)\<rparr>))"

subsection \<open>RPC\<close>

datatype rpc_error = InvalidParams

definition send_bundle ::
    "(bytes \<Rightarrow> b256) \<Rightarrow> flashbots_bundle \<Rightarrow> 'n order_pool \<Rightarrow> (rpc_error + b256) \<times> 'n order_pool" where
  "send_bundle keccak b p =
     (if bundle_transactions b = [] then (Inl InvalidParams, p)
      else if pool_is_permanently_ineligible b p then (Inl InvalidParams, p)
      else (Inr (bundle_hash keccak b), pool_insert keccak (OrderBundle b) p))"

subsection \<open>The index of the pool\<close>

text \<open>
  The pool holds orders of a set \<open>S\<close>, each under its hash; every transaction of an order leads
  to it through the index, and the index only has hashes of orders of \<open>S\<close> with that
  transaction (some of which may have left the pool).
\<close>

definition tx_hashes :: "order \<Rightarrow> b256 set" where
  "tx_hashes ord = tx_hash ` set (order_transactions ord)"

definition indexed :: "(bytes \<Rightarrow> b256) \<Rightarrow> order set \<Rightarrow> 'n order_pool \<Rightarrow> bool" where
  "indexed keccak S p \<longleftrightarrow>
     distinct (map fst (orders p)) \<and>
     (\<forall>(h, ord) \<in> set (orders p). h = pool_order_hash keccak ord \<and> ord \<in> S \<and>
        (\<forall>k \<in> tx_hashes ord. \<exists>hs. map_of (tx_map p) k = Some hs \<and> h \<in> set hs)) \<and>
     (\<forall>k hs h. map_of (tx_map p) k = Some hs \<longrightarrow> h \<in> set hs \<longrightarrow>
        (\<exists>ord \<in> S. h = pool_order_hash keccak ord \<and> k \<in> tx_hashes ord))"

lemma indexed_distinct: "indexed keccak S p \<Longrightarrow> distinct (map fst (orders p))"
  by (simp add: indexed_def)

lemma indexed_order:
  "indexed keccak S p \<Longrightarrow> (h, ord) \<in> set (orders p) \<Longrightarrow> h = pool_order_hash keccak ord \<and> ord \<in> S"
  unfolding indexed_def by blast

lemma indexed_complete:
  "indexed keccak S p \<Longrightarrow> (h, ord) \<in> set (orders p) \<Longrightarrow> k \<in> tx_hashes ord \<Longrightarrow>
     \<exists>hs. map_of (tx_map p) k = Some hs \<and> h \<in> set hs"
  unfolding indexed_def by blast

lemma indexed_sound:
  "indexed keccak S p \<Longrightarrow> map_of (tx_map p) k = Some hs \<Longrightarrow> h \<in> set hs \<Longrightarrow>
     \<exists>ord \<in> S. h = pool_order_hash keccak ord \<and> k \<in> tx_hashes ord"
  unfolding indexed_def by blast

lemma indexedI:
  assumes "distinct (map fst (orders p))"
    and "\<And>h ord. (h, ord) \<in> set (orders p) \<Longrightarrow> h = pool_order_hash keccak ord \<and> ord \<in> S"
    and "\<And>h ord k. (h, ord) \<in> set (orders p) \<Longrightarrow> k \<in> tx_hashes ord \<Longrightarrow>
      \<exists>hs. map_of (tx_map p) k = Some hs \<and> h \<in> set hs"
    and "\<And>k hs h. map_of (tx_map p) k = Some hs \<Longrightarrow> h \<in> set hs \<Longrightarrow>
      \<exists>ord \<in> S. h = pool_order_hash keccak ord \<and> k \<in> tx_hashes ord"
  shows "indexed keccak S p"
  unfolding indexed_def using assms by blast

text \<open>Orders with the same hash have the same transactions.\<close>

definition collision_free :: "(bytes \<Rightarrow> b256) \<Rightarrow> order set \<Rightarrow> bool" where
  "collision_free keccak S \<longleftrightarrow>
     (\<forall>x \<in> S. \<forall>y \<in> S. pool_order_hash keccak x = pool_order_hash keccak y \<longrightarrow> tx_hashes x = tx_hashes y)"

lemma AList_delete_filter: "AList.delete k m = filter (\<lambda>(k', v). k' \<noteq> k) m"
  by (induction m) (auto simp: AList.delete_eq)

lemma map_of_AList_update: "map_of (AList.update k v m) = (map_of m)(k \<mapsto> v)"
  by (rule AList.update_conv')

lemma in_set_update: "x \<in> set (AList.update k v m) \<Longrightarrow> x = (k, v) \<or> x \<in> set m"
  by (induction m) (auto split: if_splits)

lemma host_remove_sel [simp]:
  "orders (host_remove_transaction ops h p) = orders p"
  "tx_map (host_remove_transaction ops h p) = tx_map p"
  by (simp_all add: host_remove_transaction_def)

lemma pool_remove_sel:
  "orders (pool_remove ops h p) = filter (\<lambda>(h', ord). h' \<noteq> h) (orders p)"
  "tx_map (pool_remove ops h p) = tx_map p"
  by (simp_all add: pool_remove_def AList_delete_filter)

lemma fold_pool_remove:
  "orders (fold (pool_remove ops) hs p) = filter (\<lambda>(h, ord). h \<notin> set hs) (orders p)"
  "tx_map (fold (pool_remove ops) hs p) = tx_map p"
  by (induction hs arbitrary: p)
    (auto simp: pool_remove_sel case_prod_unfold intro!: filter_cong)

lemma indexed_subset:
  assumes "indexed keccak S p" "orders q = filter P (orders p)" "tx_map q = tx_map p"
  shows "indexed keccak S q"
  using assms by (auto simp: indexed_def distinct_map_filter)

lemma fold_index_insert:
  "map_of (fold (\<lambda>tx. index_insert (tx_hash tx) h) ts m) k =
     (if k \<in> tx_hash ` set ts
      then Some (List.insert h (case map_of m k of Some hs \<Rightarrow> hs | None \<Rightarrow> []))
      else map_of m k)"
proof (induction ts arbitrary: m)
  case (Cons tx ts)
  have "List.insert h (List.insert h hs) = List.insert h hs" for hs by simp
  with Cons show ?case
    by (auto simp: index_insert_def map_of_AList_update split: option.splits)
qed simp

lemma indexed_insert:
  assumes "indexed keccak S p" "ord \<in> S"
  shows "indexed keccak S (pool_insert keccak ord p)"
proof -
  let ?h = "pool_order_hash keccak ord" and ?p = "pool_insert keccak ord p"
  have m: "map_of (tx_map ?p) k =
      (if k \<in> tx_hashes ord then Some (List.insert ?h (case map_of (tx_map p) k of Some hs \<Rightarrow> hs | None \<Rightarrow> []))
       else map_of (tx_map p) k)" for k
    by (simp add: pool_insert_def Let_def fold_index_insert tx_hashes_def)
  have o: "orders ?p = AList.update ?h ord (orders p)" by (simp add: pool_insert_def Let_def)
  have old: "(h, x) = (?h, ord) \<or> (h, x) \<in> set (orders p)" if "(h, x) \<in> set (orders ?p)" for h x
    using in_set_update that unfolding o by fast
  show ?thesis
  proof (rule indexedI)
    show "distinct (map fst (orders ?p))"
      using indexed_distinct [OF assms(1)] by (simp add: o distinct_update)
    show "h = pool_order_hash keccak x \<and> x \<in> S" if "(h, x) \<in> set (orders ?p)" for h x
      using old [OF that] indexed_order [OF assms(1)] assms(2) by auto
    show "\<exists>hs. map_of (tx_map ?p) k = Some hs \<and> h \<in> set hs"
      if "(h, x) \<in> set (orders ?p)" "k \<in> tx_hashes x" for h x k
    proof (cases "(h, x) \<in> set (orders p)")
      case True
      from indexed_complete [OF assms(1) this that(2)] show ?thesis by (auto simp: m)
    next
      case False
      with old [OF that(1)] that(2) show ?thesis by (simp add: m)
    qed
    show "\<exists>x \<in> S. h = pool_order_hash keccak x \<and> k \<in> tx_hashes x"
      if "map_of (tx_map ?p) k = Some hs" "h \<in> set hs" for k hs h
      using that indexed_sound [OF assms(1)] assms(2) by (auto simp: m split: if_splits option.splits)
  qed
qed

lemma remove_any_with_spec:
  assumes "indexed keccak S p" "collision_free keccak S"
  shows "orders (remove_any_with ops k p) = filter (\<lambda>(h, ord). k \<notin> tx_hashes ord) (orders p)"
    and "indexed keccak S (remove_any_with ops k p)"
proof -
  let ?hs = "case map_of (tx_map p) k of Some hs \<Rightarrow> hs | None \<Rightarrow> []"
  have at: "h \<in> set ?hs \<longleftrightarrow> k \<in> tx_hashes ord" if "(h, ord) \<in> set (orders p)" for h ord
  proof
    assume "h \<in> set ?hs"
    then obtain hs where "map_of (tx_map p) k = Some hs" "h \<in> set hs"
      by (cases "map_of (tx_map p) k") auto
    from indexed_sound [OF assms(1) this] obtain x where
      "x \<in> S" "h = pool_order_hash keccak x" "k \<in> tx_hashes x" by blast
    with indexed_order [OF assms(1) that] assms(2) show "k \<in> tx_hashes ord"
      unfolding collision_free_def by blast
  next
    assume "k \<in> tx_hashes ord"
    from indexed_complete [OF assms(1) that this] obtain hs where
      "map_of (tx_map p) k = Some hs" "h \<in> set hs" by blast
    then show "h \<in> set ?hs" by simp
  qed
  have "orders (remove_any_with ops k p) = filter (\<lambda>(h, ord). h \<notin> set ?hs) (orders p)"
    by (simp add: remove_any_with_def Let_def fold_pool_remove split: option.split)
  also have "\<dots> = filter (\<lambda>(h, ord). k \<notin> tx_hashes ord) (orders p)"
    using at by (intro filter_cong) auto
  finally show os: "orders (remove_any_with ops k p) = filter (\<lambda>(h, ord). k \<notin> tx_hashes ord) (orders p)" .
  have m: "map_of (tx_map (remove_any_with ops k p)) = (map_of (tx_map p))(k := None)"
    by (cases "map_of (tx_map p) k")
      (simp_all add: remove_any_with_def Let_def fold_pool_remove delete_conv' fun_upd_idem)
  show "indexed keccak S (remove_any_with ops k p)"
  proof (rule indexedI)
    show "distinct (map fst (orders (remove_any_with ops k p)))"
      using indexed_distinct [OF assms(1)] by (simp add: os distinct_map_filter)
    show "h = pool_order_hash keccak x \<and> x \<in> S" if "(h, x) \<in> set (orders (remove_any_with ops k p))" for h x
      using indexed_order [OF assms(1), of h x] that by (simp add: os)
    show "\<exists>hs. map_of (tx_map (remove_any_with ops k p)) k' = Some hs \<and> h \<in> set hs"
      if "(h, x) \<in> set (orders (remove_any_with ops k p))" "k' \<in> tx_hashes x" for h x k'
    proof -
      from that have "(h, x) \<in> set (orders p)" "k' \<noteq> k" by (auto simp: os)
      with indexed_complete [OF assms(1) this(1) that(2)] show ?thesis by (simp add: m)
    qed
    show "\<exists>x \<in> S. h = pool_order_hash keccak x \<and> k' \<in> tx_hashes x"
      if "map_of (tx_map (remove_any_with ops k p)) k' = Some hs" "h \<in> set hs" for k' hs h
      using indexed_sound [OF assms(1) _ that(2), of k'] that(1) by (simp add: m split: if_splits)
  qed
qed

lemma committed_spec:
  assumes "indexed keccak S p" "collision_free keccak S"
  shows "orders (fold (remove_any_with ops) ks p) =
      filter (\<lambda>(h, ord). tx_hashes ord \<inter> set ks = {}) (orders p)"
    and "indexed keccak S (fold (remove_any_with ops) ks p)"
  using assms(1)
proof (induction ks arbitrary: p)
  case (Cons k ks)
  {
    case 1
    show ?case
      using Cons(1) [OF remove_any_with_spec(2) [OF 1 assms(2), of ops k]] remove_any_with_spec(1) [OF 1 assms(2), of ops k]
      by (auto intro!: filter_cong)
  next
    case 2
    show ?case using Cons(2) [OF remove_any_with_spec(2) [OF 2 assms(2), of ops k]] by simp
  }
qed simp_all

lemma report_committed_spec:
  assumes "indexed keccak S p" "collision_free keccak S"
  shows "orders (report_committed_block ops (ks, hdr) p) =
      filter (\<lambda>(h, ord). tx_hashes ord \<inter> set ks = {} \<and> survives hdr ord) (orders p)"
    and "indexed keccak S (report_committed_block ops (ks, hdr) p)"
proof -
  show "orders (report_committed_block ops (ks, hdr) p) =
      filter (\<lambda>(h, ord). tx_hashes ord \<inter> set ks = {} \<and> survives hdr ord) (orders p)"
    by (auto simp: report_committed_block_def remove_invalidated_orders_def committed_spec [OF assms]
        intro: filter_cong)
  show "indexed keccak S (report_committed_block ops (ks, hdr) p)"
    by (rule indexed_subset [OF committed_spec(2) [OF assms, of ops ks]])
      (simp_all add: report_committed_block_def remove_invalidated_orders_def)
qed

subsection \<open>Reachable pools\<close>

inductive pool_reach :: "(bytes \<Rightarrow> b256) \<Rightarrow> 'n pool_ops \<Rightarrow> order set \<Rightarrow> 'n order_pool \<Rightarrow> bool"
  for keccak ops S where
  reach_default: "pool_reach keccak ops S pool_default"
| reach_attach: "pool_reach keccak ops S p \<Longrightarrow> pool_reach keccak ops S (snd (attach n tip p))"
| reach_insert: "pool_reach keccak ops S p \<Longrightarrow> ord \<in> S \<Longrightarrow> pool_reach keccak ops S (pool_insert keccak ord p)"
| reach_send: "pool_reach keccak ops S p \<Longrightarrow> OrderBundle b \<in> S \<Longrightarrow>
    pool_reach keccak ops S (snd (send_bundle keccak b p))"
| reach_remove: "pool_reach keccak ops S p \<Longrightarrow> pool_reach keccak ops S (pool_remove ops h p)"
| reach_remove_any: "pool_reach keccak ops S p \<Longrightarrow> pool_reach keccak ops S (remove_any_with ops h p)"
| reach_error: "pool_reach keccak ops S p \<Longrightarrow> pool_reach keccak ops S (report_execution_error ops h e p)"
| reach_committed: "pool_reach keccak ops S p \<Longrightarrow> pool_reach keccak ops S (report_committed_block ops block p)"
| reach_event: "pool_reach keccak ops S p \<Longrightarrow> handle_chain_event ops blocks tip p = Some p' \<Longrightarrow>
    pool_reach keccak ops S p'"

lemma indexed_host [simp]: "indexed keccak S (p\<lparr>host := h\<rparr>) = indexed keccak S p"
  by (simp add: indexed_def)

lemma indexed_remove: "indexed keccak S p \<Longrightarrow> indexed keccak S (pool_remove ops h p)"
  by (rule indexed_subset) (simp_all add: pool_remove_sel)

lemma indexed_fold_committed:
  "indexed keccak S p \<Longrightarrow> collision_free keccak S \<Longrightarrow> indexed keccak S (fold (report_committed_block ops) blocks p)"
  by (induction blocks arbitrary: p) (auto simp: report_committed_spec)

lemma pool_reach_indexed:
  "pool_reach keccak ops S p \<Longrightarrow> collision_free keccak S \<Longrightarrow> indexed keccak S p"
proof (induction rule: pool_reach.induct)
  case reach_default
  then show ?case by (simp add: indexed_def pool_default_def)
next
  case (reach_attach p n tip)
  then show ?case by (simp add: attach_def split: option.split)
next
  case (reach_send p b)
  then show ?case by (simp add: send_bundle_def indexed_insert)
next
  case (reach_error p h e)
  then show ?case
    by (auto simp: report_execution_error_def indexed_remove split: execution_error.split eligibility.split)
next
  case (reach_committed p block)
  then show ?case by (cases block) (simp add: report_committed_spec)
next
  case (reach_event p blocks tip p')
  then show ?case by (auto simp: handle_chain_event_def Let_def indexed_fold_committed split: if_splits)
qed (simp_all add: indexed_insert indexed_remove remove_any_with_spec)

lemma demux_collect_eq:
  "demux_collect d = order_pool_iter d @ (case system_pool_iter d of Some os \<Rightarrow> os | None \<Rightarrow> [])"
proof (induction d rule: demux_collect.induct)
  case (1 d)
  show ?case
  proof (cases "demux_next d")
    case (Pair x d')
    with 1 [OF Pair [symmetric]] show ?thesis
      by (subst demux_collect.simps) (auto simp: demux_next.simps split: list.splits option.splits)
  qed
qed

lemma best_orders_eq:
  "best_orders_for_block ops block p =
     List.map_filter (select_order block) (map snd (orders p)) @
     (case host p of Some n \<Rightarrow> map OrderTransaction (best_transactions ops (system_pool n)) | None \<Rightarrow> [])"
  by (cases "host p") (simp_all add: best_orders_for_block_def demux_collect_eq pools_demux_new_def)

lemma select_order_same: "select_order block ord = Some ord' \<Longrightarrow> ord' = ord"
  by (cases ord) (auto split: if_splits)

lemma map_filter_select:
  "ord \<in> set (List.map_filter (select_order block) os) \<longleftrightarrow> ord \<in> set os \<and> select_order block ord = Some ord"
  by (induction os) (auto simp: map_filter_simps dest: select_order_same split: option.splits)

lemma remove_keeps_host [simp]: "host (pool_remove ops h p) = None \<longleftrightarrow> host p = None"
  by (simp add: pool_remove_def host_remove_transaction_def)

lemma fold_remove_keeps_host [simp]: "host (fold (pool_remove ops) hs p) = None \<longleftrightarrow> host p = None"
  by (induction hs arbitrary: p) simp_all

lemma remove_any_keeps_host [simp]: "host (remove_any_with ops h p) = None \<longleftrightarrow> host p = None"
  by (simp add: remove_any_with_def host_remove_transaction_def Let_def split: option.split)

lemma fold_remove_any_keeps_host [simp]: "host (fold (remove_any_with ops) hs p) = None \<longleftrightarrow> host p = None"
  by (induction hs arbitrary: p) simp_all

lemma fold_committed_host [simp]: "host (fold (report_committed_block ops) blocks p) = None \<longleftrightarrow> host p = None"
  by (induction blocks arbitrary: p) (simp_all add: report_committed_block_def remove_invalidated_orders_def)

lemma fold_committed_orders:
  assumes "indexed keccak S p" "collision_free keccak S"
  shows "orders (fold (report_committed_block ops) blocks p) =
    filter (\<lambda>(h, ord). list_all (\<lambda>(ks, hdr). tx_hashes ord \<inter> set ks = {} \<and> survives hdr ord) blocks) (orders p)"
  using assms
proof (induction blocks arbitrary: p)
  case (Cons block blocks)
  obtain ks hdr where b: "block = (ks, hdr)" by (cases block)
  note spec = report_committed_spec [OF Cons.prems, of ops ks hdr]
  show ?case
    using Cons.IH [OF spec(2) Cons.prems(2)] by (auto simp: b spec(1) case_prod_unfold intro: filter_cong)
qed simp

subsection \<open>Properties\<close>

text \<open>
  Claim C28: one event of the maintenance loop on an attached pool removes exactly the orders that
  share a transaction with a block of the event and the bundles that one of its headers makes
  permanently ineligible, keeps the others in order, and installs the new tip. It relies on the
  index of the pool, which every reachable state keeps complete.
\<close>

theorem chain_event_clears_orders:
  assumes "pool_reach keccak ops S p" "collision_free keccak S"
    and "handle_chain_event ops blocks tip p = Some p'"
  shows "orders p' = filter (\<lambda>(h, ord).
      list_all (\<lambda>(ks, hdr). tx_hashes ord \<inter> set ks = {} \<and> survives hdr ord) blocks) (orders p) \<and>
    map_tip_header (\<lambda>hdr. hdr) p' = Some tip"
proof -
  let ?q = "fold (report_committed_block ops) blocks p"
  from assms(3) have "host p \<noteq> None" and p': "p' = ?q\<lparr>host := map_option (\<lambda>n. n\<lparr>tip_header := tip\<rparr>) (host ?q)\<rparr>"
    by (auto simp: handle_chain_event_def Let_def split: if_splits)
  then obtain n where "host ?q = Some n" by (cases "host ?q") auto
  then show ?thesis
    using fold_committed_orders [OF pool_reach_indexed [OF assms(1,2)] assms(2)]
    by (simp add: p' map_tip_header_def)
qed

definition sample_ops :: "recovered_tx list pool_ops" where
  "sample_ops = \<lparr>remove_transactions = (\<lambda>hs. filter (\<lambda>t. tx_hash t \<notin> set hs)), best_transactions = (\<lambda>ts. ts)\<rparr>"

definition sample_pool :: "recovered_tx list order_pool" where
  "sample_pool =
     pool_insert (\<lambda>bs. 9) (OrderTransaction (sample_tx 3 8 0))
       (snd (send_bundle (\<lambda>bs. 9) sample_bundle
         (snd (attach [sample_tx 4 8 1] (parent sample_block) pool_default))))"

abbreviation sample_orders :: "order set" where
  "sample_orders \<equiv> {OrderBundle sample_bundle, OrderTransaction (sample_tx 3 8 0)}"

lemma sample_pool_simps:
  "orders sample_pool = [(9, OrderBundle sample_bundle), (3, OrderTransaction (sample_tx 3 8 0))]"
  "host sample_pool = Some \<lparr>system_pool = [sample_tx 4 8 1], tip_header = parent sample_block\<rparr>"
  by (simp_all add: sample_pool_def send_bundle_def attach_def pool_default_def bundle_transactions_def
      pool_is_permanently_ineligible_def map_tip_header_def is_permanently_ineligible_def
      eligibility_at_def default_eth_send_bundle_def pool_insert_def Let_def bundle_hash_def)

lemma sample_pool_reach: "pool_reach (\<lambda>bs. 9) sample_ops sample_orders sample_pool"
  unfolding sample_pool_def by (intro reach_insert reach_send reach_attach reach_default) simp_all

lemma sample_collision_free: "collision_free (\<lambda>bs. 9) sample_orders"
  by (simp add: collision_free_def bundle_hash_def)

theorem chain_event_clears_orders_witness:
  "\<exists>p'. handle_chain_event sample_ops [([2], parent sample_block)] (parent sample_block) sample_pool = Some p' \<and>
     orders p' = [(3, OrderTransaction (sample_tx 3 8 0))]"
proof -
  obtain p' where p': "handle_chain_event sample_ops [([2], parent sample_block)] (parent sample_block) sample_pool = Some p'"
    by (simp add: handle_chain_event_def sample_pool_simps Let_def)
  have "orders p' = [(3, OrderTransaction (sample_tx 3 8 0))]"
    using chain_event_clears_orders [OF sample_pool_reach sample_collision_free p']
    by (simp add: sample_pool_simps tx_hashes_def bundle_transactions_def survives_def)
  with p' show ?thesis by blast
qed

text \<open>
  \<open>eth_sendBundle\<close> leaves the pool as it is and answers with an error when the bundle is
  empty or permanently ineligible at the tip, and otherwise answers with its hash; then the
  bundle is in the pool under that hash, and every block it is eligible for is offered it,
  before the transactions of the system pool.
\<close>

theorem send_bundle_roundtrip:
  fixes p :: "'n order_pool"
  shows "if bundle_transactions b = [] \<or>
       (\<exists>n. host p = Some n \<and>
          is_permanently_ineligible b (hdr_timestamp (tip_header n)) (hdr_number (tip_header n)))
     then send_bundle keccak b p = (Inl InvalidParams, p)
     else \<exists>p'. send_bundle keccak b p = (Inr (bundle_hash keccak b), p') \<and>
       map_of (orders p') = (map_of (orders p))(bundle_hash keccak b \<mapsto> OrderBundle b) \<and>
       host p' = host p \<and>
       (\<exists>os. best_orders_for_block ops block p' = os @
             (case host p of Some n \<Rightarrow> map OrderTransaction (best_transactions ops (system_pool n)) | None \<Rightarrow> []) \<and>
          (OrderBundle b \<in> set os \<longleftrightarrow> is_eligible b block = Eligible))"
proof -
  let ?q = "pool_insert keccak (OrderBundle b) p"
  have o: "orders ?q = AList.update (bundle_hash keccak b) (OrderBundle b) (orders p)" "host ?q = host p"
    by (simp_all add: pool_insert_def Let_def)
  have "(bundle_hash keccak b, OrderBundle b) \<in> set (orders ?q)"
    unfolding o by (rule map_of_SomeD) (simp add: map_of_AList_update)
  then have "OrderBundle b \<in> snd ` set (orders ?q)" by force
  then have "OrderBundle b \<in> set (List.map_filter (select_order block) (map snd (orders ?q))) \<longleftrightarrow>
      is_eligible b block = Eligible"
    by (simp add: map_filter_select eligibility_into_bool_def)
  moreover have "pool_is_permanently_ineligible b p \<longleftrightarrow> (\<exists>n. host p = Some n \<and>
      is_permanently_ineligible b (hdr_timestamp (tip_header n)) (hdr_number (tip_header n)))"
    by (auto simp: pool_is_permanently_ineligible_def map_tip_header_def split: option.split)
  ultimately show ?thesis
    by (auto simp: send_bundle_def best_orders_eq o map_of_AList_update)
qed

text \<open>
  Claim C29: every pool is well formed. However orders were inserted, removed, reported and
  committed, the orders have distinct hashes, each is stored under its own hash, and the index by
  transactions leads from every transaction to each order that contains it and to no order that
  does not.
\<close>

theorem pool_well_formed:
  assumes "pool_reach keccak ops S p" "collision_free keccak S"
  shows "distinct (map fst (orders p)) \<and>
    (\<forall>(h, ord) \<in> set (orders p). h = pool_order_hash keccak ord \<and>
       (\<forall>k \<in> tx_hashes ord. \<exists>hs. map_of (tx_map p) k = Some hs \<and> h \<in> set hs)) \<and>
    (\<forall>k hs h. map_of (tx_map p) k = Some hs \<longrightarrow> h \<in> set hs \<longrightarrow>
       (\<exists>ord \<in> S. h = pool_order_hash keccak ord \<and> k \<in> tx_hashes ord))"
  using pool_reach_indexed [OF assms] unfolding indexed_def by blast

theorem pool_well_formed_witness:
  "distinct (map fst (orders sample_pool)) \<and> (\<exists>hs. map_of (tx_map sample_pool) 3 = Some hs \<and> 3 \<in> set hs)"
proof -
  note wf = pool_well_formed [OF sample_pool_reach sample_collision_free]
  have "(3, OrderTransaction (sample_tx 3 8 0)) \<in> set (orders sample_pool)" by (simp add: sample_pool_simps)
  moreover have "(3 :: b256) \<in> tx_hashes (OrderTransaction (sample_tx 3 8 0))" by (simp add: tx_hashes_def)
  ultimately show ?thesis using wf by blast
qed

end
