(* ===== verification/Append.thy ===== *)
theory Append
  imports Allocation Order_Pool "HOL-Library.Sublist"
begin

section \<open>Appending orders from the pool\<close>

text \<open>
  \<open>crates/pipeline/src/pool/step.rs\<close>, the step \<open>AppendOrders\<close>: its options, its state during a
  job (the attempted orders and the counters), the state of one run, and the loop that extends
  the payload with the orders the pool offers until a limit is reached. Counts of type \<open>usize\<close>
  are lengths of lists in memory and natural numbers here; the counters of a job are 32-bit
  words, where \<open>fetch_add\<close> wraps around. The orders are what the pool offers when the step
  starts. Reading the clock may change the world. The constant
  \<open>MIN_TRANSACTION_GAS\<close> of reth is a parameter. The calls on the metrics are kept as a log.
\<close>

subsection \<open>Configuration\<close>

record append_orders =
  enable_system_pool :: bool
  max_new_orders :: "nat option"
  max_new_bundles :: "nat option"
  max_new_transactions :: "nat option"
  break_on_limit :: bool

definition from_pool :: append_orders where
  "from_pool =
     \<lparr>enable_system_pool = True, max_new_orders = None, max_new_bundles = None,
      max_new_transactions = None, break_on_limit = True\<rparr>"

definition disable_system_pool :: "append_orders \<Rightarrow> append_orders" where
  "disable_system_pool st = st\<lparr>enable_system_pool := False\<rparr>"

definition with_max_new_orders :: "append_orders \<Rightarrow> nat \<Rightarrow> append_orders" where
  "with_max_new_orders st n = st\<lparr>max_new_orders := Some n\<rparr>"

definition with_max_new_bundles :: "append_orders \<Rightarrow> nat \<Rightarrow> append_orders" where
  "with_max_new_bundles st n = st\<lparr>max_new_bundles := Some n\<rparr>"

definition with_max_new_transactions :: "append_orders \<Rightarrow> nat \<Rightarrow> append_orders" where
  "with_max_new_transactions st n = st\<lparr>max_new_transactions := Some n\<rparr>"

definition with_ok_on_limit :: "append_orders \<Rightarrow> append_orders" where
  "with_ok_on_limit st = st\<lparr>break_on_limit := False\<rparr>"

subsection \<open>Events, metrics and counters\<close>

datatype append_event =
  OrderInclusionAttempt b256 u64
| OrderInclusionSuccess b256 u64
| OrderInclusionFailure b256 execution_error u64

datatype metric = Increment string nat | Record string u32

record job_counters =
  jc_orders_considered :: u32
  jc_txs_considered :: u32
  jc_bundles_considered :: u32
  jc_orders_included :: u32
  jc_txs_included :: u32
  jc_bundles_included :: u32

definition job_counters_reset :: job_counters where
  "job_counters_reset =
     \<lparr>jc_orders_considered = 0, jc_txs_considered = 0, jc_bundles_considered = 0,
      jc_orders_included = 0, jc_txs_included = 0, jc_bundles_included = 0\<rparr>"

definition job_counters_considered :: "order \<Rightarrow> job_counters \<Rightarrow> job_counters" where
  "job_counters_considered ord c =
     (let c = c\<lparr>jc_orders_considered := jc_orders_considered c + 1,
                jc_txs_considered := jc_txs_considered c + of_nat (length (order_transactions ord))\<rparr>
      in if order_is_bundle ord then c\<lparr>jc_bundles_considered := jc_bundles_considered c + 1\<rparr> else c)"

definition job_counters_included :: "'c checkpoint \<Rightarrow> job_counters \<Rightarrow> job_counters" where
  "job_counters_included cp c =
     (let c = c\<lparr>jc_orders_included := jc_orders_included c + 1,
                jc_txs_included := jc_txs_included c + of_nat (length (cp_transactions cp))\<rparr>
      in if is_bundle cp then c\<lparr>jc_bundles_included := jc_bundles_included c + 1\<rparr> else c)"

definition metrics_considered :: "order \<Rightarrow> metric list" where
  "metrics_considered ord =
     [Increment ''orders_considered'' 1,
      Increment ''txs_considered'' (length (order_transactions ord))] @
     (if order_is_bundle ord
      then [Increment ''bundles_considered'' 1,
            Record ''considered_bundle_size_histogram'' (of_nat (length (order_transactions ord)))]
      else [])"

definition metrics_skipped :: "order \<Rightarrow> metric list" where
  "metrics_skipped ord =
     [Increment ''orders_skipped'' 1, Increment ''txs_skipped'' (length (order_transactions ord))] @
     (if order_is_bundle ord then [Increment ''bundles_skipped'' 1] else [])"

definition metrics_included :: "'c checkpoint \<Rightarrow> metric list" where
  "metrics_included cp =
     [Increment ''orders_included'' 1, Increment ''txs_included'' (length (cp_transactions cp))] @
     (if is_bundle cp
      then [Increment ''bundles_included'' 1,
            Increment ''bundled_txs_included'' (length (cp_transactions cp)),
            Record ''included_bundle_size_histogram'' (of_nat (length (cp_transactions cp)))]
      else [Increment ''unbundled_txs_included'' (length (cp_transactions cp))])"

definition record_per_job :: "job_counters \<Rightarrow> metric list" where
  "record_per_job c =
     [Record ''per_job_orders_considered'' (jc_orders_considered c),
      Record ''per_job_txs_considered'' (jc_txs_considered c),
      Record ''per_job_bundles_considered'' (jc_bundles_considered c),
      Record ''per_job_orders_included'' (jc_orders_included c),
      Record ''per_job_txs_included'' (jc_txs_included c),
      Record ''per_job_bundles_included'' (jc_bundles_included c)]"

subsection \<open>State\<close>

record 'w append_state =
  ap_attempted :: "b256 list"
  ap_counters :: job_counters
  ap_metrics :: "metric list"
  ap_events :: "append_event list"
  ap_world :: 'w

definition log_metrics :: "metric list \<Rightarrow> 'w append_state \<Rightarrow> 'w append_state" where
  "log_metrics ms s = s\<lparr>ap_metrics := ap_metrics s @ ms\<rparr>"

definition ap_emit :: "append_event \<Rightarrow> 'w append_state \<Rightarrow> 'w append_state" where
  "ap_emit e s = s\<lparr>ap_events := ap_events s @ [e]\<rparr>"

definition append_before_job :: "'w append_state \<Rightarrow> 'w append_state" where
  "append_before_job s = s\<lparr>ap_attempted := [], ap_counters := job_counters_reset\<rparr>"

definition append_after_job :: "'w append_state \<Rightarrow> 'w append_state" where
  "append_after_job s = log_metrics (record_per_job (ap_counters s)) s"

subsection \<open>One run\<close>

record 'c run =
  rn_payload :: "'c checkpoint"
  txs_included :: nat
  bundles_included :: nat
  orders_included :: nat
  rn_max_transactions :: "nat option"
  existing_txs :: "b256 list"

definition min_flattened :: "nat option list \<Rightarrow> nat option" where
  "min_flattened os = (case List.map_filter (\<lambda>m. m) os of [] \<Rightarrow> None | n # ns \<Rightarrow> Some (fold min ns n))"

definition run_new :: "append_orders \<Rightarrow> step_context \<Rightarrow> 'c checkpoint \<Rightarrow> 'c run" where
  "run_new st ctx payload =
     \<lparr>rn_payload = payload, txs_included = 0, bundles_included = 0, orders_included = 0,
      rn_max_transactions =
        min_flattened [max_new_transactions st, map_option unat (max_transactions (ctx_limits ctx))],
      existing_txs = map tx_hash (span_transactions (history payload))\<rparr>"

definition at_limit :: "nat option \<Rightarrow> nat \<Rightarrow> bool" where
  "at_limit m n = (case m of Some k \<Rightarrow> k \<le> n | None \<Rightarrow> False)"

definition should_stop :: "u64 \<Rightarrow> append_orders \<Rightarrow> step_context \<Rightarrow> nat \<Rightarrow> 'c run \<Rightarrow> bool" where
  "should_stop min_gas st ctx now r =
     (if deadline_reached now ctx then True
      else if at_limit (max_new_orders st) (orders_included r) then True
      else if at_limit (rn_max_transactions r) (txs_included r) then True
      else if at_limit (max_new_bundles st) (bundles_included r) then True
      else saturating_sub (gas_limit (ctx_limits ctx)) (cumulative_gas_used (rn_payload r))
             < min_gas)"

definition should_skip :: "append_orders \<Rightarrow> step_context \<Rightarrow> 'c run \<Rightarrow> order \<Rightarrow> bool" where
  "should_skip st ctx r ord =
     (if (case rn_max_transactions r of
            Some m \<Rightarrow> m < length (order_transactions ord) + txs_included r | None \<Rightarrow> False) then True
      else if order_is_bundle ord \<and> at_limit (max_new_bundles st) (bundles_included r) then True
      else if list_ex (\<lambda>tx. tx_hash tx \<in> set (existing_txs r)) (order_transactions ord) then True
      else
        let order_blob_gas = sum_list (List.map_filter tx_blob_gas_used (order_transactions ord)) in
        case lim_blob_params (ctx_limits ctx) of
          Some bp \<Rightarrow>
            max_blob_gas_per_block (bc_chainspec (ctx_block ctx)) bp
              < order_blob_gas + cumulative_blob_gas_used (rn_payload r)
        | None \<Rightarrow> False)"

definition include_candidate :: "'c checkpoint \<Rightarrow> 'c run \<Rightarrow> 'c run" where
  "include_candidate candidate r =
     r\<lparr>orders_included := orders_included r + 1,
       txs_included := txs_included r + length (cp_transactions candidate),
       bundles_included := bundles_included r + (if is_bundle candidate then 1 else 0),
       existing_txs := existing_txs r @ map tx_hash (cp_transactions candidate),
       rn_payload := candidate\<rparr>"

definition try_include ::
    "(bytes \<Rightarrow> b256) \<Rightarrow> ('c, 'w) heap \<Rightarrow> append_orders \<Rightarrow> step_context \<Rightarrow> order \<Rightarrow>
     'c run \<Rightarrow> 'w append_state \<Rightarrow> 'c run \<times> 'w append_state"
where
  "try_include keccak heap st ctx ord r s =
     (let s = log_metrics (metrics_considered ord) s;
          s = s\<lparr>ap_counters := job_counters_considered ord (ap_counters s)\<rparr>;
          pid = payload_id (ctx_block ctx)
      in
      if should_skip st ctx r ord then (r, log_metrics (metrics_skipped ord) s)
      else
        let order_hash = pool_order_hash keccak ord in
        case order_try_into_executable ord of
          Inl err \<Rightarrow>
            (r, ap_emit (OrderInclusionFailure order_hash InvalidSignature pid)
                  (log_metrics [Increment ''orders_inclusion_failed'' 1] s))
        | Inr ex \<Rightarrow>
            case apply_in heap (cp_iter (rn_payload r)) (ap_world s) (rn_payload r) ex of
              (Inl err, w) \<Rightarrow>
                (r, ap_emit (OrderInclusionFailure order_hash err pid)
                      (log_metrics [Increment ''orders_inclusion_failed'' 1] (s\<lparr>ap_world := w\<rparr>)))
            | (Inr candidate, w) \<Rightarrow>
                let s = s\<lparr>ap_world := w\<rparr> in
                if gas_limit (ctx_limits ctx) < cumulative_gas_used candidate
                then (r, log_metrics
                          ([Increment ''orders_skipped'' 1,
                            Increment ''txs_skipped'' (length (cp_transactions candidate))] @
                           (if is_bundle candidate then [Increment ''bundles_skipped'' 1] else [])) s)
                else
                  let s = log_metrics (metrics_included (rn_payload r)) s;
                      s = s\<lparr>ap_counters := job_counters_included (rn_payload r) (ap_counters s)\<rparr>
                  in (include_candidate candidate r, ap_emit (OrderInclusionSuccess order_hash pid) s))"

definition run_end :: "append_orders \<Rightarrow> 'c run \<Rightarrow> 'c control_flow" where
  "run_end st r =
     (if break_on_limit st \<and> txs_included r = 0 then Break (rn_payload r) else Ok (rn_payload r))"

text \<open>The loop of \<open>step\<close> over what the iterator of the pool yields.\<close>

fun append_loop ::
    "(bytes \<Rightarrow> b256) \<Rightarrow> u64 \<Rightarrow> ('w \<Rightarrow> nat \<times> 'w) \<Rightarrow> ('c, 'w) heap \<Rightarrow> append_orders \<Rightarrow> step_context \<Rightarrow>
     order list \<Rightarrow> 'c run \<Rightarrow> 'w append_state \<Rightarrow> 'c run \<times> 'w append_state"
where
  "append_loop keccak min_gas clock heap st ctx os r s =
     (case clock (ap_world s) of (now, w) \<Rightarrow>
      let s = s\<lparr>ap_world := w\<rparr> in
      if should_stop min_gas st ctx now r then (r, s)
      else
        case os of
          [] \<Rightarrow> (r, s)
        | ord # os \<Rightarrow>
            let h = pool_order_hash keccak ord;
                s = ap_emit (OrderInclusionAttempt h (payload_id (ctx_block ctx))) s
            in
            if h \<in> set (ap_attempted s) then append_loop keccak min_gas clock heap st ctx os r s
            else
              let s = s\<lparr>ap_attempted := h # ap_attempted s\<rparr>;
                  (r, s) = try_include keccak heap st ctx ord r s
              in append_loop keccak min_gas clock heap st ctx os r s)"

declare append_loop.simps [simp del]

definition append_step ::
    "(bytes \<Rightarrow> b256) \<Rightarrow> u64 \<Rightarrow> ('w \<Rightarrow> nat \<times> 'w) \<Rightarrow> ('c, 'w) heap \<Rightarrow> 'n pool_ops \<Rightarrow> 'n order_pool \<Rightarrow>
     append_orders \<Rightarrow> 'c checkpoint \<Rightarrow> step_context \<Rightarrow> 'w append_state \<Rightarrow> 'c control_flow \<times> 'w append_state"
where
  "append_step keccak min_gas clock heap ops pool st payload ctx s =
     (let os = best_orders_for_block ops (ctx_block ctx) pool;
          (r, s) = append_loop keccak min_gas clock heap st ctx os (run_new st ctx payload) s
      in (run_end st r, s))"

subsection \<open>What an execution keeps of an order\<close>

lemma subseq_list_remove: "subseq (list_remove i xs) xs"
proof (induction xs arbitrary: i)
  case (Cons x xs)
  then show ?case by (cases i) (auto simp: list_remove_def)
qed (simp add: list_remove_def)

lemma subseq_without: "subseq (bundle_transactions (without_transaction b h)) (bundle_transactions b)"
  by (auto simp: bundle_ops_defs Let_def subseq_list_remove split: option.split)

lemma subseq_without_all:
  "subseq (bundle_transactions (fold (\<lambda>h b. without_transaction b h) hs b)) (bundle_transactions b)"
proof (induction hs arbitrary: b)
  case (Cons h hs)
  show ?case using subseq_order.order_trans [OF Cons subseq_without] by simp
qed simp

lemma execute_subseq:
  "execute block db ex = Inr r \<Longrightarrow>
     subseq (result_transactions r) (executable_transactions ex) \<and> is_bundle_exec (source r) = is_bundle_exec ex"
  by (cases ex)
    (auto simp: execute_bundle_Inr run_result_def result_transactions_def subseq_without_all
      execute_transaction_def result_simps)

lemma subseq_length: "subseq xs ys \<Longrightarrow> length xs \<le> length ys"
  using not_subseq_length by (metis linorder_not_less)

lemma subseq_set: "subseq xs ys \<Longrightarrow> set xs \<subseteq> set ys"
  by (auto simp: subseq_conv_nths set_nths)

lemma subseq_distinct: "subseq xs ys \<Longrightarrow> distinct ys \<Longrightarrow> distinct xs"
  by (auto simp: subseq_conv_nths)

lemma order_executable:
  "order_try_into_executable ord = Inr ex \<Longrightarrow>
     executable_transactions ex = order_transactions ord \<and> is_bundle_exec ex = order_is_bundle ord"
  by (cases ord) auto

subsection \<open>Inclusions\<close>

text \<open>
  The runs as a transition system: a step includes one order of \<open>S\<close>, and is taken only when the
  run does not stop, does not skip the order, and the new checkpoint fits into the gas limit.
\<close>

inductive include_step ::
    "u64 \<Rightarrow> ('c, 'w) heap \<Rightarrow> append_orders \<Rightarrow> step_context \<Rightarrow> order set \<Rightarrow> 'c run \<Rightarrow> 'c run \<Rightarrow> bool"
  for min_gas heap st ctx S where
  include_order: "ord \<in> S \<Longrightarrow> \<not> should_stop min_gas st ctx now r \<Longrightarrow> \<not> should_skip st ctx r ord \<Longrightarrow>
    order_try_into_executable ord = Inr ex \<Longrightarrow>
    apply_in heap (cp_iter (rn_payload r)) w (rn_payload r) ex = (Inr cand, w') \<Longrightarrow>
    cumulative_gas_used cand \<le> gas_limit (ctx_limits ctx) \<Longrightarrow>
    include_step min_gas heap st ctx S r (include_candidate cand r)"

definition is_success_event :: "append_event \<Rightarrow> bool" where
  "is_success_event e = (case e of OrderInclusionSuccess h i \<Rightarrow> True | _ \<Rightarrow> False)"

definition successes :: "'w append_state \<Rightarrow> nat" where
  "successes s = length (filter is_success_event (ap_events s))"

lemma successes_simps [simp]:
  "successes (s\<lparr>ap_attempted := a\<rparr>) = successes s" "successes (s\<lparr>ap_counters := c\<rparr>) = successes s"
  "successes (s\<lparr>ap_world := w\<rparr>) = successes s" "successes (log_metrics ms s) = successes s"
  "successes (ap_emit e s) = successes s + (if is_success_event e then 1 else 0)"
  by (simp_all add: successes_def log_metrics_def ap_emit_def)

lemma attempted_simps [simp]:
  "ap_attempted (log_metrics ms s) = ap_attempted s" "ap_attempted (ap_emit e s) = ap_attempted s"
  by (simp_all add: log_metrics_def ap_emit_def)

lemma try_include_cases:
  assumes "\<not> should_stop min_gas st ctx now r" "ord \<in> S"
  shows "ap_attempted (snd (try_include keccak heap st ctx ord r s)) = ap_attempted s"
    and "fst (try_include keccak heap st ctx ord r s) = r \<and>
        successes (snd (try_include keccak heap st ctx ord r s)) = successes s \<or>
      include_step min_gas heap st ctx S r (fst (try_include keccak heap st ctx ord r s)) \<and>
        successes (snd (try_include keccak heap st ctx ord r s)) = Suc (successes s)"
  by (auto simp: try_include_def Let_def is_success_event_def not_less split: sum.split prod.split
      intro: include_order [OF assms(2,1)])

lemma include_step_mono: "include_step min_gas heap st ctx S r r' \<Longrightarrow> S \<subseteq> T \<Longrightarrow> include_step min_gas heap st ctx T r r'"
  by (auto elim!: include_step.cases intro!: include_order)

lemma include_step_orders: "include_step min_gas heap st ctx S r r' \<Longrightarrow> orders_included r' = Suc (orders_included r)"
  by (auto elim!: include_step.cases simp: include_candidate_def)

text \<open>The loop is a sequence of inclusions, one per event of success, and marks what it tries.\<close>

lemma append_loop_steps:
  assumes "append_loop keccak min_gas clock heap st ctx os r s = (r', s')"
  shows "(include_step min_gas heap st ctx (set os))\<^sup>*\<^sup>* r r' \<and>
    successes s' + orders_included r = successes s + orders_included r' \<and>
    set (ap_attempted s) \<subseteq> set (ap_attempted s') \<and>
    set (ap_attempted s') \<subseteq> set (ap_attempted s) \<union> pool_order_hash keccak ` set os \<and>
    (set (ap_attempted s') = set (ap_attempted s) \<longrightarrow> r' = r)"
  using assms
proof (induction os arbitrary: r s)
  case Nil
  then show ?case
    by (auto simp: append_loop.simps [of _ _ _ _ _ _ "[]"] Let_def split: prod.splits if_splits)
next
  case (Cons ord os)
  obtain now w where clk: "clock (ap_world s) = (now, w)" by (cases "clock (ap_world s)")
  let ?h = "pool_order_hash keccak ord"
  let ?s = "ap_emit (OrderInclusionAttempt ?h (payload_id (ctx_block ctx))) (s\<lparr>ap_world := w\<rparr>)"
  have mono: "(include_step min_gas heap st ctx (set os))\<^sup>*\<^sup>* a b \<Longrightarrow> (include_step min_gas heap st ctx (set (ord # os)))\<^sup>*\<^sup>* a b"
    for a b by (rule rtranclp_mono [THEN predicate2D]) (auto intro: include_step_mono)
  consider (stop) "should_stop min_gas st ctx now r"
    | (seen) "\<not> should_stop min_gas st ctx now r" "?h \<in> set (ap_attempted s)"
    | (fresh) "\<not> should_stop min_gas st ctx now r" "?h \<notin> set (ap_attempted s)" by blast
  then show ?case
  proof cases
    case stop
    with Cons.prems clk show ?thesis by (auto simp: append_loop.simps [of _ _ _ _ _ _ "_ # _"] Let_def)
  next
    case seen
    then have "append_loop keccak min_gas clock heap st ctx os r ?s = (r', s')"
      using Cons.prems clk by (simp add: append_loop.simps [of _ _ _ _ _ _ "_ # _"] Let_def)
    from Cons.IH [OF this] show ?thesis using mono by (auto simp: is_success_event_def)
  next
    case fresh
    let ?t = "?s\<lparr>ap_attempted := ?h # ap_attempted ?s\<rparr>"
    obtain r1 s1 where ti: "try_include keccak heap st ctx ord r ?t = (r1, s1)" by fastforce
    from fresh ti have rest: "append_loop keccak min_gas clock heap st ctx os r1 s1 = (r', s')"
      using Cons.prems clk by (simp add: append_loop.simps [of _ _ _ _ _ _ "_ # _"] Let_def)
    note cs = try_include_cases [OF fresh(1), of ord "set (ord # os)" keccak heap ?t]
    have one: "(include_step min_gas heap st ctx (set (ord # os)))\<^sup>*\<^sup>* r r1"
      using cs(2) ti by auto
    have at: "ap_attempted s1 = ?h # ap_attempted s" using cs(1) ti by simp
    have "successes s1 + orders_included r = successes s + orders_included r1"
      using cs(2) ti by (auto simp: is_success_event_def dest: include_step_orders)
    with Cons.IH [OF rest] at fresh(2) show ?thesis
      using rtranclp_trans [OF one mono] by auto
  qed
qed

subsection \<open>Invariants of a run\<close>

definition within :: "nat option \<Rightarrow> nat \<Rightarrow> bool" where
  "within m n = (case m of Some k \<Rightarrow> n \<le> k | None \<Rightarrow> True)"

lemma within_min_flattened: "within (min_flattened [a, b]) n \<longleftrightarrow> within a n \<and> within b n"
  by (cases a; cases b) (auto simp: within_def min_flattened_def map_filter_simps)

lemma within_zero [simp]: "within m 0"
  by (simp add: within_def split: option.split)

lemma within_Suc: "\<not> at_limit m n \<Longrightarrow> within m (Suc n)"
  by (auto simp: within_def at_limit_def split: option.splits)

text \<open>What a run has appended to the payload it started with.\<close>

definition appended :: "step_context \<Rightarrow> 'c checkpoint \<Rightarrow> 'c run \<Rightarrow> 'c checkpoint list \<Rightarrow> bool" where
  "appended ctx payload r es \<longleftrightarrow>
     coherent_cp (rn_payload r) \<and> history (rn_payload r) = history payload @ es \<and>
     list_all (\<lambda>c. \<not> is_barrier c) es \<and>
     orders_included r = length es \<and> txs_included r = length (span_transactions es) \<and>
     bundles_included r = length (filter is_bundle es) \<and>
     set (existing_txs r) = tx_hash ` set (payload_transactions (rn_payload r)) \<and>
     (es = [] \<and> rn_payload r = payload \<or> cumulative_gas_used (rn_payload r) \<le> gas_limit (ctx_limits ctx))"

definition run_bounded :: "append_orders \<Rightarrow> step_context \<Rightarrow> 'c run \<Rightarrow> bool" where
  "run_bounded st ctx r \<longleftrightarrow>
     rn_max_transactions r = rn_max_transactions (run_new st ctx (rn_payload r)) \<and>
     within (max_new_orders st) (orders_included r) \<and> within (rn_max_transactions r) (txs_included r) \<and>
     within (max_new_bundles st) (bundles_included r)"

lemma appended_new: "coherent_cp payload \<Longrightarrow> appended ctx payload (run_new st ctx payload) []"
  by (simp add: appended_def run_new_def payload_transactions_def span_transactions_def)

lemma bounded_new: "run_bounded st ctx (run_new st ctx payload)"
  by (simp add: run_bounded_def run_new_def)

text \<open>An included candidate: a part of the order's transactions, none of them in the payload.\<close>

lemma candidate_facts:
  assumes "fresh_heap heap" "coherent_cp (rn_payload r)"
    and "order_try_into_executable ord = Inr ex"
    and "apply_in heap (cp_iter (rn_payload r)) w (rn_payload r) ex = (Inr cand, w')"
  shows "coherent_cp cand" "history cand = history (rn_payload r) @ [cand]" "\<not> is_barrier cand"
    and "subseq (cp_transactions cand) (order_transactions ord)" "is_bundle cand = order_is_bundle ord"
proof -
  note ap = apply_in_Inr [OF assms(4,1,2) subset_refl]
  then show "coherent_cp cand" "history cand = history (rn_payload r) @ [cand]" "\<not> is_barrier cand" by auto
  from ap obtain er where er: "execute (cp_block (rn_payload r)) (checkpoint_db (rn_payload r)) ex = Inr er"
    "mutation cand = Executable er" by auto
  then show "subseq (cp_transactions cand) (order_transactions ord)" "is_bundle cand = order_is_bundle ord"
    using execute_subseq [OF er(1)] order_executable [OF assms(3)]
    by (auto simp: cp_transactions_def is_bundle_def as_bundle_def split: executable.splits)
qed

lemma include_appended:
  assumes "include_step min_gas heap st ctx S r r'" "fresh_heap heap" "appended ctx payload r es"
  shows "\<exists>es'. appended ctx payload r' es'"
  using assms(1)
proof cases
  case (include_order ord now ex w cand w')
  have co: "coherent_cp (rn_payload r)" using assms(3) by (simp add: appended_def)
  note cf = candidate_facts [OF assms(2) co include_order(5,6)]
  have "appended ctx payload r' (es @ [cand])"
    using assms(3) include_order(7) cf(1-3)
    by (auto simp: appended_def include_order(1) include_candidate_def span_transactions_def
        payload_transactions_def)
  then show ?thesis by blast
qed

lemma include_bounded:
  assumes "include_step min_gas heap st ctx S r r'" "fresh_heap heap" "coherent_cp (rn_payload r)" "run_bounded st ctx r"
  shows "run_bounded st ctx r'"
  using assms(1)
proof cases
  case (include_order ord now ex w cand w')
  note cf = candidate_facts [OF assms(2,3) include_order(5,6)]
  have stop: "\<not> at_limit (max_new_orders st) (orders_included r)" "\<not> at_limit (max_new_bundles st) (bundles_included r)"
    using include_order(3) by (auto simp: should_stop_def split: if_splits)
  have "within (rn_max_transactions r) (txs_included r + length (order_transactions ord))"
    using include_order(4) by (auto simp: should_skip_def within_def split: if_splits option.splits)
  then have "within (rn_max_transactions r) (txs_included r + length (cp_transactions cand))"
    using subseq_length [OF cf(4)] by (auto simp: within_def split: option.splits)
  with assms(4) within_Suc [OF stop(1)] within_Suc [OF stop(2)] show ?thesis
    by (simp add: run_bounded_def include_order(1) include_candidate_def run_new_def)
qed

lemma include_distinct:
  assumes "include_step min_gas heap st ctx S r r'" "fresh_heap heap" "appended ctx payload r es"
    and "\<forall>ord \<in> S. distinct (map tx_hash (order_transactions ord))"
    and "distinct (map tx_hash (payload_transactions (rn_payload r)))"
  shows "distinct (map tx_hash (payload_transactions (rn_payload r')))"
  using assms(1)
proof cases
  case (include_order ord now ex w cand w')
  have co: "coherent_cp (rn_payload r)"
    and ex: "set (existing_txs r) = tx_hash ` set (payload_transactions (rn_payload r))"
    using assms(3) by (simp_all add: appended_def)
  note cf = candidate_facts [OF assms(2) co include_order(5,6)]
  have "distinct (map tx_hash (cp_transactions cand))"
    using subseq_distinct [OF subseq_map [OF cf(4)]] assms(4) include_order(2) by blast
  moreover have "tx_hash ` set (cp_transactions cand) \<inter> set (existing_txs r) = {}"
    using include_order(4) subseq_set [OF cf(4)] by (auto simp: should_skip_def list_ex_iff split: if_splits)
  ultimately show ?thesis
    using assms(5) cf(2)
    by (auto simp: include_order(1) include_candidate_def payload_transactions_def span_transactions_def ex)
qed

lemma run_invariant:
  assumes "(include_step min_gas heap st ctx S)\<^sup>*\<^sup>* (run_new st ctx payload) r" "fresh_heap heap" "coherent_cp payload"
  shows "(\<exists>es. appended ctx payload r es) \<and> run_bounded st ctx r"
  using assms(1)
proof (induction rule: rtranclp_induct)
  case base
  then show ?case using appended_new [OF assms(3)] bounded_new by blast
next
  case (step r r')
  then obtain es where es: "appended ctx payload r es" by blast
  then have "coherent_cp (rn_payload r)" by (simp add: appended_def)
  with step es include_appended [OF step(2) assms(2) es] include_bounded [OF step(2) assms(2)]
  show ?case by blast
qed

lemma run_invariant_distinct:
  assumes "(include_step min_gas heap st ctx S)\<^sup>*\<^sup>* (run_new st ctx payload) r" "fresh_heap heap" "coherent_cp payload"
    and "\<forall>ord \<in> S. distinct (map tx_hash (order_transactions ord))"
    and "distinct (map tx_hash (payload_transactions payload))"
  shows "distinct (map tx_hash (payload_transactions (rn_payload r)))"
  using assms(1)
proof (induction rule: rtranclp_induct)
  case base
  then show ?case using assms(5) by (simp add: run_new_def)
next
  case (step r r')
  from run_invariant [OF step(1) assms(2,3)] obtain es where "appended ctx payload r es" by blast
  from include_distinct [OF step(2) assms(2) this assms(4) step(3)] show ?case .
qed

subsection \<open>Properties\<close>

lemma append_step_run:
  assumes "append_step keccak min_gas clock heap ops pool st payload ctx s = (cf, s')"
  obtains r where "(include_step min_gas heap st ctx (set (best_orders_for_block ops (ctx_block ctx) pool)))\<^sup>*\<^sup>*
      (run_new st ctx payload) r" "cf = run_end st r" "successes s' = successes s + orders_included r"
    and "set (ap_attempted s) \<subseteq> set (ap_attempted s')"
    and "set (ap_attempted s') \<subseteq> set (ap_attempted s) \<union>
      pool_order_hash keccak ` set (best_orders_for_block ops (ctx_block ctx) pool)"
    and "set (ap_attempted s') = set (ap_attempted s) \<Longrightarrow> r = run_new st ctx payload"
proof -
  let ?os = "best_orders_for_block ops (ctx_block ctx) pool"
  obtain r t where run: "append_loop keccak min_gas clock heap st ctx ?os (run_new st ctx payload) s = (r, t)"
    by fastforce
  with assms have "cf = run_end st r" "t = s'" by (simp_all add: append_step_def Let_def)
  with append_loop_steps [OF run] show ?thesis using that [of r] by (auto simp: run_new_def)
qed

text \<open>
  Claim C17: a run of \<open>AppendOrders\<close> only appends executed checkpoints to the payload, one per
  event of success. Unless it appended nothing, the payload keeps within the gas limit; the new
  orders, transactions and bundles keep within the limits of the step, and the transactions
  within the limit of the scope. It breaks exactly when it is so configured and no transaction was
  appended.
\<close>

theorem append_step_within_limits:
  assumes "append_step keccak min_gas clock heap ops pool st payload ctx s = (cf, s')"
    and "fresh_heap heap" "coherent_cp payload"
  shows "\<exists>q es. cf = (if break_on_limit st \<and> span_transactions es = [] then Break q else Ok q) \<and>
    coherent_cp q \<and> history q = history payload @ es \<and> list_all (\<lambda>c. \<not> is_barrier c) es \<and>
    (q = payload \<or> cumulative_gas_used q \<le> gas_limit (ctx_limits ctx)) \<and>
    within (max_new_orders st) (length es) \<and>
    within (max_new_transactions st) (length (span_transactions es)) \<and>
    within (map_option unat (max_transactions (ctx_limits ctx))) (length (span_transactions es)) \<and>
    within (max_new_bundles st) (length (filter is_bundle es)) \<and>
    successes s' = successes s + length es"
proof -
  from assms(1) obtain r where r: "(include_step min_gas heap st ctx (set (best_orders_for_block ops (ctx_block ctx) pool)))\<^sup>*\<^sup>*
      (run_new st ctx payload) r" "cf = run_end st r" "successes s' = successes s + orders_included r"
    by (rule append_step_run) blast
  from run_invariant [OF r(1) assms(2,3)] obtain es where
    es: "appended ctx payload r es" and bd: "run_bounded st ctx r" by blast
  have "within (min_flattened [max_new_transactions st, map_option unat (max_transactions (ctx_limits ctx))])
      (txs_included r)"
    using bd by (auto simp: run_bounded_def run_new_def)
  then have "within (max_new_transactions st) (txs_included r)"
    "within (map_option unat (max_transactions (ctx_limits ctx))) (txs_included r)"
    by (simp_all add: within_min_flattened)
  with es bd show ?thesis
    by (intro exI [of _ "rn_payload r"] exI [of _ es])
      (auto simp: appended_def run_bounded_def r(2,3) run_end_def)
qed

definition sample_ctx :: step_context where
  "sample_ctx = \<lparr>ctx_block = sample_block, ctx_limits = limits_with_gas EthExt 30000, ctx_started_at = None\<rparr>"

definition sample_append_state :: "nat append_state" where
  "sample_append_state =
     \<lparr>ap_attempted = [], ap_counters = job_counters_reset, ap_metrics = [], ap_events = [], ap_world = 20\<rparr>"

abbreviation sample_tx_pool :: "recovered_tx list order_pool" where
  "sample_tx_pool \<equiv> pool_insert (\<lambda>bs. 9) (OrderTransaction (sample_tx 1 7 0)) pool_default"

lemma sample_offer: "best_orders_for_block sample_ops block sample_tx_pool = [OrderTransaction (sample_tx 1 7 0)]"
  by (simp add: best_orders_eq pool_insert_def pool_default_def Let_def map_filter_simps)

lemma sample_root_sums:
  "cumulative_gas_used sample_root = 0" "span_transactions [sample_root] = []" "rn_payload (run_new st ctx p) = p"
  by (simp_all add: cumulative_gas_used_def sample_history span_gas_used_def gas_used_def cp_result_def
      span_transactions_def cp_transactions_def run_new_def) (simp_all add: sample_root_def)

abbreviation sample_appended :: "unit checkpoint" where
  "sample_appended \<equiv> apply_with 2 20 sample_root
     (Executable \<lparr>source = Transaction (sample_tx 1 7 0), results = [Success 21000],
                  er_state = take_bundle sample_evm (checkpoint_db sample_root) [undefined]\<rparr>) ()"

lemma sample_apply:
  "apply_in bump_heap (cp_iter sample_root) 20 sample_root (Transaction (sample_tx 1 7 0)) = (Inr sample_appended, 21)"
  by (simp add: apply_in_def bump_heap_def sample_cp_iter cp_apply_def execute_transaction_def sample_block_defs)
    (simp add: sample_root_def sample_block_defs numeral_2_eq_2)

lemma sample_appended_sums:
  "cumulative_gas_used sample_appended = 21000" "cp_transactions sample_appended = [sample_tx 1 7 0]"
  "coherent_cp sample_appended" "history sample_appended = [sample_root, sample_appended]"
proof -
  have fresh: "2 \<notin> cp_addr ` set (cp_iter sample_root)" by (simp add: sample_cp_iter) (simp add: sample_root_def)
  show "coherent_cp sample_appended" "history sample_appended = [sample_root, sample_appended]"
    using coherent_cp_apply_with [OF sample_coherent(3) fresh] history_apply_with [OF sample_coherent(3) fresh]
    by (simp_all add: sample_history)
  then show "cumulative_gas_used sample_appended = 21000" "cp_transactions sample_appended = [sample_tx 1 7 0]"
    by (simp_all add: cumulative_gas_used_def span_gas_used_def gas_used_def cp_result_def cp_transactions_def
        result_gas_used_def result_transactions_def apply_with_def)
      (simp_all add: sample_root_def)
qed

lemma sample_append_run:
  assumes "ctx_limits ctx = limits_with_gas EthExt 30000" "ap_attempted s = []" "ap_world s = 20"
  shows "\<exists>s'. append_step (\<lambda>bs. 9) 21000 (\<lambda>w. (w, w)) bump_heap sample_ops sample_tx_pool from_pool sample_root ctx
       s = (Ok sample_appended, s') \<and> ap_attempted s' = [1]"
proof -
  have stop: "\<not> should_stop 21000 from_pool ctx 20 (run_new from_pool ctx sample_root)"
    by (simp add: should_stop_def run_new_def deadline_reached_def assms limits_with_gas_def from_pool_def
        at_limit_def min_flattened_def map_filter_simps saturating_sub_def sample_root_sums )
  have skip: "\<not> should_skip from_pool ctx (run_new from_pool ctx sample_root) (OrderTransaction (sample_tx 1 7 0))"
    by (simp add: should_skip_def run_new_def assms limits_with_gas_def from_pool_def
        min_flattened_def map_filter_simps sample_history sample_root_sums)
  have "txs_included (include_candidate sample_appended r) > 0"
    "rn_payload (include_candidate sample_appended r) = sample_appended" for r
    by (simp_all add: include_candidate_def sample_appended_sums)
  moreover have "gas_limit (ctx_limits ctx) = 30000" by (simp add: assms limits_with_gas_def)
  ultimately show ?thesis
    by (simp add: append_step_def sample_offer append_loop.simps stop try_include_def skip
        assms(2,3) Let_def ap_emit_def log_metrics_def sample_root_sums sample_apply
        sample_appended_sums(1) run_end_def)
qed

lemma sample_append_step:
  "\<exists>s'. append_step (\<lambda>bs. 9) 21000 (\<lambda>w. (w, w)) bump_heap sample_ops sample_tx_pool from_pool sample_root sample_ctx
       sample_append_state = (Ok sample_appended, s') \<and> ap_attempted s' = [1]"
  by (rule sample_append_run) (simp_all add: sample_ctx_def sample_append_state_def)

theorem append_step_within_limits_witness:
  "\<exists>s' q es. append_step (\<lambda>bs. 9) 21000 (\<lambda>w. (w, w)) bump_heap sample_ops sample_tx_pool from_pool sample_root
       sample_ctx sample_append_state = (Ok q, s') \<and> history q = history sample_root @ es \<and>
     cumulative_gas_used q \<le> 30000 \<and> successes s' = length es \<and> es \<noteq> []"
proof -
  obtain s' where step: "append_step (\<lambda>bs. 9) 21000 (\<lambda>w. (w, w)) bump_heap sample_ops sample_tx_pool from_pool sample_root
      sample_ctx sample_append_state = (Ok sample_appended, s')" using sample_append_step by blast
  obtain es where "history sample_appended = history sample_root @ es" "successes s' = length es"
    using append_step_within_limits [OF step fresh_bump_heap sample_coherent(3)]
    by (auto simp: successes_def sample_append_state_def split: if_splits)
  with step show ?thesis
    by (intro exI [of _ s'] exI [of _ sample_appended] exI [of _ es])
      (auto simp: sample_appended_sums sample_history)
qed

text \<open>
  Claim C18: \<open>AppendOrders\<close> never puts a transaction into a payload twice: when the transactions of
  the payload and those of every offered order are distinct, those of the new payload are.
\<close>

theorem append_step_no_duplicates:
  assumes "append_step keccak min_gas clock heap ops pool st payload ctx s = (cf, s')"
    and "fresh_heap heap" "coherent_cp payload" "distinct (map tx_hash (payload_transactions payload))"
    and "\<forall>ord \<in> set (best_orders_for_block ops (ctx_block ctx) pool). distinct (map tx_hash (order_transactions ord))"
  shows "\<exists>q. try_into_payload cf = Inr q \<and> distinct (map tx_hash (payload_transactions q))"
proof -
  from assms(1) obtain r where r: "(include_step min_gas heap st ctx (set (best_orders_for_block ops (ctx_block ctx) pool)))\<^sup>*\<^sup>*
      (run_new st ctx payload) r" "cf = run_end st r" by (rule append_step_run) blast
  from run_invariant_distinct [OF r(1) assms(2,3,5,4)] show ?thesis
    by (simp add: r(2) run_end_def)
qed

theorem append_step_no_duplicates_witness:
  "\<exists>s' q. append_step (\<lambda>bs. 9) 21000 (\<lambda>w. (w, w)) bump_heap sample_ops sample_tx_pool from_pool sample_root
       sample_ctx sample_append_state = (Ok q, s') \<and> distinct (map tx_hash (payload_transactions q))"
proof -
  obtain s' where step: "append_step (\<lambda>bs. 9) 21000 (\<lambda>w. (w, w)) bump_heap sample_ops sample_tx_pool from_pool sample_root
      sample_ctx sample_append_state = (Ok sample_appended, s')" using sample_append_step by blast
  from append_step_no_duplicates [OF step fresh_bump_heap sample_coherent(3)] step show ?thesis
    by (auto simp: sample_offer payload_transactions_def sample_history sample_root_sums)
qed

text \<open>
  Claim C19: within a job, an \<open>AppendOrders\<close> that breaks on its limit, as it does unless it was
  configured with \<open>with_ok_on_limit\<close>, comes to an end in a loop. However the other steps change the
  payload, the limits and the pool in between, the number of runs that return \<open>Ok\<close> is at most the
  number of different orders the pool offered at the start of these runs that had not been attempted
  before, as every such run attempts a new one.
\<close>

theorem append_in_loop_terminates:
  assumes "break_on_limit st"
    and "\<forall>i < n. \<exists>q t. append_step keccak min_gas clock heap ops (pool i) st (p i) (ctx i) (s i) = (Ok q, t) \<and>
      ap_attempted (s (Suc i)) = ap_attempted t"
  shows "n \<le> card ((\<Union>i < n. pool_order_hash keccak ` set (best_orders_for_block ops (ctx_block (ctx i)) (pool i))) -
    set (ap_attempted (s 0)))"
proof -
  let ?H = "\<Union>i < n. pool_order_hash keccak ` set (best_orders_for_block ops (ctx_block (ctx i)) (pool i))"
  have grow: "set (ap_attempted (s i)) \<subset> set (ap_attempted (s (Suc i))) \<and>
      set (ap_attempted (s (Suc i))) \<subseteq> set (ap_attempted (s i)) \<union> ?H" if i: "i < n" for i
  proof -
    let ?Hi = "pool_order_hash keccak ` set (best_orders_for_block ops (ctx_block (ctx i)) (pool i))"
    obtain q t where step: "append_step keccak min_gas clock heap ops (pool i) st (p i) (ctx i) (s i) = (Ok q, t)"
      "ap_attempted (s (Suc i)) = ap_attempted t" using assms(2) i by blast
    from step(1) obtain r where r: "Ok q = run_end st r" "set (ap_attempted (s i)) \<subseteq> set (ap_attempted t)"
      "set (ap_attempted t) \<subseteq> set (ap_attempted (s i)) \<union> ?Hi"
      "set (ap_attempted t) = set (ap_attempted (s i)) \<Longrightarrow> r = run_new st (ctx i) (p i)"
      by (rule append_step_run) blast
    from r(1) assms(1) have "r \<noteq> run_new st (ctx i) (p i)" by (auto simp: run_end_def run_new_def)
    with r(2,4) have "set (ap_attempted (s i)) \<subset> set (ap_attempted t)" by blast
    moreover have "set (ap_attempted t) \<subseteq> set (ap_attempted (s i)) \<union> ?H" using r(3) i by blast
    ultimately show ?thesis unfolding step(2) by simp
  qed
  have "card (set (ap_attempted (s 0))) + k \<le> card (set (ap_attempted (s k))) \<and>
      set (ap_attempted (s k)) \<subseteq> set (ap_attempted (s 0)) \<union> ?H" if "k \<le> n" for k
    using that
  proof (induction k)
    case (Suc k)
    with psubset_card_mono [OF _ conjunct1 [OF grow [of k]]] grow [of k] show ?case by auto
  qed simp
  from this [of n] have "card (set (ap_attempted (s 0))) + n \<le> card (set (ap_attempted (s 0)) \<union> ?H)"
    using card_mono [of "set (ap_attempted (s 0)) \<union> ?H" "set (ap_attempted (s n))"] by simp
  also have "\<dots> = card (set (ap_attempted (s 0)) \<union> (?H - set (ap_attempted (s 0))))" by simp
  also have "\<dots> \<le> card (set (ap_attempted (s 0))) + card (?H - set (ap_attempted (s 0)))"
    by (rule card_Un_le)
  finally show ?thesis by simp
qed

theorem append_in_loop_terminates_witness:
  "\<exists>s :: nat \<Rightarrow> nat append_state. ap_attempted (s 1) = [1] \<and>
     Suc 0 \<le> card ((\<Union>i < Suc 0. pool_order_hash (\<lambda>bs. 9) ` set (best_orders_for_block sample_ops sample_block sample_tx_pool)) -
       set (ap_attempted (s 0)))"
proof -
  obtain s' where step: "append_step (\<lambda>bs. 9) 21000 (\<lambda>w. (w, w)) bump_heap sample_ops sample_tx_pool from_pool sample_root
      sample_ctx sample_append_state = (Ok sample_appended, s')" "ap_attempted s' = [1]"
    using sample_append_step by blast
  let ?s = "\<lambda>i :: nat. if i = 0 then sample_append_state else s'"
  have "Suc 0 \<le> card ((\<Union>i < Suc 0. pool_order_hash (\<lambda>bs. 9) `
      set (best_orders_for_block sample_ops (ctx_block sample_ctx) sample_tx_pool)) - set (ap_attempted (?s 0)))"
    by (rule append_in_loop_terminates [where st = from_pool and p = "\<lambda>i. sample_root" and ctx = "\<lambda>i. sample_ctx"
          and pool = "\<lambda>i. sample_tx_pool" and clock = "\<lambda>w. (w, w)" and heap = bump_heap and min_gas = 21000])
      (simp add: from_pool_def, use step in auto)
  with step show ?thesis by (intro exI [of _ ?s]) (simp add: sample_ctx_def)
qed

text \<open>
  With \<open>with_ok_on_limit\<close> the bound does not hold: a run that includes nothing returns \<open>Ok\<close> too.
\<close>

lemma ok_on_limit_never_breaks: "run_end (with_ok_on_limit st) r = Ok (rn_payload r)"
  by (simp add: run_end_def with_ok_on_limit_def)

subsection \<open>Options and counters that do not do what they are meant to\<close>

text \<open>\<open>disable_system_pool\<close> has no effect: the flag is never read.\<close>

lemma disable_system_pool_ignored:
  "append_step keccak min_gas clock heap ops pool (disable_system_pool st) payload ctx s =
   append_step keccak min_gas clock heap ops pool st payload ctx s"
proof -
  have eqs: "run_new (disable_system_pool st) ctx p = run_new st ctx p"
    "should_stop min_gas (disable_system_pool st) ctx now r = should_stop min_gas st ctx now r"
    "should_skip (disable_system_pool st) ctx r ord = should_skip st ctx r ord"
    "run_end (disable_system_pool st) r = run_end st r" for p now ord and r :: "'a run"
    by (simp_all add: run_new_def should_stop_def should_skip_def run_end_def disable_system_pool_def)
  have "append_loop keccak min_gas clock heap (disable_system_pool st) ctx os r s =
      append_loop keccak min_gas clock heap st ctx os r s" for os r s
  proof (induction os arbitrary: r s)
    case Nil
    show ?case by (simp add: append_loop.simps [of _ _ _ _ _ _ "[]"] eqs Let_def split: prod.split)
  next
    case (Cons ord os)
    show ?case by (simp add: append_loop.simps [of _ _ _ _ _ _ "_ # _"] eqs Cons try_include_def Let_def split: prod.split)
  qed
  then show ?thesis by (simp add: append_step_def eqs)
qed

text \<open>
  The counters of included transactions are fed with the checkpoint below the included one: the
  first order that is included on a barrier counts as no transaction and no bundle.
\<close>

lemma first_inclusion_not_counted:
  assumes "try_include keccak heap st ctx ord r s = (r', s')" "r' \<noteq> r" "is_barrier (rn_payload r)"
  shows "jc_orders_included (ap_counters s') = jc_orders_included (ap_counters s) + 1 \<and>
    jc_txs_included (ap_counters s') = jc_txs_included (ap_counters s) \<and>
    jc_bundles_included (ap_counters s') = jc_bundles_included (ap_counters s)"
proof -
  have "cp_transactions (rn_payload r) = []" "\<not> is_bundle (rn_payload r)"
    using assms(3) by (simp_all add: cp_transactions_def is_bundle_def as_bundle_def is_barrier_def)
  with assms(1,2) show ?thesis
    by (auto simp: try_include_def Let_def ap_emit_def log_metrics_def job_counters_included_def
        job_counters_considered_def split: if_splits sum.splits prod.splits)
qed

text \<open>
  A reached limit of bundles ends the run, transactions included: the check of \<open>should_skip\<close> for
  bundles at the limit is never reached in the loop.
\<close>

lemma bundle_limit_stops_transactions:
  "max_new_bundles st = Some n \<Longrightarrow> n \<le> bundles_included r \<Longrightarrow>
     fst (append_loop keccak min_gas clock heap st ctx os r s) = r"
  by (subst append_loop.simps) (simp add: should_stop_def at_limit_def Let_def split: prod.split)

text \<open>
  The scope's limit of transactions counts what one run appends: however many transactions the
  payload already has, a run begins below a limit that is not zero.
\<close>

lemma transaction_limit_per_run:
  "max_new_transactions st = None \<Longrightarrow> max_transactions (ctx_limits ctx) = Some m \<Longrightarrow>
     at_limit (rn_max_transactions (run_new st ctx payload)) (txs_included (run_new st ctx payload)) \<longleftrightarrow> m = 0"
  by (simp add: run_new_def at_limit_def min_flattened_def map_filter_simps unat_eq_0)

end
