(* ===== verification/Step_Instances.thy ===== *)
theory Step_Instances
  imports Executor Printing
begin

section \<open>Step instances\<close>

text \<open>
  \<open>StepInstance\<close> of \<open>crates/pipeline/src/pipelines/step/instance.rs\<close> with \<open>Name\<close>
  (\<open>step/name.rs\<close>) and \<open>PerJobCounters\<close> (\<open>step/metrics.rs\<close>): what surrounds the step of a user
  when the executor calls it, and its initialization by \<open>spawn_payload_builder_service\<close>
  (\<open>pipelines/service.rs\<close>).

  The step itself is a \<open>step_instance\<close> of Executor over a world \<open>'v\<close>. The state of the instances
  is a map from their identities, beside that world; \<open>instrument\<close> gives the methods the executor
  calls. Durations are nanoseconds of a clock \<open>now\<close> that reads the world. A metrics set is the
  scope it was created with and the updates it has got, in order. The type erasure behind
  \<open>StepInstance::new\<close> always casts back to the type it came from and is the identity here.
\<close>

subsection \<open>Control flow\<close>

definition is_break :: "'c control_flow \<Rightarrow> bool" where
  "is_break f = (case f of Break cp \<Rightarrow> True | _ \<Rightarrow> False)"

definition is_fail :: "'c control_flow \<Rightarrow> bool" where
  "is_fail f = (case f of Fail e \<Rightarrow> True | _ \<Rightarrow> False)"

definition flow_is_ok :: "'c control_flow \<Rightarrow> bool" where
  "flow_is_ok f = (case f of Ok cp \<Rightarrow> True | _ \<Rightarrow> False)"

text \<open>An error becomes a failure; \<open>PayloadBuilderError::other\<close> keeps its text.\<close>

definition control_flow_from :: "string \<Rightarrow> 'c control_flow" where
  "control_flow_from e = Fail (Other e)"

lemma control_flow_conversions:
  "is_fail f \<longleftrightarrow> (\<exists>e. try_into_fail f = Inr e)" "is_break f \<or> flow_is_ok f \<longleftrightarrow> (\<exists>cp. try_into_payload f = Inr cp)"
  by (cases f; simp add: is_fail_def is_break_def flow_is_ok_def)+

subsection \<open>Names and counters\<close>

record step_name =
  nm_pretty :: string
  nm_metrics :: "string option"

text \<open>\<open>Name::new\<close> gets the type's name from the compiler.\<close>

definition name_new :: "string \<Rightarrow> step_name option" where
  "name_new type_name = map_option (\<lambda>short. \<lparr>nm_pretty = short, nm_metrics = None\<rparr>) (short_type_name type_name)"

definition name_metric :: "step_name \<Rightarrow> string option" where
  "name_metric n = nm_metrics n"

definition name_init_metrics :: "string \<Rightarrow> step_name \<Rightarrow> step_name option" where
  "name_init_metrics name n = (if nm_metrics n = None then Some (n\<lparr>nm_metrics := Some name\<rparr>) else None)"

definition name_has_metrics :: "step_name \<Rightarrow> bool" where
  "name_has_metrics n \<longleftrightarrow> nm_metrics n \<noteq> None"

record step_counters =
  pc_invoked :: u32
  pc_exec_duration_micros :: u64

definition step_counters_default :: step_counters where
  "step_counters_default = \<lparr>pc_invoked = 0, pc_exec_duration_micros = 0\<rparr>"

definition step_counters_reset :: "step_counters \<Rightarrow> step_counters" where
  "step_counters_reset c = c\<lparr>pc_invoked := 0, pc_exec_duration_micros := 0\<rparr>"

definition as_micros :: "nat \<Rightarrow> nat" where
  "as_micros ns = ns div 1000"

definition as_millis :: "nat \<Rightarrow> nat" where
  "as_millis ns = ns div 1000000"

definition increment_exec_time :: "nat \<Rightarrow> step_counters \<Rightarrow> step_counters" where
  "increment_exec_time elapsed c =
     c\<lparr>pc_exec_duration_micros := pc_exec_duration_micros c + of_nat (as_micros elapsed)\<rparr>"

definition increment_invocation :: "step_counters \<Rightarrow> step_counters" where
  "increment_invocation c = c\<lparr>pc_invoked := pc_invoked c + 1\<rparr>"

definition exec_duration :: "step_counters \<Rightarrow> nat" where
  "exec_duration c = unat (pc_exec_duration_micros c) * 1000"

subsection \<open>Instances\<close>

datatype step_metric =
    InvokedTotal u64 | InvokedPerJob u32
  | BeforeJobInvokedTotal | BeforeJobFailedTotal | BeforeJobDuration nat | BeforeJobMillis u64
  | AfterJobInvokedTotal | AfterJobFailedTotal | AfterJobDuration nat | AfterJobMillis u64
  | OkTotal | BreakTotal | FailTotal
  | ExecDuration nat | ExecDurationTotalMillis u64 | ExecDurationPerJob nat

record instance_state =
  in_name :: step_name
  in_metrics :: "(string \<times> step_metric list) option"
  in_per_job :: step_counters

definition instance_new :: "string \<Rightarrow> instance_state option" where
  "instance_new type_name =
     map_option (\<lambda>n. \<lparr>in_name = n, in_metrics = None, in_per_job = step_counters_default\<rparr>) (name_new type_name)"

definition init_metrics :: "string \<Rightarrow> instance_state \<Rightarrow> instance_state option" where
  "init_metrics name st =
     Option.bind (name_init_metrics name (in_name st)) (\<lambda>n.
       if in_metrics st = None then Some (st\<lparr>in_name := n, in_metrics := Some (name, [])\<rparr>) else None)"

definition instance_name :: "instance_state \<Rightarrow> string" where
  "instance_name st = nm_pretty (in_name st)"

definition instance_debug :: "instance_state \<Rightarrow> string" where
  "instance_debug st =
     ''Step ('' @ instance_name st @
     (case nm_metrics (in_name st) of Some m \<Rightarrow> '', metric: '' @ m @ '')'' | None \<Rightarrow> '')'')"

text \<open>Updates of the metrics and the counters; nothing happens before \<open>init_metrics\<close>.\<close>

definition record_metrics :: "step_metric list \<Rightarrow> instance_state \<Rightarrow> instance_state" where
  "record_metrics ms st = st\<lparr>in_metrics := map_option (\<lambda>(name, log). (name, log @ ms)) (in_metrics st)\<rparr>"

definition count_instance :: "(step_counters \<Rightarrow> step_counters) \<Rightarrow> instance_state \<Rightarrow> instance_state" where
  "count_instance f st = (if in_metrics st = None then st else st\<lparr>in_per_job := f (in_per_job st)\<rparr>)"

type_synonym ('k, 'v) instances = "('k \<Rightarrow> instance_state) \<times> 'v"

definition flow_metric :: "'c control_flow \<Rightarrow> step_metric" where
  "flow_metric r = (case r of Ok cp \<Rightarrow> OkTotal | Break cp \<Rightarrow> BreakTotal | Fail e \<Rightarrow> FailTotal)"

definition instance_step ::
    "('v \<Rightarrow> nat) \<Rightarrow> 'k \<Rightarrow> ('c, 'v, 'p) step_instance \<Rightarrow> 'c checkpoint \<Rightarrow> step_context \<Rightarrow>
     (('k, 'v) instances, 'c control_flow) async" where
  "instance_step now k raw payload ctx w =
     (case w of (m, v) \<Rightarrow>
        let st = count_instance increment_invocation (m k);
            (n, v', result) = si_step raw payload ctx v;
            elapsed = now v' - now v;
            st = count_instance (increment_exec_time elapsed) (record_metrics [ExecDuration elapsed] st);
            st = record_metrics [flow_metric result] st
        in (n, (m(k := st), v'), result))"

definition instance_before_job ::
    "('v \<Rightarrow> nat) \<Rightarrow> 'k \<Rightarrow> ('c, 'v, 'p) step_instance \<Rightarrow> step_context \<Rightarrow>
     (('k, 'v) instances, payload_builder_error + unit) async" where
  "instance_before_job now k raw ctx w =
     (case w of (m, v) \<Rightarrow>
        let st = record_metrics [BeforeJobInvokedTotal] (m k);
            (n, v', result) = si_before_job raw ctx v;
            elapsed = now v' - now v;
            st = count_instance (increment_exec_time elapsed) (record_metrics [BeforeJobDuration elapsed] st);
            st = record_metrics [BeforeJobMillis (of_nat (as_millis elapsed))] st;
            st = (if is_ok result then st else record_metrics [BeforeJobFailedTotal] st)
        in (n, (m(k := st), v'), result))"

definition job_totals :: "instance_state \<Rightarrow> instance_state" where
  "job_totals st =
     (let per_job_duration = exec_duration (in_per_job st);
          invoke_count = pc_invoked (in_per_job st);
          st = record_metrics
                 [InvokedTotal (ucast invoke_count), InvokedPerJob invoke_count,
                  ExecDurationPerJob per_job_duration,
                  ExecDurationTotalMillis (of_nat (as_millis per_job_duration))] st
      in count_instance step_counters_reset st)"

definition instance_after_job ::
    "('v \<Rightarrow> nat) \<Rightarrow> 'k \<Rightarrow> ('c, 'v, 'p) step_instance \<Rightarrow> step_context \<Rightarrow> payload_builder_error + 'p \<Rightarrow>
     (('k, 'v) instances, payload_builder_error + unit) async" where
  "instance_after_job now k raw ctx res w =
     (case w of (m, v) \<Rightarrow>
        let st = count_instance increment_invocation (record_metrics [AfterJobInvokedTotal] (m k));
            (n, v', result) = si_after_job raw ctx res v;
            elapsed = now v' - now v;
            st = count_instance (increment_exec_time elapsed) (record_metrics [AfterJobDuration elapsed] st);
            st = record_metrics [AfterJobMillis (of_nat (as_millis elapsed))] st;
            st = job_totals st;
            st = (if is_ok result then st else record_metrics [AfterJobFailedTotal] st)
        in (n, (m(k := st), v'), result))"

definition instrument ::
    "('v \<Rightarrow> nat) \<Rightarrow> 'k \<Rightarrow> ('c, 'v, 'p) step_instance \<Rightarrow> ('c, ('k, 'v) instances, 'p) step_instance" where
  "instrument now k raw =
     \<lparr>si_step = instance_step now k raw, si_before_job = instance_before_job now k raw,
      si_after_job = instance_after_job now k raw\<rparr>"

subsection \<open>Setup\<close>

record init_context =
  ic_provider :: "b256 \<Rightarrow> provider_error + state_provider"
  ic_metrics_scope :: string

definition metrics_scope_of :: "string \<Rightarrow> step_path \<Rightarrow> string" where
  "metrics_scope_of name path = name @ ''_step_'' @ path_text path"

text \<open>
  The loop of \<open>spawn_payload_builder_service\<close>: metrics and \<open>setup\<close> of every step, up to the first
  error. The items of the pipeline are the identities of the instances.
\<close>

fun setup_steps ::
    "(b256 \<Rightarrow> provider_error + state_provider) \<Rightarrow> ('k \<Rightarrow> init_context \<Rightarrow> 'v \<Rightarrow> 'v \<times> (payload_builder_error + unit)) \<Rightarrow>
     string \<Rightarrow> ('k, 'l) pipeline \<Rightarrow> step_path list \<Rightarrow> ('k, 'v) instances \<Rightarrow>
     (('k, 'v) instances \<times> (payload_builder_error + unit)) option" where
  "setup_steps provider setup_fn name p [] w = Some (w, Inr ())"
| "setup_steps provider setup_fn name p (path # paths) (m, v) =
     (case navigator path p of
        Some (Some navi) \<Rightarrow>
          (case nav_instance navi of
             None \<Rightarrow> None
           | Some k \<Rightarrow>
               let metrics_scope = metrics_scope_of name (fst navi) in
               case init_metrics metrics_scope (m k) of
                 None \<Rightarrow> None
               | Some st \<Rightarrow>
                   let init_ctx = \<lparr>ic_provider = provider, ic_metrics_scope = metrics_scope\<rparr> in
                   (case setup_fn k init_ctx v of
                      (v', Inl e) \<Rightarrow> Some ((m(k := st), v'), Inl e)
                    | (v', Inr u) \<Rightarrow> setup_steps provider setup_fn name p paths (m(k := st), v')))
      | _ \<Rightarrow> None)"

subsection \<open>Transparency\<close>

lemma record_metrics_name [simp]: "in_name (record_metrics ms st) = in_name st"
  by (simp add: record_metrics_def)

lemma count_instance_metrics [simp]: "in_metrics (count_instance f st) = in_metrics st"
  by (simp add: count_instance_def)

lemma record_metrics_metrics [simp]:
  "in_metrics (record_metrics ms st) = map_option (\<lambda>(name, log). (name, log @ ms)) (in_metrics st)"
  by (simp add: record_metrics_def)

lemma record_metrics_per_job [simp]: "in_per_job (record_metrics ms st) = in_per_job st"
  by (simp add: record_metrics_def)

lemma count_instance_per_job [simp]:
  "in_per_job (count_instance f st) = (if in_metrics st = None then in_per_job st else f (in_per_job st))"
  by (simp add: count_instance_def)

text \<open>The state of the instances that are not called, and the step's own world and result.\<close>

definition calls_through ::
    "'k \<Rightarrow> 'a \<Rightarrow> ('v, 'a) async \<Rightarrow> (('k, 'v) instances, 'a) async \<Rightarrow> bool" where
  "calls_through k a f g \<longleftrightarrow>
     (\<forall>m v. case g (m, v) of (n, (m', v'), r) \<Rightarrow> f v = (n, v', r) \<and> (\<forall>j. j \<noteq> k \<longrightarrow> m' j = m j))"

lemma instrument_calls_through:
  "calls_through k a (si_step raw payload ctx) (si_step (instrument now k raw) payload ctx)"
  "calls_through k b (si_before_job raw ctx) (si_before_job (instrument now k raw) ctx)"
  "calls_through k b (si_after_job raw ctx res) (si_after_job (instrument now k raw) ctx res)"
  by (auto simp: calls_through_def instrument_def instance_step_def instance_before_job_def
      instance_after_job_def Let_def split: prod.splits)

subsection \<open>Counting invocations\<close>

text \<open>The calls of the executor to one instance during a job.\<close>

fun instance_steps ::
    "('v \<Rightarrow> nat) \<Rightarrow> 'k \<Rightarrow> ('c, 'v, 'p) step_instance \<Rightarrow> ('c checkpoint \<times> step_context) list \<Rightarrow>
     ('k, 'v) instances \<Rightarrow> ('k, 'v) instances" where
  "instance_steps now k raw [] w = w"
| "instance_steps now k raw ((payload, ctx) # calls) w =
     instance_steps now k raw calls (fst (snd (si_step (instrument now k raw) payload ctx w)))"

definition instance_job ::
    "('v \<Rightarrow> nat) \<Rightarrow> 'k \<Rightarrow> ('c, 'v, 'p) step_instance \<Rightarrow> step_context \<Rightarrow> ('c checkpoint \<times> step_context) list \<Rightarrow>
     payload_builder_error + 'p \<Rightarrow> ('k, 'v) instances \<Rightarrow> ('k, 'v) instances" where
  "instance_job now k raw ctx calls res w =
     (let w = fst (snd (si_before_job (instrument now k raw) ctx w));
          w = instance_steps now k raw calls w
      in fst (snd (si_after_job (instrument now k raw) ctx res w)))"

fun invoked_per_job :: "step_metric list \<Rightarrow> u32 list" where
  "invoked_per_job [] = []"
| "invoked_per_job (InvokedPerJob n # ms) = n # invoked_per_job ms"
| "invoked_per_job (_ # ms) = invoked_per_job ms"

lemma invoked_per_job_append [simp]:
  "invoked_per_job (xs @ ys) = invoked_per_job xs @ invoked_per_job ys"
  by (induction xs rule: invoked_per_job.induct) simp_all

definition counted :: "instance_state \<Rightarrow> u32 list \<Rightarrow> u32 \<Rightarrow> bool" where
  "counted st ns i \<longleftrightarrow>
     (\<exists>name log. in_metrics st = Some (name, log) \<and> invoked_per_job log = ns) \<and> pc_invoked (in_per_job st) = i"

lemma flow_metric_uncounted [simp]: "invoked_per_job [flow_metric r] = []"
  by (cases r) (simp_all add: flow_metric_def)

lemma counted_steps:
  "counted (fst w k) ns i \<Longrightarrow>
     counted (fst (instance_steps now k raw calls w) k) ns (i + of_nat (length calls))"
proof (induction calls arbitrary: w i)
  case (Cons call calls)
  obtain payload ctx where call: "call = (payload, ctx)" by (cases call)
  have "counted (fst (fst (snd (si_step (instrument now k raw) payload ctx w))) k) ns (i + 1)"
    using Cons.prems
    by (cases w)
      (auto simp: counted_def instrument_def instance_step_def Let_def increment_invocation_def
        increment_exec_time_def split: prod.splits)
  from Cons.IH [OF this] call show ?case by (simp add: algebra_simps)
qed simp

lemma counted_before:
  "counted (fst w k) ns i \<Longrightarrow>
     counted (fst (fst (snd (si_before_job (instrument now k raw) ctx w))) k) ns i"
  by (cases w)
    (auto simp: counted_def instrument_def instance_before_job_def Let_def increment_exec_time_def
      split: prod.splits)

lemma counted_after:
  "counted (fst w k) ns i \<Longrightarrow>
     counted (fst (fst (snd (si_after_job (instrument now k raw) ctx res w))) k) (ns @ [i + 1]) 0"
  by (cases w)
    (auto simp: counted_def instrument_def instance_after_job_def Let_def job_totals_def
      increment_exec_time_def increment_invocation_def step_counters_reset_def split: prod.splits)

text \<open>
  The histogram \<open>invoked_per_job\<close>, documented as the number of times \<open>step\<close> was invoked in a job,
  gets one more than that, since \<open>after_job\<close> counts as an invocation, and on top of it whatever
  an earlier job that never came to \<open>after_job\<close> has left: the counters are reset only there.
\<close>

lemma invocations_recorded:
  assumes "counted (fst w k) ns i"
  shows "counted (fst (instance_job now k raw ctx calls res w) k) (ns @ [i + of_nat (length calls) + 1]) 0"
  using counted_after [OF counted_steps [OF counted_before [OF assms]]] by (simp add: instance_job_def Let_def)

subsection \<open>Setup of a pipeline\<close>

definition fresh_instance :: "instance_state \<Rightarrow> bool" where
  "fresh_instance st \<longleftrightarrow> nm_metrics (in_name st) = None \<and> in_metrics st = None"

definition instance_at :: "('k, 'l) pipeline \<Rightarrow> step_path \<Rightarrow> 'k option" where
  "instance_at p path = nav_instance (nav_at p path)"

lemma init_metrics_fresh:
  "fresh_instance st \<Longrightarrow> \<exists>st'. init_metrics name st = Some st' \<and> in_metrics st' = Some (name, [])"
  by (simp add: fresh_instance_def init_metrics_def name_init_metrics_def)

lemma setup_steps_ok:
  assumes "\<forall>path \<in> set paths. valid_path p path" "distinct (map (instance_at p) paths)"
    and "\<forall>path \<in> set paths. \<forall>k. instance_at p path = Some k \<longrightarrow> fresh_instance (m k)"
  shows "\<exists>m' v' r. setup_steps provider setup_fn name p paths (m, v) = Some ((m', v'), r) \<and>
    (\<forall>k. Some k \<notin> instance_at p ` set paths \<longrightarrow> m' k = m k) \<and>
    (r = Inr () \<longrightarrow> (\<forall>path \<in> set paths. \<forall>k. instance_at p path = Some k \<longrightarrow>
       in_metrics (m' k) = Some (metrics_scope_of name path, [])))"
  using assms
proof (induction paths arbitrary: m v)
  case (Cons path paths)
  from navigator_valid [of p path] Cons.prems(1) obtain k where
    nav: "navigator path p = Some (Some (nav_at p path))" "nav_instance (nav_at p path) = Some k"
    by auto
  then have at: "instance_at p path = Some k" by (simp add: instance_at_def)
  with init_metrics_fresh Cons.prems(3) obtain st where
    st: "init_metrics (metrics_scope_of name path) (m k) = Some st" "in_metrics st = Some (metrics_scope_of name path, [])"
    by (metis list.set_intros(1))
  obtain v1 r1 where su: "setup_fn k \<lparr>ic_provider = provider, ic_metrics_scope = metrics_scope_of name path\<rparr> v = (v1, r1)"
    by (metis surj_pair)
  have new: "instance_at p q \<noteq> Some k" if "q \<in> set paths" for q
    using Cons.prems(2) at that by (metis distinct.simps(2) image_eqI list.set_map list.simps(9))
  show ?case
  proof (cases r1)
    case (Inl e)
    with nav st su at show ?thesis by (auto simp: Let_def nav_at_def)
  next
    case (Inr u)
    have "\<exists>m' v' r. setup_steps provider setup_fn name p paths (m(k := st), v1) = Some ((m', v'), r) \<and>
        (\<forall>j. Some j \<notin> instance_at p ` set paths \<longrightarrow> m' j = (m(k := st)) j) \<and>
        (r = Inr () \<longrightarrow> (\<forall>path \<in> set paths. \<forall>k. instance_at p path = Some k \<longrightarrow>
           in_metrics (m' k) = Some (metrics_scope_of name path, [])))"
      using Cons.prems new by (intro Cons.IH) auto
    then obtain m' v' r where rec: "setup_steps provider setup_fn name p paths (m(k := st), v1) = Some ((m', v'), r)"
        "\<And>j. Some j \<notin> instance_at p ` set paths \<Longrightarrow> m' j = (m(k := st)) j"
        "r = Inr () \<Longrightarrow> \<forall>path \<in> set paths. \<forall>k. instance_at p path = Some k \<longrightarrow>
           in_metrics (m' k) = Some (metrics_scope_of name path, [])"
      by blast
    have "m' k = st" using rec(2) [of k] new by force
    moreover have "m' j = m j" if "Some j \<notin> instance_at p ` set (path # paths)" for j
      using rec(2) [of j] that at by force
    moreover have "setup_steps provider setup_fn name p (path # paths) (m, v) = Some ((m', v'), r)"
      using nav st su Inr rec(1) by (simp add: Let_def nav_at_def)
    ultimately show ?thesis using rec(3) st(2) at by auto
  qed
qed simp

lemma metrics_scope_inject:
  assumes "path \<noteq> []" "path' \<noteq> []" "metrics_scope_of name path = metrics_scope_of name path'"
  shows "path = path'"
proof -
  from assms(3) have "path_text path = path_text path'" by (simp add: metrics_scope_of_def)
  then show ?thesis using read_path_text [OF assms(1)] read_path_text [OF assms(2)] by metis
qed

text \<open>
  Claim C33: setting up a pipeline never panics and gives every step its own metrics. For a pipeline
  of different, newly created instances the loop of the service builder initializes the steps in
  the order of the iterator, and when no \<open>setup\<close> fails, every step has a metrics set of its own:
  no two of them have the same scope.
\<close>

theorem setup_names_every_step:
  assumes "small_pipeline p" "distinct (map (instance_at p) (iter_steps p))" "\<forall>k. fresh_instance (m k)"
  shows "\<exists>m' v' r. setup_steps provider setup_fn name p (iter_steps p) (m, v) = Some ((m', v'), r) \<and>
    (r = Inr () \<longrightarrow>
       (\<forall>path. valid_path p path \<longrightarrow> (\<exists>k. instance_at p path = Some k \<and>
          in_metrics (m' k) = Some (metrics_scope_of name path, []))) \<and>
       (\<forall>path path'. valid_path p path \<longrightarrow> valid_path p path' \<longrightarrow>
          metrics_scope_of name path = metrics_scope_of name path' \<longrightarrow> path = path'))"
proof -
  have valid: "set (iter_steps p) = {path. valid_path p path}"
    using assms(1) by (auto simp: iter_steps_all_paths valid_path_iff)
  obtain m' v' r where ok: "setup_steps provider setup_fn name p (iter_steps p) (m, v) = Some ((m', v'), r)"
    "r = Inr () \<longrightarrow> (\<forall>path \<in> set (iter_steps p). \<forall>k. instance_at p path = Some k \<longrightarrow>
       in_metrics (m' k) = Some (metrics_scope_of name path, []))"
    using setup_steps_ok [of "iter_steps p" p m provider setup_fn name v] assms valid by blast
  have "\<exists>k. instance_at p path = Some k" if "valid_path p path" for path
    using navigator_valid(2) [OF that] by (simp add: instance_at_def)
  moreover have "path \<noteq> []" if "valid_path p path" for path using that by auto
  ultimately show ?thesis
    using ok valid metrics_scope_inject by (metis mem_Collect_eq)
qed

definition sample_instance :: instance_state where
  "sample_instance =
     \<lparr>in_name = \<lparr>nm_pretty = ''Foo'', nm_metrics = None\<rparr>, in_metrics = None, in_per_job = step_counters_default\<rparr>"

theorem setup_names_every_step_witness:
  "\<exists>m'. setup_steps (\<lambda>h. Inl ''none'') (\<lambda>k ctx v. (v + 1, Inr ())) ''sample'' sample_pipeline
       (iter_steps sample_pipeline) (\<lambda>k. sample_instance, 0 :: nat) = Some ((m', 5), Inr ()) \<and>
     in_metrics (m' 4) = Some (''sample_step_2_e'', [])"
proof -
  let ?m = "\<lambda>k :: nat. sample_instance" and ?p = "sample_pipeline"
  have iter: "iter_steps ?p = [[0], [1], [2, 1], [2, 2], [2, EPILOGUE_INDEX]]"
    by (simp add: iter_steps_all_paths sample_pipeline_defs sp_prologue_def sp_epilogue_def sp_step_def
        STEP0_INDEX_def PROLOGUE_INDEX_def)
  have at: "instance_at ?p [0] = Some 0" "instance_at ?p [1] = Some 1" "instance_at ?p [2, 1] = Some 2"
    "instance_at ?p [2, 2] = Some 3" "instance_at ?p [2, EPILOGUE_INDEX] = Some 4"
    by (simp_all add: instance_at_def sample_pipeline_defs nav_instance_def nav_at_def sp_leaf_def
        nav_pipeline_def index_defs list_get_def)
  have fresh: "\<forall>k. fresh_instance (?m k)" by (simp add: sample_instance_def fresh_instance_def)
  have all_ok: "setup_steps prov (\<lambda>k ctx v. (v + 1, Inr ())) name p paths (m, v :: nat) = Some (w, r) \<Longrightarrow>
      r = Inr () \<and> snd w = v + length paths" for prov name and p :: "(nat, nat) pipeline" and paths m v w r
    by (induction paths arbitrary: m v) (auto simp: Let_def split: option.splits)
  have "valid_path ?p [2, EPILOGUE_INDEX]" by (simp add: sample_pipeline_defs index_defs)
  moreover have "metrics_scope_of ''sample'' [2, EPILOGUE_INDEX] = ''sample_step_2_e''"
    by (simp add: metrics_scope_of_def index_text_def decimal.simps char_of_def bit_0 PROLOGUE_INDEX_def EPILOGUE_INDEX_def)
  moreover have d: "distinct (map (instance_at ?p) (iter_steps ?p))" by (simp add: iter at del: One_nat_def)
  obtain m' v' r where w: "setup_steps (\<lambda>h. Inl ''none'') (\<lambda>k ctx v. (v + 1, Inr ())) ''sample'' ?p
       (iter_steps ?p) (?m, 0 :: nat) = Some ((m', v'), r)"
    "r = Inr () \<Longrightarrow> \<forall>path. valid_path ?p path \<longrightarrow> (\<exists>k. instance_at ?p path = Some k \<and>
          in_metrics (m' k) = Some (metrics_scope_of ''sample'' path, []))"
    using setup_names_every_step [OF sample_pipeline_small d fresh, of "\<lambda>h. Inl ''none''" "\<lambda>k ctx v. (v + 1, Inr ())" "''sample''" "0 :: nat"]
    by blast
  ultimately show ?thesis using all_ok [OF w(1)] at(5) iter by fastforce
qed

end
