(* ===== verification/Composition.thy ===== *)
theory Composition
  imports Append Step_Instances
begin

section \<open>From the steps to the payload\<close>

text \<open>
  What the steps of a pipeline keep of a checkpoint holds of the payload of a job. The executor
  passes the output of each step to the next (Executor), the scopes keep the gas limit of every
  step within that of the platform (Scope), and the payload is built from the last checkpoint.
  The invariant is instantiated for pipelines of \<open>AppendOrders\<close> steps (Append) inside their
  \<open>StepInstance\<close>s (Step\_Instances). The world of the executor is arbitrary: a step reads and
  replaces its own part of it.
\<close>

subsection \<open>Steps that keep an invariant\<close>

definition flow_sat :: "('c checkpoint \<Rightarrow> bool) \<Rightarrow> 'c control_flow \<Rightarrow> bool" where
  "flow_sat I fl = (case fl of Fail e \<Rightarrow> True | Break cp \<Rightarrow> I cp | Ok cp \<Rightarrow> I cp)"

text \<open>The contexts of the steps of a job: the job's block, and no more gas than the platform's limit.\<close>

definition job_context :: "block_context \<Rightarrow> limits \<Rightarrow> step_context \<Rightarrow> bool" where
  "job_context block pl ctx \<longleftrightarrow> ctx_block ctx = block \<and> gas_limit (ctx_limits ctx) \<le> gas_limit pl"

definition step_keeps ::
    "(step_context \<Rightarrow> bool) \<Rightarrow> ('c checkpoint \<Rightarrow> bool) \<Rightarrow> ('c, 'w, 'p) step_instance \<Rightarrow> bool" where
  "step_keeps C I inst \<longleftrightarrow>
     (\<forall>cp ctx w. C ctx \<longrightarrow> I cp \<longrightarrow> flow_sat I (snd (snd (si_step inst cp ctx w))))"

definition job_keeps :: "('c checkpoint \<Rightarrow> bool) \<Rightarrow> ('c, 'w, 'p) exec_env \<Rightarrow> bool" where
  "job_keeps I env \<longleftrightarrow>
     (\<forall>w. I (snd (env_start env w))) \<and>
     (\<forall>inst \<in> set1_pipeline (env_pipeline env).
        step_keeps (job_context (env_block env) (env_limits env (env_block env))) I inst)"

definition built_from :: "('c checkpoint \<Rightarrow> bool) \<Rightarrow> ('c, 'w, 'p) exec_env \<Rightarrow> 'p pipeline_output \<Rightarrow> bool" where
  "built_from I env out \<longleftrightarrow> (\<forall>p. out = Inr p \<longrightarrow> (\<exists>q. I q \<and> env_build env q = Inr p))"

lemma built_from_simps [simp]:
  "built_from I env (Inl e)"
  "I q \<Longrightarrow> built_from I env (env_build env q)"
  "built_from I env (map_err f out) = built_from I env out"
  by (cases out; auto simp: built_from_def)+

text \<open>The step at a path is one of the pipeline.\<close>

lemma anc_chain_subset:
  "valid_path p path \<Longrightarrow> q \<in> set (anc_chain p path) \<Longrightarrow> set1_pipeline q \<subseteq> set1_pipeline p"
proof (induction p path rule: anc_chain.induct)
  case (3 p l l' rest)
  then obtain b t where t: "l - 1 < length (steps p)" "steps p ! (l - 1) = Nested b t" "valid_path t (l' # rest)"
    by (auto split: if_splits step_or_pipeline.splits)
  have "set1_pipeline t \<subseteq> set1_pipeline p"
    using nth_mem [OF t(1)] t(2) by (cases p) fastforce
  with 3 t show ?case by auto
qed auto

lemma nav_instance_mem:
  assumes "valid_path p path" "nav_instance (nav_at p path) = Some inst"
  shows "inst \<in> set1_pipeline p"
proof -
  let ?q = "last (anc_chain p path)"
  have "inst \<in> set1_pipeline ?q"
    using assms(2)
    by (cases ?q) (auto simp: nav_instance_def nav_at_def nav_pipeline_def list_get_def
        split: option.splits if_splits step_or_pipeline.splits dest!: nth_mem, force)
  with anc_chain_subset [OF assms(1), of ?q] show ?thesis by auto
qed

text \<open>The context of a step in an entered scope.\<close>

lemma step_and_ctx_in_job:
  assumes "entered_ok env rs" "valid_path (env_pipeline env) path"
    and "step_and_ctx env rs path t = Some (inst, ctx)"
  shows "inst \<in> set1_pipeline (env_pipeline env)"
    and "job_context (env_block env) (env_limits env (env_block env)) ctx"
proof -
  from step_and_ctx_Some [OF entered_has_limits [OF assms(1)] assms(2), of t] assms(3)
  have ni: "nav_instance (nav_at (env_pipeline env) path) = Some inst"
    and lim: "limits_of rs path = Some (ctx_limits ctx)" by auto
  from nav_instance_mem [OF assms(2) ni] show "inst \<in> set1_pipeline (env_pipeline env)" .
  from assms(3) have "ctx_block ctx = env_block env" by (auto simp: step_and_ctx_def split: option.splits)
  moreover from lim obtain q e where "own (rs_root rs) q = Some (ctx_limits ctx, e)"
    by (auto simp: limits_of_def own_def Option.bind_eq_Some_conv split: option.splits)
  with assms(1) have "gas_limit (ctx_limits ctx) \<le> gas_limit (env_limits env (env_block env))"
    by (auto simp: entered_ok_def scopes_ok_def gas_below_def)
  ultimately show "job_context (env_block env) (env_limits env (env_block env)) ctx"
    by (simp add: job_context_def)
qed

subsection \<open>The invariant of a job\<close>

text \<open>A future whose result, if it ends without a panic, satisfies \<open>Q\<close>.\<close>

definition fut_may :: "('a \<Rightarrow> bool) \<Rightarrow> ('w, 'a) fut \<Rightarrow> 'w \<Rightarrow> bool" where
  "fut_may Q f w =
     (case f of
        NotPolled g \<Rightarrow> pred_option (\<lambda>(w', a). Q a) (snd (g w))
      | Waiting n r \<Rightarrow> pred_option (\<lambda>(w', a). Q a) r
      | Completed \<Rightarrow> True)"

lemma poll_fut_may:
  assumes "fut_may Q f w"
  shows "poll_fut f w = Pending f' \<Longrightarrow> fut_may Q f' w" and "poll_fut f w = Ready w' a \<Longrightarrow> Q a"
proof -
  have "(\<forall>f'. poll_fut f w = Pending f' \<longrightarrow> fut_may Q f' w) \<and> (\<forall>w' a. poll_fut f w = Ready w' a \<longrightarrow> Q a)"
    using assms
    by (cases "(f, w)" rule: poll_fut.cases) (auto simp: fut_may_def split: prod.splits nat.splits option.splits)
  then show "poll_fut f w = Pending f' \<Longrightarrow> fut_may Q f' w" and "poll_fut f w = Ready w' a \<Longrightarrow> Q a" by auto
qed

lemma run_before_jobs_result:
  "run_before_jobs env paths cp sh = (n, Some (sh', r)) \<Longrightarrow> r = Inr cp \<or> (\<exists>e. r = Inl e)"
proof (induction paths arbitrary: sh n)
  case Nil
  then show ?case by (cases sh) simp
next
  case (Cons path paths)
  from Cons.prems show ?case
    by (cases sh) (auto split: option.splits prod.splits sum.splits dest: Cons.IH)
qed

lemma run_after_jobs_result:
  "run_after_jobs env paths out sh = (n, Some (sh', r)) \<Longrightarrow> r = out \<or> (\<exists>e. r = Inl e)"
proof (induction paths arbitrary: sh n)
  case Nil
  then show ?case by (cases sh) (auto simp: Option.bind_eq_Some_conv split: if_splits)
next
  case (Cons path paths)
  from Cons.prems show ?case
    by (cases sh) (auto split: option.splits prod.splits sum.splits dest: Cons.IH)
qed

lemma finalize_may:
  assumes "built_from I env out"
  shows "fut_may (built_from I env) (finalize env out) sh"
proof (cases "run_after_jobs env (iter_steps (env_pipeline env)) (map_err clone_payload_error_lossy out) sh")
  case (Pair n r)
  with assms show ?thesis
    by (cases r) (auto simp: finalize_def fut_may_def dest!: run_after_jobs_result)
qed

definition cursor_sat ::
    "('c checkpoint \<Rightarrow> bool) \<Rightarrow> ('c, 'w, 'p) exec_env \<Rightarrow> ('c, 'w, 'p) executor \<Rightarrow> bool" where
  "cursor_sat I env ex =
     (case ex_cursor ex of
        BeforeStep path cp \<Rightarrow> I cp
      | StepInProgress path f \<Rightarrow> fut_may (flow_sat I) f (ex_shared ex)
      | Initializing f \<Rightarrow> fut_may (case_sum (\<lambda>e. True) I) f (ex_shared ex)
      | Finalizing f \<Rightarrow> fut_may (built_from I env) f (ex_shared ex)
      | PreparingStep \<Rightarrow> True)"

lemma executor_run_sat:
  assumes "job_keeps I env"
  shows "cursor_sat I env (executor_run env w)"
proof -
  obtain w' cp where st: "env_start env w = (w', cp)" by (cases "env_start env w")
  have "I cp" using assms st unfolding job_keeps_def by (metis snd_conv)
  moreover obtain n r where "run_before_jobs env (iter_steps (env_pipeline env)) cp
      (w', root_scope_new (env_limits env) (env_pipeline env) cp) = (n, r)" by fastforce
  ultimately show ?thesis
    by (cases r) (auto simp: executor_run_def st cursor_sat_def fut_may_def dest!: run_before_jobs_result)
qed

lemma first_step_sat:
  assumes "job_keeps I env" "I cp" "first_step env cp sh = Some (c, sh')"
  shows "cursor_sat I env (ex\<lparr>ex_cursor := c, ex_shared := sh'\<rparr>)"
proof -
  have "I (snd (env_start env w))" for w using assms(1) by (simp add: job_keeps_def)
  then have "env_start env w = (w', cp0) \<Longrightarrow> fut_may (built_from I env) (finalize env (env_build env cp0)) s" for w w' cp0 s
    by (metis snd_conv finalize_may built_from_simps(2))
  with assms(2,3) show ?thesis
    by (cases sh) (auto simp: first_step_def cursor_sat_def split: option.splits prod.splits) 
qed

lemma advance_to_sat:
  assumes "I cp" "advance_to env nx cp sh = Some (c, sh')"
  shows "cursor_sat I env (ex\<lparr>ex_cursor := c, ex_shared := sh'\<rparr>)"
  using assms finalize_may [of I env "env_build env cp"]
  by (cases sh) (auto simp: advance_to_def cursor_sat_def split: option.splits)

lemma advance_cursor_sat:
  assumes "flow_sat I out" "advance_cursor env path out sh = Some (c, sh')"
  shows "cursor_sat I env (ex\<lparr>ex_cursor := c, ex_shared := sh'\<rparr>)"
proof (cases out)
  case (Fail e)
  with assms(2) show ?thesis
    by (auto simp: advance_cursor_def cursor_sat_def finalize_may split: option.splits)
next
  case (Break cp)
  with assms show ?thesis
    by (auto simp: advance_cursor_def flow_sat_def split: option.splits intro: advance_to_sat)
next
  case (Ok cp)
  with assms show ?thesis
    by (auto simp: advance_cursor_def flow_sat_def split: option.splits intro: advance_to_sat)
qed

lemma poll_initializing_sat:
  assumes "job_keeps I env" "cursor_sat I env ex" "poll_initializing env ex = Some ex'"
  shows "cursor_sat I env ex'"
proof (cases "ex_cursor ex")
  case (Initializing f)
  with assms(2) have sat: "fut_may (case_sum (\<lambda>e. True) I) f (ex_shared ex)" by (simp add: cursor_sat_def)
  show ?thesis
  proof (cases "poll_fut f (ex_shared ex)")
    case (Pending f')
    with Initializing assms(3) poll_fut_may(1) [OF sat] show ?thesis
      by (auto simp: poll_initializing_def cursor_sat_def)
  next
    case (Ready sh r)
    with poll_fut_may(2) [OF sat] have r: "case_sum (\<lambda>e. True) I r" by blast
    show ?thesis
    proof (cases r)
      case (Inl e)
      with Initializing Ready assms(3) show ?thesis
        by (auto simp: poll_initializing_def cursor_sat_def finalize_may)
    next
      case (Inr cp)
      with Initializing Ready assms(3) r show ?thesis
        by (auto simp: poll_initializing_def intro: first_step_sat [OF assms(1)])
    qed
  qed (use Initializing assms(3) in \<open>simp add: poll_initializing_def\<close>)
qed (use assms in \<open>simp_all add: poll_initializing_def\<close>)

lemma poll_finalizing_sat:
  assumes "cursor_sat I env ex"
  shows "poll_finalizing env ex = PollPending ex' \<Longrightarrow> cursor_sat I env ex'"
    and "poll_finalizing env ex = PollReady out ex' \<Longrightarrow> built_from I env out"
proof -
  have "(\<forall>ex'. poll_finalizing env ex = PollPending ex' \<longrightarrow> cursor_sat I env ex') \<and>
      (\<forall>out ex'. poll_finalizing env ex = PollReady out ex' \<longrightarrow> built_from I env out)"
  proof (cases "ex_cursor ex")
    case (Finalizing f)
    with assms have sat: "fut_may (built_from I env) f (ex_shared ex)" by (simp add: cursor_sat_def)
    from poll_fut_may [OF sat] Finalizing show ?thesis
      by (cases "poll_fut f (ex_shared ex)")
        (auto simp: poll_finalizing_def cursor_sat_def split: option.splits)
  qed (use assms in \<open>simp_all add: poll_finalizing_def\<close>)
  then show "poll_finalizing env ex = PollPending ex' \<Longrightarrow> cursor_sat I env ex'"
    and "poll_finalizing env ex = PollReady out ex' \<Longrightarrow> built_from I env out" by auto
qed

lemma poll_before_step_sat:
  assumes "job_keeps I env" "exec_inv env ex" "cursor_sat I env ex" "poll_before_step env ex = Some ex'"
  shows "cursor_sat I env ex'"
proof (cases "ex_cursor ex")
  case (BeforeStep path cp)
  with assms(2,3) have v: "valid_path (env_pipeline env) path" "entered_ok env (snd (ex_shared ex))" and "I cp"
    by (simp_all add: exec_inv_def cursor_sat_def)
  let ?t = "scope_entered_at (snd (ex_shared ex)) path"
  from BeforeStep assms(4) obtain inst ctx where
    s: "step_and_ctx env (snd (ex_shared ex)) path ?t = Some (inst, ctx)"
    by (auto simp: poll_before_step_def execute_step_def)
  from step_and_ctx_in_job [OF v(2,1) s] assms(1) \<open>I cp\<close>
  have "flow_sat I (snd (snd (si_step inst cp ctx w)))" for w
    by (auto simp: job_keeps_def step_keeps_def)
  then have "fut_may (flow_sat I) (NotPolled (\<lambda>(w, rs'). case si_step inst cp ctx w of
      (n, w', fl) \<Rightarrow> (n, Some ((w', rs'), fl)))) (ex_shared ex)"
    by (cases "ex_shared ex") (simp add: fut_may_def split_beta)
  with BeforeStep s assms(4) show ?thesis
    by (auto simp: poll_before_step_def execute_step_def cursor_sat_def)
qed (use assms in \<open>simp_all add: poll_before_step_def\<close>)

lemma poll_step_in_progress_sat:
  assumes "cursor_sat I env ex" "poll_step_in_progress env ex = Some ex'"
  shows "cursor_sat I env ex'"
proof (cases "ex_cursor ex")
  case (StepInProgress path f)
  with assms(1) have sat: "fut_may (flow_sat I) f (ex_shared ex)" by (simp add: cursor_sat_def)
  show ?thesis
  proof (cases "poll_fut f (ex_shared ex)")
    case (Pending f')
    with StepInProgress assms(2) poll_fut_may(1) [OF sat] show ?thesis
      by (auto simp: poll_step_in_progress_def cursor_sat_def)
  next
    case (Ready sh fl)
    with StepInProgress assms(2) poll_fut_may(2) [OF sat] show ?thesis
      by (auto simp: poll_step_in_progress_def intro: advance_cursor_sat)
  qed (use StepInProgress assms(2) in \<open>simp add: poll_step_in_progress_def\<close>)
qed (use assms in \<open>simp_all add: poll_step_in_progress_def\<close>)

lemma poll_executor_sat:
  assumes "env_wf env" "job_keeps I env" "exec_inv env ex" "cursor_sat I env ex"
  shows "poll_executor env ex = PollPending ex' \<Longrightarrow> cursor_sat I env ex'"
    and "poll_executor env ex = PollReady out ex' \<Longrightarrow> built_from I env out"
proof -
  from poll_initializing_inv [OF assms(1,3)] obtain ex1 where
    ex1: "poll_initializing env ex = Some ex1" "exec_inv env ex1" by blast
  note sat1 = poll_initializing_sat [OF assms(2,4) ex1(1)]
  show "poll_executor env ex = PollReady out ex' \<Longrightarrow> built_from I env out"
    using ex1 poll_finalizing_sat(2) [OF sat1]
    by (auto simp: poll_executor_def split: poll_result.splits option.splits)
  assume "poll_executor env ex = PollPending ex'"
  with ex1 obtain ex2 ex3 where ex3: "poll_finalizing env ex1 = PollPending ex2"
    "poll_before_step env ex2 = Some ex3" "poll_step_in_progress env ex3 = Some ex'"
    by (auto simp: poll_executor_def split: poll_result.splits option.splits)
  from poll_finalizing_inv [OF ex1(2)] ex3(1) have "exec_inv env ex2" by simp
  from poll_step_in_progress_sat
    [OF poll_before_step_sat [OF assms(2) this poll_finalizing_sat(1) [OF sat1 ex3(1)] ex3(2)] ex3(3)]
  show "cursor_sat I env ex'" .
qed

lemma exec_reach_sat:
  "exec_reach env w ex \<Longrightarrow> env_wf env \<Longrightarrow> job_keeps I env \<Longrightarrow> cursor_sat I env ex"
proof (induction rule: exec_reach.induct)
  case (reach_poll ex ex')
  show ?case
    using poll_executor_sat(1) [OF reach_poll.prems exec_reach_inv [OF reach_poll.hyps(1) reach_poll.prems(1)]
        reach_poll.IH [OF reach_poll.prems] reach_poll.hyps(2)] .
qed (simp add: executor_run_sat)

lemma job_payload_built_from:
  assumes "env_wf env" "job_keeps I env" "exec_reach env w ex" "poll_executor env ex = PollReady (Inr p) ex'"
  shows "\<exists>q. I q \<and> env_build env q = Inr p"
  using poll_executor_sat(2) [OF assms(1,2) exec_reach_inv [OF assms(3,1)] exec_reach_sat [OF assms(3,1,2)] assms(4)]
  by (simp add: built_from_def)

subsection \<open>Jobs that append orders\<close>

text \<open>
  The instance of an \<open>AppendOrders\<close> step. Its state is the part of the world that \<open>get\<close> reads and
  \<open>put\<close> replaces. The order pool is shared: \<open>pool\<close> is what it holds in a world, read anew at each run.
  None of the step's methods awaits anything.
\<close>

definition append_instance ::
    "(bytes \<Rightarrow> b256) \<Rightarrow> u64 \<Rightarrow> ('w \<Rightarrow> nat \<times> 'w) \<Rightarrow> ('c, 'w) heap \<Rightarrow> 'n pool_ops \<Rightarrow> ('v \<Rightarrow> 'n order_pool) \<Rightarrow>
     ('v \<Rightarrow> 'w append_state) \<Rightarrow> ('w append_state \<Rightarrow> 'v \<Rightarrow> 'v) \<Rightarrow> append_orders \<Rightarrow> ('c, 'v, 'p) step_instance" where
  "append_instance keccak min_gas clock heap ops pool get put st =
     \<lparr>si_step = (\<lambda>cp ctx v.
        case append_step keccak min_gas clock heap ops (pool v) st cp ctx (get v) of (cf, s) \<Rightarrow> (0, put s v, cf)),
      si_before_job = (\<lambda>ctx v. (0, put (append_before_job (get v)) v, Inr ())),
      si_after_job = (\<lambda>ctx out v. (0, put (append_after_job (get v)) v, Inr ()))\<rparr>"

text \<open>What a job that only appends keeps of its payload.\<close>

definition sound_payload :: "limits \<Rightarrow> 'c checkpoint \<Rightarrow> bool" where
  "sound_payload pl cp \<longleftrightarrow>
     coherent_cp cp \<and> cumulative_gas_used cp \<le> gas_limit pl \<and>
     distinct (map tx_hash (payload_transactions cp))"

lemma append_instance_keeps:
  assumes "fresh_heap heap"
    and "\<forall>v. \<forall>ord \<in> set (best_orders_for_block ops block (pool v)). distinct (map tx_hash (order_transactions ord))"
  shows "step_keeps (job_context block pl) (sound_payload pl)
    (append_instance keccak min_gas clock heap ops pool get put st)"
proof -
  have "flow_sat (sound_payload pl) cf"
    if "job_context block pl ctx" "sound_payload pl cp"
      and step: "append_step keccak min_gas clock heap ops (pool v) st cp ctx s = (cf, s')" for ctx cp s cf s' v
  proof -
    from that have ctx: "ctx_block ctx = block" "gas_limit (ctx_limits ctx) \<le> gas_limit pl" and
      cp: "coherent_cp cp" "cumulative_gas_used cp \<le> gas_limit pl" "distinct (map tx_hash (payload_transactions cp))"
      by (simp_all add: job_context_def sound_payload_def)
    from step obtain r where
      r: "(include_step min_gas heap st ctx (set (best_orders_for_block ops block (pool v))))\<^sup>*\<^sup>* (run_new st ctx cp) r"
      and cf: "cf = run_end st r" unfolding ctx(1) [symmetric] by (rule append_step_run)
    from run_invariant [OF r assms(1) cp(1)] obtain es where "appended ctx cp r es" by blast
    then have "coherent_cp (rn_payload r)" "cumulative_gas_used (rn_payload r) \<le> gas_limit pl"
      using ctx(2) cp(2) by (auto simp: appended_def)
    with run_invariant_distinct [OF r assms(1) cp(1) spec [OF assms(2)] cp(3)] show ?thesis
      by (simp add: cf run_end_def flow_sat_def sound_payload_def)
  qed
  then show ?thesis by (simp add: step_keeps_def append_instance_def split: prod.split)
qed

text \<open>The bookkeeping of an instance keeps what its step keeps.\<close>

lemma instrument_keeps: "step_keeps C I raw \<Longrightarrow> step_keeps C I (instrument now k raw)"
  by (simp add: step_keeps_def instrument_def instance_step_def Let_def split_beta)

lemma sound_payload_start: "sound_payload pl (new_with_context addr now b c)"
proof -
  let ?cp = "new_with_context addr now b c"
  have "history ?cp = [?cp]"
    using history_eq [OF coherent_cp_new] by (simp add: new_with_context_def)
  then show ?thesis
    by (simp add: sound_payload_def coherent_cp_new cumulative_gas_used_def payload_transactions_def
        span_gas_used_def gas_used_def cp_result_def span_transactions_def cp_transactions_def)
qed

lemma append_job_keeps:
  assumes "fresh_heap heap" "\<forall>w. \<exists>addr now c. snd (env_start env w) = new_with_context addr now (env_block env) c"
    and "\<forall>v. \<forall>ord \<in> set (best_orders_for_block ops (env_block env) (pool v)). distinct (map tx_hash (order_transactions ord))"
    and "\<forall>inst \<in> set1_pipeline (env_pipeline env). \<exists>now k get put st.
      inst = instrument now k (append_instance keccak min_gas clock heap ops pool get put st)"
  shows "job_keeps (sound_payload (env_limits env (env_block env))) env"
proof -
  have "sound_payload (env_limits env (env_block env)) (snd (env_start env w))" for w
    using assms(2) sound_payload_start by metis
  moreover have "step_keeps (job_context (env_block env) pl) (sound_payload pl) inst"
    if "inst \<in> set1_pipeline (env_pipeline env)" for inst pl
  proof -
    from assms(4) that obtain now k get put st where
      "inst = instrument now k (append_instance keccak min_gas clock heap ops pool get put st)" by blast
    then show ?thesis by (simp add: instrument_keeps append_instance_keeps [OF assms(1,3)])
  qed
  ultimately show ?thesis by (simp add: job_keeps_def)
qed

text \<open>
  Claim C3: from the orders to the payload. When every step of a pipeline, however nested, is an
  \<open>AppendOrders\<close> inside its \<open>StepInstance\<close>, with any options and any limits of the nested scopes, the
  job starts on an empty payload, and no order the pool offers in the course of the job has the same
  transaction twice, the payload the job returns is built from a checkpoint whose gas is within the
  platform's limit for the block and that has no transaction twice. The pool may change between the
  runs of the steps.
\<close>

theorem append_job_payload_sound:
  assumes "env_wf env" "fresh_heap heap"
    and "\<forall>w. \<exists>addr now c. snd (env_start env w) = new_with_context addr now (env_block env) c"
    and "\<forall>v. \<forall>ord \<in> set (best_orders_for_block ops (env_block env) (pool v)). distinct (map tx_hash (order_transactions ord))"
    and "\<forall>inst \<in> set1_pipeline (env_pipeline env). \<exists>now k get put st.
      inst = instrument now k (append_instance keccak min_gas clock heap ops pool get put st)"
    and "exec_reach env w ex" "poll_executor env ex = PollReady (Inr p) ex'"
  shows "\<exists>q. env_build env q = Inr p \<and> coherent_cp q \<and>
    cumulative_gas_used q \<le> gas_limit (env_limits env (env_block env)) \<and>
    distinct (map tx_hash (payload_transactions q))"
  using job_payload_built_from [OF assms(1) append_job_keeps [OF assms(2-5)] assms(6,7)]
  by (auto simp: sound_payload_def)

text \<open>A job with one \<open>AppendOrders\<close>, and one transaction in the pool.\<close>

definition sample_append_job :: "(unit, (unit, nat append_state) instances, nat) exec_env" where
  "sample_append_job =
     \<lparr>env_pipeline = single (instrument (\<lambda>v. 0) () (append_instance (\<lambda>bs. 9) 21000 (\<lambda>w. (w, w)) bump_heap
        sample_ops (\<lambda>v. sample_tx_pool) (\<lambda>v. v) (\<lambda>s v. s) from_pool)) ''append'',
      env_block = sample_block, env_limits = (\<lambda>b. limits_with_gas EthExt 30000),
      env_start = (\<lambda>w. (w, sample_root)), env_build = (\<lambda>cp. Inr (depth cp)),
      env_payload = env_payload (sample_job (Inr ())),
      env_now = (\<lambda>w. 0), env_unix_secs = (\<lambda>w. 100), env_retained = (\<lambda>w. False)\<rparr>"

lemma sample_append_job_sel:
  "env_pipeline sample_append_job = single (instrument (\<lambda>v. 0) () (append_instance (\<lambda>bs. 9) 21000 (\<lambda>w. (w, w)) bump_heap
     sample_ops (\<lambda>v. sample_tx_pool) (\<lambda>v. v) (\<lambda>s v. s) from_pool)) ''append''"
  "env_block sample_append_job = sample_block"
  "env_limits sample_append_job b = limits_with_gas EthExt 30000" "env_start sample_append_job w = (w, sample_root)"
  "env_now sample_append_job w = 0" "env_build sample_append_job cp = Inr (depth cp)"
  by (simp_all add: sample_append_job_def)

lemma sample_append_job_wf: "env_wf sample_append_job"
  using single_paths(5,6)
  by (simp add: env_wf_def sample_append_job_def sample_job_def sample_env_def)

lemma sample_append_job_ready:
  "\<exists>ex ex'. exec_reach sample_append_job (\<lambda>k. the (instance_new ''AppendOrders''), sample_append_state) ex \<and>
     poll_executor sample_append_job ex = PollReady (Inr 1) ex'"
proof -
  let ?raw = "append_instance (\<lambda>bs. 9) 21000 (\<lambda>w. (w, w)) bump_heap
    sample_ops (\<lambda>v. sample_tx_pool) (\<lambda>v. v) (\<lambda>s v. s) from_pool :: (unit, nat append_state, nat) step_instance"
  let ?inst = "instrument (\<lambda>v. 0) () ?raw" and ?l = "limits_with_gas EthExt 30000"
  let ?ctx = "\<lambda>t. \<lparr>ctx_block = sample_block, ctx_limits = ?l, ctx_started_at = t\<rparr>"
  obtain s1 where s1: "append_before_job sample_append_state = s1" "ap_attempted s1 = []" "ap_world s1 = 20"
    by (simp add: append_before_job_def sample_append_state_def)
  have "ctx_limits (?ctx (Some 0)) = ?l" by simp
  from sample_append_run [OF this s1(2,3)] obtain s2 where
    s2: "append_step (\<lambda>bs. 9) 21000 (\<lambda>w. (w, w)) bump_heap sample_ops sample_tx_pool from_pool sample_root
      (?ctx (Some 0)) s1 = (Ok sample_appended, s2)" by blast
  obtain m1 where before: "si_before_job ?inst (?ctx None) (\<lambda>k. the (instance_new ''AppendOrders''), sample_append_state) = (0, (m1, s1), Inr ())"
    by (simp add: instrument_def instance_before_job_def append_instance_def s1(1) Let_def)
  obtain m2 where step: "si_step ?inst sample_root (?ctx (Some 0)) (m1, s1) = (0, (m2, s2), Ok sample_appended)"
    by (simp add: instrument_def instance_step_def append_instance_def s2 Let_def)
  obtain w3 where after: "si_after_job ?inst (?ctx None) (Inr (depth sample_appended)) (m2, s2) = (0, w3, Inr ())"
    by (simp add: instrument_def instance_after_job_def append_instance_def Let_def)
  have l: "clamp ?l ?l = ?l"
    by (simp add: clamp_def limits_with_gas_def)
  note sel = sample_append_job_sel
  have blk: "cp_block sample_root = env_block sample_append_job" by (simp add: sel)
  obtain ex ex' where "poll_executor sample_append_job
      (executor_run sample_append_job (\<lambda>k. the (instance_new ''AppendOrders''), sample_append_state)) = PollPending ex"
    "poll_executor sample_append_job ex = PollReady (Inr (depth sample_appended)) ex'"
    using single_step_job [OF sel(1) sample_append_job_wf sel(4) blk sel(3) l, unfolded sel, OF before step after]
    by blast
  moreover have "depth sample_appended = 1" by (simp add: apply_with_def sample_root_def)
  ultimately show ?thesis using reach_poll [OF reach_run] by metis
qed

theorem append_job_payload_sound_witness:
  "\<exists>ex ex' (q :: unit checkpoint). exec_reach sample_append_job (\<lambda>k. the (instance_new ''AppendOrders''), sample_append_state) ex \<and>
     poll_executor sample_append_job ex = PollReady (Inr 1) ex' \<and> depth q = 1 \<and>
     cumulative_gas_used q \<le> 30000 \<and> distinct (map tx_hash (payload_transactions q))"
proof -
  obtain ex ex' where ex: "exec_reach sample_append_job (\<lambda>k. the (instance_new ''AppendOrders''), sample_append_state) ex"
    "poll_executor sample_append_job ex = PollReady (Inr 1) ex'" using sample_append_job_ready by blast
  have "snd (env_start sample_append_job w) = new_with_context 1 10 (env_block sample_append_job) ()" for w
    by (simp add: sample_append_job_def) (simp add: sample_root_def)
  then have start: "\<forall>w. \<exists>addr now c. snd (env_start sample_append_job w) =
      new_with_context addr now (env_block sample_append_job) c" by blast
  have offer: "\<forall>v :: nat append_state. \<forall>ord \<in> set (best_orders_for_block sample_ops (env_block sample_append_job) sample_tx_pool).
      distinct (map tx_hash (order_transactions ord))" by (simp add: sample_offer)
  have insts: "\<forall>inst \<in> set1_pipeline (env_pipeline sample_append_job). \<exists>now k get put st.
      inst = instrument now k (append_instance (\<lambda>bs. 9) 21000 (\<lambda>w. (w, w)) bump_heap sample_ops (\<lambda>v. sample_tx_pool) get put st)"
    by (auto simp: sample_append_job_def)
  from append_job_payload_sound [OF sample_append_job_wf fresh_bump_heap start offer insts ex] obtain q :: "unit checkpoint" where
    "depth q = 1" "cumulative_gas_used q \<le> 30000" "distinct (map tx_hash (payload_transactions q))"
    by (auto simp: sample_append_job_sel limits_with_gas_def)
  with ex show ?thesis by blast
qed

end
