(* ===== verification/Priority_Pool.thy ===== *)
theory Priority_Pool
  imports Allocation
begin

section \<open>The prioritized order pool\<close>

text \<open>
  \<open>crates/pipeline/src/orderpool2\<close>: the pool of orders that are ready by their nonces, sorted by
  priority, and of orders that wait for a nonce (\<open>prioritized_pool/mod.rs\<close>).

  The traits \<open>OrderpoolOrder\<close> and \<open>PrioritizedOrderpoolPriority\<close> are a record of functions, a
  nonce source is a function that may fail. The crate \<open>priority_queue\<close> is a parameter: an
  implementation with what its documentation says of it, \<open>pq_laws\<close>. Hash maps are maps; the
  order in which a hash set is iterated is a parameter as well. \<open>None\<close> stands for a panic.
\<close>

subsection \<open>Nonces, orders and queues\<close>

record account_nonce =
  an_account :: address
  an_nonce :: u64

definition with_nonce :: "account_nonce \<Rightarrow> u64 \<Rightarrow> account_nonce" where
  "with_nonce an n = \<lparr>an_account = an_account an, an_nonce = n\<rparr>"

record bundle_nonce =
  bn_address :: address
  bn_nonce :: u64
  bn_optional :: bool

record ('o, 'id, 'p) orderpool_order =
  order_id :: "'o \<Rightarrow> 'id"
  order_nonces :: "'o \<Rightarrow> bundle_nonce list"
  order_priority :: "'o \<Rightarrow> 'p"

type_synonym 'e nonce_source = "address \<Rightarrow> 'e + u64"

record ('q, 'id, 'p) priority_queue =
  pq_new :: 'q
  pq_push :: "'id \<Rightarrow> 'p \<Rightarrow> 'q \<Rightarrow> 'q"
  pq_pop :: "'q \<Rightarrow> ('id \<times> 'p) option \<times> 'q"
  pq_remove :: "'id \<Rightarrow> 'q \<Rightarrow> ('id \<times> 'p) option \<times> 'q"
  pq_items :: "'q \<Rightarrow> 'id \<rightharpoonup> 'p"

text \<open>
  The documentation of \<open>priority_queue\<close>: \<open>push\<close> inserts an item or changes its priority, \<open>pop\<close>
  removes an item of greatest priority, \<open>remove\<close> removes a given item. \<open>pq_items\<close> is the content.
\<close>

definition pq_laws :: "('q, 'id, 'p::linorder) priority_queue \<Rightarrow> bool" where
  "pq_laws pq \<longleftrightarrow>
     pq_items pq (pq_new pq) = Map.empty \<and>
     (\<forall>i pr q. pq_items pq (pq_push pq i pr q) = (pq_items pq q)(i \<mapsto> pr)) \<and>
     (\<forall>i q. pq_items pq (snd (pq_remove pq i q)) = (pq_items pq q)(i := None) \<and>
        fst (pq_remove pq i q) = map_option (Pair i) (pq_items pq q i)) \<and>
     (\<forall>q q'. pq_pop pq q = (None, q') \<longrightarrow> pq_items pq q = Map.empty \<and> pq_items pq q' = Map.empty) \<and>
     (\<forall>q i pr q'. pq_pop pq q = (Some (i, pr), q') \<longrightarrow>
        pq_items pq q i = Some pr \<and> pq_items pq q' = (pq_items pq q)(i := None) \<and>
        (\<forall>j pr'. pq_items pq q j = Some pr' \<longrightarrow> pr' \<le> pr))"

subsection \<open>The pool\<close>

record ('q, 'id, 'o) prioritized_orderpool =
  main_queue :: 'q
  main_queue_nonces :: "address \<rightharpoonup> 'id list"
  onchain_nonces :: "address \<rightharpoonup> u64"
  pending_orders :: "account_nonce \<rightharpoonup> 'id list"
  pp_orders :: "'id \<rightharpoonup> 'o"

definition pp_default :: "('q, 'id, 'p) priority_queue \<Rightarrow> ('q, 'id, 'o) prioritized_orderpool" where
  "pp_default pq =
     \<lparr>main_queue = pq_new pq, main_queue_nonces = Map.empty, onchain_nonces = Map.empty,
      pending_orders = Map.empty, pp_orders = Map.empty\<rparr>"

definition remove_from_orders ::
    "'id \<Rightarrow> ('q, 'id, 'o) prioritized_orderpool \<Rightarrow> 'o option \<times> ('q, 'id, 'o) prioritized_orderpool" where
  "remove_from_orders i p = (pp_orders p i, p\<lparr>pp_orders := (pp_orders p)(i := None)\<rparr>)"

definition retain_not :: "'id \<Rightarrow> address \<Rightarrow> (address \<rightharpoonup> 'id list) \<Rightarrow> (address \<rightharpoonup> 'id list)" where
  "retain_not i a m = (case m a of Some ids \<Rightarrow> m(a \<mapsto> filter (\<lambda>j. j \<noteq> i) ids) | None \<Rightarrow> m)"

definition remove_popped_order ::
    "('o, 'id, 'p) orderpool_order \<Rightarrow> 'id \<Rightarrow> ('q, 'id, 'o) prioritized_orderpool \<Rightarrow>
     'o option \<times> ('q, 'id, 'o) prioritized_orderpool"
where
  "remove_popped_order oo i p =
     (case remove_from_orders i p of
        (None, p) \<Rightarrow> (None, p)
      | (Some ord, p) \<Rightarrow>
          (Some ord,
           p\<lparr>main_queue_nonces :=
               fold (\<lambda>bn. retain_not (order_id oo ord) (bn_address bn)) (order_nonces oo ord) (main_queue_nonces p)\<rparr>))"

definition pop_order ::
    "('q, 'id, 'p) priority_queue \<Rightarrow> ('o, 'id, 'p) orderpool_order \<Rightarrow>
     ('q, 'id, 'o) prioritized_orderpool \<Rightarrow> ('o option \<times> ('q, 'id, 'o) prioritized_orderpool) option"
where
  "pop_order pq oo p =
     (case pq_pop pq (main_queue p) of
        (None, q) \<Rightarrow> Some (None, p\<lparr>main_queue := q\<rparr>)
      | (Some (i, pr), q) \<Rightarrow>
          (case remove_popped_order oo i (p\<lparr>main_queue := q\<rparr>) of
             (None, p) \<Rightarrow> None
           | (Some ord, p) \<Rightarrow> Some (Some ord, p)))"

definition pp_nonce ::
    "'e nonce_source \<Rightarrow> address \<Rightarrow> ('q, 'id, 'o) prioritized_orderpool \<Rightarrow>
     ('e + u64) \<times> ('q, 'id, 'o) prioritized_orderpool"
where
  "pp_nonce src a p =
     (case onchain_nonces p a of
        Some n \<Rightarrow> (Inr n, p)
      | None \<Rightarrow>
          (case src a of
             Inl e \<Rightarrow> (Inl e, p)
           | Inr n \<Rightarrow> (Inr n, p\<lparr>onchain_nonces := (onchain_nonces p)(a \<mapsto> n)\<rparr>)))"

text \<open>The first loop of \<open>insert_order\<close>: the nonces to wait for, or \<open>None\<close> when one has passed.\<close>

fun insert_scan ::
    "'e nonce_source \<Rightarrow> bundle_nonce list \<Rightarrow> account_nonce list \<Rightarrow> ('q, 'id, 'o) prioritized_orderpool \<Rightarrow>
     ('e + account_nonce list option) \<times> ('q, 'id, 'o) prioritized_orderpool"
where
  "insert_scan src [] pending_nonces p = (Inr (Some pending_nonces), p)"
| "insert_scan src (bn # bns) pending_nonces p =
     (case pp_nonce src (bn_address bn) p of
        (Inl e, p) \<Rightarrow> (Inl e, p)
      | (Inr onchain_nonce, p) \<Rightarrow>
          if bn_nonce bn < onchain_nonce \<and> \<not> bn_optional bn then (Inr None, p)
          else insert_scan src bns
                 (if onchain_nonce < bn_nonce bn \<and> \<not> bn_optional bn
                  then pending_nonces @ [\<lparr>an_account = bn_address bn, an_nonce = bn_nonce bn\<rparr>]
                  else pending_nonces) p)"

definition or_default :: "'v list option \<Rightarrow> 'v list" where
  "or_default m = (case m of Some vs \<Rightarrow> vs | None \<Rightarrow> [])"

definition add_pending ::
    "'id \<Rightarrow> account_nonce \<Rightarrow> (account_nonce \<rightharpoonup> 'id list) \<Rightarrow> (account_nonce \<rightharpoonup> 'id list)" where
  "add_pending i an m =
     (let pending = or_default (m an) in m(an \<mapsto> (if i \<in> set pending then pending else pending @ [i])))"

definition insert_order ::
    "('q, 'id, 'p) priority_queue \<Rightarrow> ('o, 'id, 'p) orderpool_order \<Rightarrow> 'e nonce_source \<Rightarrow> 'o \<Rightarrow>
     ('q, 'id, 'o) prioritized_orderpool \<Rightarrow> ('e + unit) \<times> ('q, 'id, 'o) prioritized_orderpool"
where
  "insert_order pq oo src ord p =
     (let i = order_id oo ord in
      if pp_orders p i \<noteq> None then (Inr (), p)
      else
        case insert_scan src (order_nonces oo ord) [] p of
          (Inl e, p) \<Rightarrow> (Inl e, p)
        | (Inr None, p) \<Rightarrow> (Inr (), p)
        | (Inr (Some pending_nonces), p) \<Rightarrow>
            let p =
              (if pending_nonces = []
               then p\<lparr>main_queue := pq_push pq i (order_priority oo ord) (main_queue p),
                      main_queue_nonces :=
                        fold (\<lambda>bn m. m(bn_address bn \<mapsto> or_default (m (bn_address bn)) @ [i]))
                          (order_nonces oo ord) (main_queue_nonces p)\<rparr>
               else p\<lparr>pending_orders := fold (add_pending i) pending_nonces (pending_orders p)\<rparr>)
            in (Inr (), p\<lparr>pp_orders := (pp_orders p)(i \<mapsto> ord)\<rparr>))"

text \<open>The check of an order whose accounts have changed: is it still worth keeping?\<close>

fun retain_scan ::
    "'e nonce_source \<Rightarrow> bundle_nonce list \<Rightarrow> nat \<Rightarrow> ('q, 'id, 'o) prioritized_orderpool \<Rightarrow>
     ('e + bool) \<times> ('q, 'id, 'o) prioritized_orderpool"
where
  "retain_scan src [] valid_nonces p = (Inr (0 < valid_nonces), p)"
| "retain_scan src (bn # bns) valid_nonces p =
     (case pp_nonce src (bn_address bn) p of
        (Inl e, p) \<Rightarrow> (Inl e, p)
      | (Inr onchain_nonce, p) \<Rightarrow>
          if bn_nonce bn < onchain_nonce \<and> \<not> bn_optional bn then (Inr False, p)
          else retain_scan src bns (if onchain_nonce = bn_nonce bn then valid_nonces + 1 else valid_nonces) p)"

fun set_nonces ::
    "account_nonce list \<Rightarrow> 'id list \<Rightarrow> ('q, 'id, 'o) prioritized_orderpool \<Rightarrow>
     'id list \<times> ('q, 'id, 'o) prioritized_orderpool"
where
  "set_nonces [] invalidated p = (invalidated, p)"
| "set_nonces (an # ans) invalidated p =
     (let p = p\<lparr>onchain_nonces := (onchain_nonces p)(an_account an \<mapsto> an_nonce an)\<rparr> in
      case main_queue_nonces p (an_account an) of
        Some ids \<Rightarrow>
          set_nonces ans (invalidated @ ids) (p\<lparr>main_queue_nonces := (main_queue_nonces p)(an_account an := None)\<rparr>)
      | None \<Rightarrow> set_nonces ans invalidated p)"

fun revalidate ::
    "('q, 'id, 'p) priority_queue \<Rightarrow> ('o, 'id, 'p) orderpool_order \<Rightarrow> 'e nonce_source \<Rightarrow> 'id list \<Rightarrow>
     ('q, 'id, 'o) prioritized_orderpool \<Rightarrow> (('e + unit) \<times> ('q, 'id, 'o) prioritized_orderpool) option"
where
  "revalidate pq oo src [] p = Some (Inr (), p)"
| "revalidate pq oo src (i # is) p =
     (let p = p\<lparr>main_queue := snd (pq_remove pq i (main_queue p))\<rparr> in
      case remove_popped_order oo i p of
        (None, p) \<Rightarrow> None
      | (Some ord, p) \<Rightarrow>
          (case retain_scan src (order_nonces oo ord) 0 p of
             (Inl e, p) \<Rightarrow> Some (Inl e, p)
           | (Inr False, p) \<Rightarrow> revalidate pq oo src is p
           | (Inr True, p) \<Rightarrow>
               (case insert_order pq oo src ord p of
                  (Inl e, p) \<Rightarrow> Some (Inl e, p)
                | (Inr u, p) \<Rightarrow> revalidate pq oo src is p)))"

fun take_orders ::
    "'id list \<Rightarrow> ('q, 'id, 'o) prioritized_orderpool \<Rightarrow> 'o list \<times> ('q, 'id, 'o) prioritized_orderpool"
where
  "take_orders [] p = ([], p)"
| "take_orders (i # is) p =
     (case remove_from_orders i p of
        (None, p) \<Rightarrow> take_orders is p
      | (Some ord, p) \<Rightarrow> (case take_orders is p of (os, p) \<Rightarrow> (ord # os, p)))"

fun insert_orders ::
    "('q, 'id, 'p) priority_queue \<Rightarrow> ('o, 'id, 'p) orderpool_order \<Rightarrow> 'e nonce_source \<Rightarrow> 'o list \<Rightarrow>
     ('q, 'id, 'o) prioritized_orderpool \<Rightarrow> ('e + unit) \<times> ('q, 'id, 'o) prioritized_orderpool"
where
  "insert_orders pq oo src [] p = (Inr (), p)"
| "insert_orders pq oo src (ord # os) p =
     (case insert_order pq oo src ord p of
        (Inl e, p) \<Rightarrow> (Inl e, p)
      | (Inr u, p) \<Rightarrow> insert_orders pq oo src os p)"

fun wake_pending ::
    "('q, 'id, 'p) priority_queue \<Rightarrow> ('o, 'id, 'p) orderpool_order \<Rightarrow> 'e nonce_source \<Rightarrow> account_nonce list \<Rightarrow>
     ('q, 'id, 'o) prioritized_orderpool \<Rightarrow> ('e + unit) \<times> ('q, 'id, 'o) prioritized_orderpool"
where
  "wake_pending pq oo src [] p = (Inr (), p)"
| "wake_pending pq oo src (an # ans) p =
     (case pending_orders p an of
        None \<Rightarrow> wake_pending pq oo src ans p
      | Some pending \<Rightarrow>
          (case take_orders pending (p\<lparr>pending_orders := (pending_orders p)(an := None)\<rparr>) of
             (os, p) \<Rightarrow>
               (case insert_orders pq oo src os p of
                  (Inl e, p) \<Rightarrow> (Inl e, p)
                | (Inr u, p) \<Rightarrow> wake_pending pq oo src ans p)))"

definition update_onchain_nonces ::
    "('q, 'id, 'p) priority_queue \<Rightarrow> ('o, 'id, 'p) orderpool_order \<Rightarrow> ('id list \<Rightarrow> 'id list) \<Rightarrow>
     account_nonce list \<Rightarrow> 'e nonce_source \<Rightarrow> ('q, 'id, 'o) prioritized_orderpool \<Rightarrow>
     (('e + unit) \<times> ('q, 'id, 'o) prioritized_orderpool) option"
where
  "update_onchain_nonces pq oo set_iter new_nonces src p =
     (case set_nonces new_nonces [] p of
        (invalidated_orders, p) \<Rightarrow>
          (case revalidate pq oo src (set_iter invalidated_orders) p of
             None \<Rightarrow> None
           | Some (Inl e, p) \<Rightarrow> Some (Inl e, p)
           | Some (Inr u, p) \<Rightarrow> Some (wake_pending pq oo src new_nonces p)))"

definition pp_remove_order ::
    "('q, 'id, 'p) priority_queue \<Rightarrow> ('o, 'id, 'p) orderpool_order \<Rightarrow> 'id \<Rightarrow>
     ('q, 'id, 'o) prioritized_orderpool \<Rightarrow> 'o option \<times> ('q, 'id, 'o) prioritized_orderpool"
where
  "pp_remove_order pq oo i p =
     (let p =
        (case pq_remove pq i (main_queue p) of
           (Some _, q) \<Rightarrow> snd (remove_popped_order oo i (p\<lparr>main_queue := q\<rparr>))
         | (None, q) \<Rightarrow> p\<lparr>main_queue := q\<rparr>)
      in remove_from_orders i p)"

text \<open>A hash set built from a list is iterated in some order, each element once.\<close>

definition set_iter_laws :: "('id list \<Rightarrow> 'id list) \<Rightarrow> bool" where
  "set_iter_laws set_iter \<longleftrightarrow> (\<forall>xs. distinct (set_iter xs) \<and> set (set_iter xs) = set xs)"

subsection \<open>The invariant of the pool\<close>

text \<open>
  \<open>ready\<close>: every nonce of the order that is not optional is the nonce of its account. The
  invariant is stated for a map \<open>M\<close> of orders, which differs from the orders of the pool while
  some are taken out to be inserted again, and for a set \<open>X\<close> of orders still to be checked.
\<close>

definition ready :: "('o, 'id, 'p) orderpool_order \<Rightarrow> ('q, 'id, 'o) prioritized_orderpool \<Rightarrow> 'o \<Rightarrow> bool" where
  "ready oo p ord \<longleftrightarrow>
     list_all (\<lambda>bn. bn_optional bn \<or> onchain_nonces p (bn_address bn) = Some (bn_nonce bn)) (order_nonces oo ord)"

definition cached :: "('q, 'id, 'o) prioritized_orderpool \<Rightarrow> bundle_nonce list \<Rightarrow> bool" where
  "cached p bns \<longleftrightarrow> list_all (\<lambda>bn. onchain_nonces p (bn_address bn) \<noteq> None) bns"

definition passed :: "('q, 'id, 'o) prioritized_orderpool \<Rightarrow> bundle_nonce \<Rightarrow> bool" where
  "passed p bn \<longleftrightarrow> \<not> bn_optional bn \<and> (\<exists>m. onchain_nonces p (bn_address bn) = Some m \<and> bn_nonce bn < m)"

definition waits :: "('q, 'id, 'o) prioritized_orderpool \<Rightarrow> bundle_nonce \<Rightarrow> bool" where
  "waits p bn \<longleftrightarrow> \<not> bn_optional bn \<and> (\<exists>m. onchain_nonces p (bn_address bn) = Some m \<and> m < bn_nonce bn)"

definition bn_key :: "bundle_nonce \<Rightarrow> account_nonce" where
  "bn_key bn = \<lparr>an_account = bn_address bn, an_nonce = bn_nonce bn\<rparr>"

abbreviation items :: "('q, 'id, 'p) priority_queue \<Rightarrow> ('q, 'id, 'o) prioritized_orderpool \<Rightarrow> 'id \<rightharpoonup> 'p" where
  "items pq p \<equiv> pq_items pq (main_queue p)"

definition indexed_at :: "('q, 'id, 'o) prioritized_orderpool \<Rightarrow> 'id \<Rightarrow> address \<Rightarrow> bool" where
  "indexed_at p i a \<longleftrightarrow> i \<in> set (or_default (main_queue_nonces p a))"

definition pending_at :: "('q, 'id, 'o) prioritized_orderpool \<Rightarrow> 'id \<Rightarrow> account_nonce \<Rightarrow> bool" where
  "pending_at p i an \<longleftrightarrow> i \<in> set (or_default (pending_orders p an))"

definition pp_ok ::
    "('q, 'id, 'p) priority_queue \<Rightarrow> ('o, 'id, 'p) orderpool_order \<Rightarrow> 'id set \<Rightarrow> ('id \<rightharpoonup> 'o) \<Rightarrow>
     ('q, 'id, 'o) prioritized_orderpool \<Rightarrow> bool"
where
  "pp_ok pq oo X M p \<longleftrightarrow>
     (\<forall>i ord. M i = Some ord \<longrightarrow> order_id oo ord = i \<and> cached p (order_nonces oo ord)) \<and>
     (\<forall>i pr. items pq p i = Some pr \<longrightarrow>
        (\<exists>ord. M i = Some ord \<and> pr = order_priority oo ord \<and>
           (i \<notin> X \<longrightarrow> ready oo p ord \<and> (\<forall>bn \<in> set (order_nonces oo ord). indexed_at p i (bn_address bn))))) \<and>
     (\<forall>i a. indexed_at p i a \<longrightarrow>
        items pq p i \<noteq> None \<and> (\<exists>ord. M i = Some ord \<and> a \<in> bn_address ` set (order_nonces oo ord)))"

lemma ok_order: "pp_ok pq oo X M p \<Longrightarrow> M i = Some ord \<Longrightarrow> order_id oo ord = i \<and> cached p (order_nonces oo ord)"
  unfolding pp_ok_def by blast

lemma ok_item:
  "pp_ok pq oo X M p \<Longrightarrow> items pq p i = Some pr \<Longrightarrow> \<exists>ord. M i = Some ord \<and> pr = order_priority oo ord"
  unfolding pp_ok_def by blast

lemma ok_ready:
  "pp_ok pq oo X M p \<Longrightarrow> items pq p i \<noteq> None \<Longrightarrow> M i = Some ord \<Longrightarrow> i \<notin> X \<Longrightarrow>
     ready oo p ord \<and> (\<forall>bn \<in> set (order_nonces oo ord). indexed_at p i (bn_address bn))"
  unfolding pp_ok_def by (metis not_None_eq option.inject)

lemma ok_index:
  "pp_ok pq oo X M p \<Longrightarrow> indexed_at p i a \<Longrightarrow>
     items pq p i \<noteq> None \<and> (\<exists>ord. M i = Some ord \<and> a \<in> bn_address ` set (order_nonces oo ord))"
  unfolding pp_ok_def by blast

lemma pp_okI:
  assumes "\<And>i ord. M i = Some ord \<Longrightarrow> order_id oo ord = i \<and> cached p (order_nonces oo ord)"
    and "\<And>i pr. items pq p i = Some pr \<Longrightarrow> \<exists>ord. M i = Some ord \<and> pr = order_priority oo ord"
    and "\<And>i ord. items pq p i \<noteq> None \<Longrightarrow> M i = Some ord \<Longrightarrow> i \<notin> X \<Longrightarrow>
      ready oo p ord \<and> (\<forall>bn \<in> set (order_nonces oo ord). indexed_at p i (bn_address bn))"
    and "\<And>i a. indexed_at p i a \<Longrightarrow>
      items pq p i \<noteq> None \<and> (\<exists>ord. M i = Some ord \<and> a \<in> bn_address ` set (order_nonces oo ord))"
  shows "pp_ok pq oo X M p"
  unfolding pp_ok_def
proof (intro conjI allI impI)
  fix i pr assume i: "items pq p i = Some pr"
  with assms(2) obtain ord where "M i = Some ord" "pr = order_priority oo ord" by blast
  with i assms(3) show "\<exists>ord. M i = Some ord \<and> pr = order_priority oo ord \<and>
      (i \<notin> X \<longrightarrow> ready oo p ord \<and> (\<forall>bn \<in> set (order_nonces oo ord). indexed_at p i (bn_address bn)))"
    by (intro exI [of _ ord]) auto
qed (use assms(1,4) in blast)+

lemma ready_iff: "cached p (order_nonces oo ord) \<Longrightarrow>
    ready oo p ord \<longleftrightarrow> \<not> list_ex (passed p) (order_nonces oo ord) \<and> \<not> list_ex (waits p) (order_nonces oo ord)"
  unfolding ready_def cached_def passed_def waits_def list_all_iff list_ex_iff
  by (metis linorder_neqE not_None_eq option.inject order_less_irrefl)

text \<open>Fields the predicates read.\<close>

lemma ready_cong: "onchain_nonces p = onchain_nonces q \<Longrightarrow> ready oo p ord = ready oo q ord"
  by (simp add: ready_def)

lemma cached_cong: "onchain_nonces p = onchain_nonces q \<Longrightarrow> cached p bns = cached q bns"
  by (simp add: cached_def)

lemma waits_cong: "onchain_nonces p = onchain_nonces q \<Longrightarrow> waits p bn = waits q bn"
  by (simp add: waits_def)

lemma indexed_cong: "main_queue_nonces p = main_queue_nonces q \<Longrightarrow> indexed_at p i a = indexed_at q i a"
  by (simp add: indexed_at_def)

lemma pp_ok_cong:
  assumes "main_queue p = main_queue q" "main_queue_nonces p = main_queue_nonces q"
    and "onchain_nonces p = onchain_nonces q" "pp_ok pq oo X M p"
  shows "pp_ok pq oo X M q"
  using assms(4) unfolding pp_ok_def
  by (simp add: assms(1) ready_cong [OF assms(3)] cached_cong [OF assms(3)] indexed_cong [OF assms(2)])

text \<open>Reading a nonce that is not cached only adds to the cache.\<close>

lemma ok_extend:
  assumes "pp_ok pq oo X M p" "onchain_nonces p \<subseteq>\<^sub>m oc"
  shows "pp_ok pq oo X M (p\<lparr>onchain_nonces := oc\<rparr>)"
proof -
  let ?q = "p\<lparr>onchain_nonces := oc\<rparr>"
  have oc: "onchain_nonces p a = Some n \<Longrightarrow> oc a = Some n" for a n
    using assms(2) by (auto simp: map_le_def dom_def)
  have "ready oo p ord \<Longrightarrow> ready oo ?q ord" for ord
    using oc by (auto simp: ready_def list_all_iff)
  moreover have "cached p bns \<Longrightarrow> cached ?q bns" for bns
    using oc by (fastforce simp: cached_def list_all_iff)
  ultimately show ?thesis
    using assms(1) unfolding pp_ok_def by (simp add: indexed_at_def) blast
qed

subsection \<open>Reading nonces\<close>

lemma scan_cached:
  "cached p bns \<Longrightarrow> insert_scan src bns acc p =
     (Inr (if list_ex (passed p) bns then None else Some (acc @ map bn_key (filter (waits p) bns))), p)"
proof (induction bns arbitrary: acc)
  case (Cons bn bns)
  then obtain n where "onchain_nonces p (bn_address bn) = Some n" "cached p bns" by (auto simp: cached_def)
  with Cons.IH show ?case by (auto simp: pp_nonce_def passed_def waits_def bn_key_def)
qed simp

lemma retain_cached: "cached p bns \<Longrightarrow> \<exists>b. retain_scan src bns k p = (Inr b, p)"
proof (induction bns arbitrary: k)
  case (Cons bn bns)
  then obtain n where "onchain_nonces p (bn_address bn) = Some n" "cached p bns" by (auto simp: cached_def)
  with Cons.IH show ?case by (cases "bn_nonce bn < n \<and> \<not> bn_optional bn") (auto simp: pp_nonce_def)
qed simp

lemma nonce_extends:
  assumes "pp_nonce src a p = (r, p')"
  shows "\<exists>oc. p' = p\<lparr>onchain_nonces := oc\<rparr> \<and> onchain_nonces p \<subseteq>\<^sub>m oc \<and> (\<forall>n. r = Inr n \<longrightarrow> oc a \<noteq> None)"
proof (cases "\<exists>n. onchain_nonces p a = None \<and> src a = Inr n")
  case True
  then obtain n where "onchain_nonces p a = None" "src a = Inr n" by blast
  with assms show ?thesis
    by (intro exI [of _ "(onchain_nonces p)(a \<mapsto> n)"]) (auto simp: pp_nonce_def map_le_def)
next
  case False
  with assms show ?thesis
    by (intro exI [of _ "onchain_nonces p"]) (auto simp: pp_nonce_def split: option.splits sum.splits)
qed

lemma scan_extends:
  "insert_scan src bns acc p = (res, p') \<Longrightarrow>
     \<exists>oc. p' = p\<lparr>onchain_nonces := oc\<rparr> \<and> onchain_nonces p \<subseteq>\<^sub>m oc \<and>
       (\<forall>l. res = Inr (Some l) \<longrightarrow> cached p' bns)"
proof (induction bns arbitrary: acc p)
  case Nil
  then show ?case by (intro exI [of _ "onchain_nonces p"]) (auto simp: cached_def)
next
  case (Cons bn bns)
  obtain r p1 where n: "pp_nonce src (bn_address bn) p = (r, p1)" by fastforce
  from nonce_extends [OF n] obtain oc1 where oc1: "p1 = p\<lparr>onchain_nonces := oc1\<rparr>" "onchain_nonces p \<subseteq>\<^sub>m oc1"
    "\<forall>n. r = Inr n \<longrightarrow> oc1 (bn_address bn) \<noteq> None" by blast
  show ?case
  proof (cases "\<exists>acc'. insert_scan src bns acc' p1 = (res, p')")
    case True
    then obtain acc' where "insert_scan src bns acc' p1 = (res, p')" by blast
    from Cons.IH [OF this] obtain oc where oc: "p' = p1\<lparr>onchain_nonces := oc\<rparr>" "oc1 \<subseteq>\<^sub>m oc"
      "\<forall>l. res = Inr (Some l) \<longrightarrow> cached p' bns" by (auto simp: oc1(1))
    have "oc (bn_address bn) \<noteq> None" if "res = Inr (Some l)" for l
      using that Cons.prems n oc1(3) oc(2) by (auto simp: map_le_def dom_def split: sum.splits if_splits)
    with oc oc1 show ?thesis
      by (intro exI [of _ oc]) (auto simp: cached_def intro: map_le_trans)
  next
    case False
    with Cons.prems n oc1 show ?thesis by (auto split: sum.splits if_splits)
  qed
qed

text \<open>A scan that completes gives the same when it is repeated on its result.\<close>

lemma scan_same:
  "insert_scan src bns acc p = (Inr (Some l), p') \<Longrightarrow> insert_scan src bns acc p' = (Inr (Some l), p')"
proof (induction bns arbitrary: acc p)
  case (Cons bn bns)
  obtain r p1 where n: "pp_nonce src (bn_address bn) p = (r, p1)" by fastforce
  with Cons.prems obtain k acc' where k: "r = Inr k" "\<not> (bn_nonce bn < k \<and> \<not> bn_optional bn)"
    "acc' = (if k < bn_nonce bn \<and> \<not> bn_optional bn
       then acc @ [\<lparr>an_account = bn_address bn, an_nonce = bn_nonce bn\<rparr>] else acc)"
    "insert_scan src bns acc' p1 = (Inr (Some l), p')"
    by (auto split: sum.splits if_splits)
  have "onchain_nonces p1 (bn_address bn) = Some k"
    using n k(1) by (auto simp: pp_nonce_def split: option.splits sum.splits)
  with scan_extends [OF k(4)] have "onchain_nonces p' (bn_address bn) = Some k"
    by (auto simp: map_le_def dom_def)
  with Cons.IH [OF k(4)] k(2,3) show ?case by (simp add: pp_nonce_def)
qed simp

subsection \<open>Insertion\<close>

lemma pq_push_items: "pq_laws pq \<Longrightarrow> pq_items pq (pq_push pq i pr q) = (pq_items pq q)(i \<mapsto> pr)"
  unfolding pq_laws_def by blast

lemma pq_remove_items: "pq_laws pq \<Longrightarrow> pq_items pq (snd (pq_remove pq i q)) = (pq_items pq q)(i := None)"
  unfolding pq_laws_def by blast

lemma pq_remove_result: "pq_laws pq \<Longrightarrow> fst (pq_remove pq i q) = map_option (Pair i) (pq_items pq q i)"
  unfolding pq_laws_def by blast

lemma pq_pop_Some:
  assumes "pq_laws pq" "pq_pop pq q = (Some (i, pr), q')"
  shows "pq_items pq q i = Some pr" "pq_items pq q' = (pq_items pq q)(i := None)"
    and "pq_items pq q j = Some pr' \<Longrightarrow> pr' \<le> pr"
  using assms unfolding pq_laws_def by blast+

lemma pq_pop_None:
  "pq_laws pq \<Longrightarrow> pq_pop pq q = (None, q') \<Longrightarrow> pq_items pq q = Map.empty \<and> pq_items pq q' = Map.empty"
  unfolding pq_laws_def by blast

lemma or_default_simps [simp]: "or_default None = []" "or_default (Some xs) = xs"
  by (simp_all add: or_default_def)

lemma fold_index:
  "set (or_default (fold (\<lambda>bn m. m(bn_address bn \<mapsto> or_default (m (bn_address bn)) @ [i])) bns m a)) =
     set (or_default (m a)) \<union> (if a \<in> bn_address ` set bns then {i} else {})"
  by (induction bns arbitrary: m) auto

lemma fold_add_pending:
  "set (or_default (fold (add_pending i) ans m an)) =
     set (or_default (m an)) \<union> (if an \<in> set ans then {i} else {})"
  by (induction ans arbitrary: m) (auto simp: add_pending_def Let_def)

text \<open>An order that is not queued may leave the map.\<close>

lemma ok_drop:
  assumes "pp_ok pq oo X M p" "items pq p i = None"
  shows "pp_ok pq oo X (M(i := None)) p"
proof (rule pp_okI)
  show "order_id oo ord = j \<and> cached p (order_nonces oo ord)" if "(M(i := None)) j = Some ord" for j ord
    using ok_order [OF assms(1), of j ord] that by (simp split: if_splits)
  show "\<exists>ord. (M(i := None)) j = Some ord \<and> pr = order_priority oo ord" if "items pq p j = Some pr" for j pr
    using ok_item [OF assms(1) that] that assms(2) by auto
  show "ready oo p ord \<and> (\<forall>bn \<in> set (order_nonces oo ord). indexed_at p j (bn_address bn))"
    if "items pq p j \<noteq> None" "(M(i := None)) j = Some ord" "j \<notin> X" for j ord
    using ok_ready [OF assms(1) that(1) _ that(3), of ord] that(2) by (simp split: if_splits)
  show "items pq p j \<noteq> None \<and> (\<exists>ord. (M(i := None)) j = Some ord \<and> a \<in> bn_address ` set (order_nonces oo ord))"
    if "indexed_at p j a" for j a
    using ok_index [OF assms(1) that] assms(2) by auto
qed

text \<open>
  Inserting an order whose nonces are known never fails. It goes into the queue when it is ready,
  waits under each nonce it waits for, or is dropped when one of its nonces has passed.
\<close>

definition inserted ::
    "('q, 'id, 'p) priority_queue \<Rightarrow> ('o, 'id, 'p) orderpool_order \<Rightarrow> 'id set \<Rightarrow> ('id \<rightharpoonup> 'o) \<Rightarrow> 'o \<Rightarrow>
     ('q, 'id, 'o) prioritized_orderpool \<Rightarrow> ('q, 'id, 'o) prioritized_orderpool \<Rightarrow> bool"
where
  "inserted pq oo X M ord p p' \<longleftrightarrow>
     (let i = order_id oo ord; dead = list_ex (passed p) (order_nonces oo ord) in
      onchain_nonces p' = onchain_nonces p \<and>
      (\<forall>j an. pending_at p' j an \<longleftrightarrow> pending_at p j an \<or>
         j = i \<and> \<not> dead \<and> an \<in> bn_key ` {bn \<in> set (order_nonces oo ord). waits p bn}) \<and>
      (if dead
       then pp_orders p' = pp_orders p \<and> items pq p' = items pq p \<and> items pq p i = None \<and>
         pp_ok pq oo X (M(i := None)) p'
       else pp_orders p' = (pp_orders p)(i \<mapsto> ord) \<and> pp_ok pq oo X M p' \<and>
         items pq p' = (if ready oo p ord then (items pq p)(i \<mapsto> order_priority oo ord) else items pq p)))"

abbreviation queue_order :: "('q, 'id, 'p) priority_queue \<Rightarrow> ('o, 'id, 'p) orderpool_order \<Rightarrow> 'id \<Rightarrow> 'o \<Rightarrow>
    ('id \<rightharpoonup> 'o) \<Rightarrow> ('q, 'id, 'o) prioritized_orderpool \<Rightarrow> ('q, 'id, 'o) prioritized_orderpool" where
  "queue_order pq oo i ord os p \<equiv> p\<lparr>main_queue := pq_push pq i (order_priority oo ord) (main_queue p),
     main_queue_nonces := fold (\<lambda>bn m. m(bn_address bn \<mapsto> or_default (m (bn_address bn)) @ [i]))
       (order_nonces oo ord) (main_queue_nonces p), pp_orders := os\<rparr>"

lemma queue_order_ok:
  assumes "pq_laws pq" "pp_ok pq oo X M p" "M i = Some ord" "ready oo p ord"
  shows "items pq (queue_order pq oo i ord os p) = (items pq p)(i \<mapsto> order_priority oo ord)"
    and "pp_ok pq oo X M (queue_order pq oo i ord os p)"
proof -
  let ?ns = "order_nonces oo ord" and ?p = "queue_order pq oo i ord os p"
  have ix: "indexed_at ?p j a \<longleftrightarrow> indexed_at p j a \<or> j = i \<and> a \<in> bn_address ` set ?ns" for j a
    by (auto simp: indexed_at_def fold_index)
  show it: "items pq ?p = (items pq p)(i \<mapsto> order_priority oo ord)" by (simp add: pq_push_items [OF assms(1)])
  have rc: "ready oo ?p o' = ready oo p o'" "cached ?p ns = cached p ns" for o' ns
    by (simp_all add: ready_def cached_def)
  show "pp_ok pq oo X M ?p"
  proof (rule pp_okI)
    show "order_id oo o' = j \<and> cached ?p (order_nonces oo o')" if "M j = Some o'" for j o'
      using ok_order [OF assms(2) that] by (simp add: rc)
    show "\<exists>o'. M j = Some o' \<and> pr = order_priority oo o'" if "items pq ?p j = Some pr" for j pr
      using that ok_item [OF assms(2)] assms(3) unfolding it by (auto split: if_splits)
    show "ready oo ?p o' \<and> (\<forall>bn \<in> set (order_nonces oo o'). indexed_at ?p j (bn_address bn))"
      if "items pq ?p j \<noteq> None" "M j = Some o'" "j \<notin> X" for j o'
      using that ok_ready [OF assms(2) _ that(2,3)] assms(3,4) unfolding it rc ix by (auto split: if_splits)
    show "items pq ?p j \<noteq> None \<and> (\<exists>o'. M j = Some o' \<and> a \<in> bn_address ` set (order_nonces oo o'))"
      if "indexed_at ?p j a" for j a
      using that ok_index [OF assms(2), of j a] assms(3) unfolding it ix by auto
  qed
qed

lemma insert_cached:
  assumes "pq_laws pq" "pp_ok pq oo X M p" "M i = Some ord" "pp_orders p i = None" "i \<notin> X"
  shows "\<exists>p'. insert_order pq oo src ord p = (Inr (), p') \<and> inserted pq oo X M ord p p'"
proof -
  let ?ns = "order_nonces oo ord"
  have id: "order_id oo ord = i" and ca: "cached p ?ns" using ok_order [OF assms(2,3)] by auto
  have queued: "ready oo p ord" if "items pq p i \<noteq> None"
    using ok_ready [OF assms(2) that assms(3,5)] by simp
  consider (passed) "list_ex (passed p) ?ns"
    | (waits) "\<not> list_ex (passed p) ?ns" "list_ex (waits p) ?ns"
    | (ready) "\<not> list_ex (passed p) ?ns" "\<not> list_ex (waits p) ?ns" by blast
  then show ?thesis
  proof cases
    case passed
    then have n: "items pq p i = None" using queued ready_iff [OF ca] by (cases "items pq p i") auto
    with passed id ok_drop [OF assms(2) n] show ?thesis
      by (intro exI [of _ p]) (simp add: insert_order_def inserted_def Let_def assms(4) scan_cached [OF ca])
  next
    case waits
    then have n: "items pq p i = None" "\<not> ready oo p ord"
      using queued ready_iff [OF ca] by (cases "items pq p i", auto)
    let ?p = "p\<lparr>pending_orders := fold (add_pending i) (map bn_key (filter (waits p) ?ns)) (pending_orders p),
      pp_orders := (pp_orders p)(i \<mapsto> ord)\<rparr>"
    have "filter (waits p) ?ns \<noteq> []" using waits(2) by (auto simp: list_ex_iff filter_empty_conv)
    with waits id have "insert_order pq oo src ord p = (Inr (), ?p)"
      by (simp add: insert_order_def Let_def assms(4) scan_cached [OF ca])
    with waits(1) n pp_ok_cong [OF _ _ _ assms(2), of ?p] id show ?thesis
      by (intro exI [of _ ?p]) (auto simp: inserted_def pending_at_def fold_add_pending)
  next
    case ready
    then have rd: "ready oo p ord" using ready_iff [OF ca] by simp
    let ?p = "queue_order pq oo i ord ((pp_orders p)(i \<mapsto> ord)) p"
    have "filter (waits p) ?ns = []" using ready(2) by (auto simp: list_ex_iff filter_empty_conv)
    with ready id have "insert_order pq oo src ord p = (Inr (), ?p)"
      by (simp add: insert_order_def Let_def assms(4) scan_cached [OF ca])
    moreover note queue_order_ok [OF assms(1-3) rd, of "(pp_orders p)(i \<mapsto> ord)"]
    moreover have "\<not> waits p bn" if "bn \<in> set ?ns" for bn using that ready(2) by (auto simp: list_ex_iff)
    ultimately show ?thesis
      using ready(1) rd id by (intro exI [of _ ?p]) (auto simp: inserted_def pending_at_def)
  qed
qed

subsection \<open>Removal\<close>

lemma fold_retain:
  "fold (\<lambda>bn. retain_not i (bn_address bn)) bns m a =
     (if a \<in> bn_address ` set bns then map_option (filter (\<lambda>j. j \<noteq> i)) (m a) else m a)"
proof (induction bns arbitrary: m)
  case (Cons bn bns)
  have "retain_not i b m a = (if a = b then map_option (filter (\<lambda>j. j \<noteq> i)) (m a) else m a)" for b
    by (auto simp: retain_not_def split: option.split)
  with Cons show ?case by (auto simp: option.map_comp comp_def)
qed simp

text \<open>An order leaves the queue, the map and the index together.\<close>

lemma remove_popped:
  assumes "pp_ok pq oo X M p" "pq_items pq q = (items pq p)(i := None)" "pp_orders p i = Some ord" "M i = Some ord"
  obtains p' where "remove_popped_order oo i (p\<lparr>main_queue := q\<rparr>) = (Some ord, p')"
    and "pp_ok pq oo (X - {i}) (M(i := None)) p'" "pp_orders p' = (pp_orders p)(i := None)"
    and "items pq p' = (items pq p)(i := None)"
    and "onchain_nonces p' = onchain_nonces p" "pending_orders p' = pending_orders p"
proof -
  have id: "order_id oo ord = i" using ok_order [OF assms(1,4)] by simp
  let ?p = "p\<lparr>main_queue := q, pp_orders := (pp_orders p)(i := None),
    main_queue_nonces := fold (\<lambda>bn. retain_not i (bn_address bn)) (order_nonces oo ord) (main_queue_nonces p)\<rparr>"
  have run: "remove_popped_order oo i (p\<lparr>main_queue := q\<rparr>) = (Some ord, ?p)"
    by (simp add: remove_popped_order_def remove_from_orders_def assms(3) id)
  have ix: "indexed_at ?p j a \<longleftrightarrow> indexed_at p j a \<and> j \<noteq> i" for j a
  proof (cases "a \<in> bn_address ` set (order_nonces oo ord)")
    case True
    then show ?thesis
      by (cases "main_queue_nonces p a") (auto simp: indexed_at_def fold_retain)
  next
    case False
    with ok_index [OF assms(1), of i a] assms(4) have "\<not> indexed_at p i a" by auto
    with False show ?thesis by (auto simp: indexed_at_def fold_retain)
  qed
  have it: "items pq ?p = (items pq p)(i := None)" by (simp add: assms(2))
  have rc: "ready oo ?p o' = ready oo p o'" "cached ?p ns = cached p ns" for o' ns
    by (simp_all add: ready_def cached_def)
  have "pp_ok pq oo (X - {i}) (M(i := None)) ?p"
  proof (rule pp_okI)
    show "order_id oo o' = j \<and> cached ?p (order_nonces oo o')" if "(M(i := None)) j = Some o'" for j o'
      using ok_order [OF assms(1), of j o'] that by (simp add: rc split: if_splits)
    show "\<exists>o'. (M(i := None)) j = Some o' \<and> pr = order_priority oo o'" if "items pq ?p j = Some pr" for j pr
      using that ok_item [OF assms(1), of j pr] unfolding it by (simp split: if_splits)
    show "ready oo ?p o' \<and> (\<forall>bn \<in> set (order_nonces oo o'). indexed_at ?p j (bn_address bn))"
      if "items pq ?p j \<noteq> None" "(M(i := None)) j = Some o'" "j \<notin> X - {i}" for j o'
      using that ok_ready [OF assms(1), of j o'] unfolding it rc ix by (simp split: if_splits)
    show "items pq ?p j \<noteq> None \<and> (\<exists>o'. (M(i := None)) j = Some o' \<and> a \<in> bn_address ` set (order_nonces oo o'))"
      if "indexed_at ?p j a" for j a
      using that ok_index [OF assms(1), of j a] unfolding it ix by simp
  qed
  then show thesis using run it by (intro that [of ?p]) simp_all
qed

subsection \<open>Update of the nonces\<close>

text \<open>
  \<open>pp_complete L\<close>: an order outside the queue waits under each nonce it waits for, and is not ready,
  except for the orders that wait under a nonce of \<open>L\<close>, which are still to be woken.
\<close>

definition pp_complete ::
    "('q, 'id, 'p) priority_queue \<Rightarrow> ('o, 'id, 'p) orderpool_order \<Rightarrow> account_nonce set \<Rightarrow>
     ('q, 'id, 'o) prioritized_orderpool \<Rightarrow> bool"
where
  "pp_complete pq oo L p \<longleftrightarrow>
     (\<forall>i ord. pp_orders p i = Some ord \<longrightarrow> items pq p i = None \<longrightarrow>
        (\<forall>bn \<in> set (order_nonces oo ord). waits p bn \<longrightarrow> pending_at p i (bn_key bn)) \<and>
        (ready oo p ord \<longrightarrow> (\<exists>an \<in> L. pending_at p i an)))"

lemma inserted_complete:
  assumes "inserted pq oo X M ord p p'" "pp_orders p (order_id oo ord) = None" "pp_complete pq oo L p"
  shows "pp_complete pq oo L p'"
  unfolding pp_complete_def
proof (intro allI impI)
  let ?i = "order_id oo ord" and ?dead = "list_ex (passed p) (order_nonces oo ord)"
  have oc: "onchain_nonces p' = onchain_nonces p"
    and pd: "\<And>j an. pending_at p' j an \<longleftrightarrow> pending_at p j an \<or>
      j = ?i \<and> \<not> ?dead \<and> an \<in> bn_key ` {bn \<in> set (order_nonces oo ord). waits p bn}"
    and st: "if ?dead then pp_orders p' = pp_orders p \<and> items pq p' = items pq p
      else pp_orders p' = (pp_orders p)(?i \<mapsto> ord) \<and>
        items pq p' = (if ready oo p ord then (items pq p)(?i \<mapsto> order_priority oo ord) else items pq p)"
    using assms(1) unfolding inserted_def Let_def by (blast, blast, meson)
  have rw: "ready oo p' o' = ready oo p o'" "waits p' bn = waits p bn" for o' bn
    by (simp_all add: ready_cong [OF oc] waits_cong [OF oc])
  fix j o' assume j: "pp_orders p' j = Some o'" "items pq p' j = None"
  show "(\<forall>bn \<in> set (order_nonces oo o'). waits p' bn \<longrightarrow> pending_at p' j (bn_key bn)) \<and>
      (ready oo p' o' \<longrightarrow> (\<exists>an \<in> L. pending_at p' j an))"
  proof (cases "j = ?i")
    case True
    with j st assms(2) have "\<not> ?dead" "o' = ord" "\<not> ready oo p ord" by (auto split: if_splits)
    with True show ?thesis unfolding rw by (auto simp: pd)
  next
    case False
    with j st have "pp_orders p j = Some o'" "items pq p j = None" by (auto split: if_splits)
    with assms(3) show ?thesis unfolding rw pp_complete_def pd by blast
  qed
qed

lemma ok_add:
  assumes "pp_ok pq oo X M p" "items pq p i = None" "order_id oo ord = i" "cached p (order_nonces oo ord)"
    and "M i = None"
  shows "pp_ok pq oo X (M(i \<mapsto> ord)) p"
proof (rule pp_okI)
  show "order_id oo o' = j \<and> cached p (order_nonces oo o')" if "(M(i \<mapsto> ord)) j = Some o'" for j o'
    using ok_order [OF assms(1), of j o'] that assms(3,4) by (simp split: if_splits)
  show "\<exists>o'. (M(i \<mapsto> ord)) j = Some o' \<and> pr = order_priority oo o'" if "items pq p j = Some pr" for j pr
    using ok_item [OF assms(1) that] that assms(2) by auto
  show "ready oo p o' \<and> (\<forall>bn \<in> set (order_nonces oo o'). indexed_at p j (bn_address bn))"
    if "items pq p j \<noteq> None" "(M(i \<mapsto> ord)) j = Some o'" "j \<notin> X" for j o'
    using ok_ready [OF assms(1) that(1) _ that(3), of o'] that(1,2) assms(2) by (simp split: if_splits)
  show "items pq p j \<noteq> None \<and> (\<exists>o'. (M(i \<mapsto> ord)) j = Some o' \<and> a \<in> bn_address ` set (order_nonces oo o'))"
    if "indexed_at p j a" for j a
    using ok_index [OF assms(1) that] assms(5) by auto
qed

lemma inserted_facts:
  assumes "inserted pq oo X M ord p p'" "pp_orders p (order_id oo ord) = None" "M (order_id oo ord) = Some ord"
  shows "onchain_nonces p' = onchain_nonces p"
    and "items pq p j \<noteq> None \<Longrightarrow> items pq p' j \<noteq> None"
    and "\<exists>M'. pp_ok pq oo X M' p' \<and> (pp_orders p' = pp_orders p \<and> M' = M(order_id oo ord := None) \<or>
      pp_orders p' = (pp_orders p)(order_id oo ord \<mapsto> ord) \<and> M' = M)"
proof -
  show "onchain_nonces p' = onchain_nonces p" using assms(1) unfolding inserted_def Let_def by blast
  show "items pq p j \<noteq> None \<Longrightarrow> items pq p' j \<noteq> None"
    using assms(1) unfolding inserted_def Let_def by (auto split: if_splits)
  show "\<exists>M'. pp_ok pq oo X M' p' \<and> (pp_orders p' = pp_orders p \<and> M' = M(order_id oo ord := None) \<or>
      pp_orders p' = (pp_orders p)(order_id oo ord \<mapsto> ord) \<and> M' = M)"
    using assms(1) unfolding inserted_def Let_def
    by (cases "list_ex (passed p) (order_nonces oo ord)") auto
qed

lemma fold_nonces:
  "fold (\<lambda>an oc. oc(an_account an \<mapsto> an_nonce an)) ans oc a =
     (case rev (filter (\<lambda>an. an_account an = a) ans) of [] \<Rightarrow> oc a | an # _ \<Rightarrow> Some (an_nonce an))"
  by (induction ans arbitrary: oc rule: rev_induct) (auto split: list.split)

lemma set_nonces_spec:
  assumes "set_nonces ans invalidated p = (ids, p')"
  shows "set ids = set invalidated \<union> {i. \<exists>a \<in> an_account ` set ans. indexed_at p i a}"
    and "main_queue p' = main_queue p" "pp_orders p' = pp_orders p" "pending_orders p' = pending_orders p"
    and "onchain_nonces p' = fold (\<lambda>an oc. oc(an_account an \<mapsto> an_nonce an)) ans (onchain_nonces p)"
    and "main_queue_nonces p' a = (if a \<in> an_account ` set ans then None else main_queue_nonces p a)"
proof -
  have "set ids = set invalidated \<union> {i. \<exists>a \<in> an_account ` set ans. indexed_at p i a} \<and>
      main_queue p' = main_queue p \<and> pp_orders p' = pp_orders p \<and> pending_orders p' = pending_orders p \<and>
      onchain_nonces p' = fold (\<lambda>an oc. oc(an_account an \<mapsto> an_nonce an)) ans (onchain_nonces p) \<and>
      (\<forall>a. main_queue_nonces p' a = (if a \<in> an_account ` set ans then None else main_queue_nonces p a))"
    using assms
  proof (induction ans arbitrary: invalidated p)
    case (Cons an ans)
    let ?p = "p\<lparr>onchain_nonces := (onchain_nonces p)(an_account an \<mapsto> an_nonce an)\<rparr>"
    show ?case
    proof (cases "main_queue_nonces p (an_account an)")
      case None
      have "set_nonces ans invalidated ?p = (ids, p')" using Cons.prems None by (simp add: Let_def)
      from Cons.IH [OF this] None show ?thesis by (auto simp: indexed_at_def)
    next
      case (Some js)
      let ?q = "?p\<lparr>main_queue_nonces := (main_queue_nonces p)(an_account an := None)\<rparr>"
      have ix: "indexed_at ?q i a \<longleftrightarrow> a \<noteq> an_account an \<and> indexed_at p i a" for i a
        by (simp add: indexed_at_def)
      have js: "indexed_at p i (an_account an) \<longleftrightarrow> i \<in> set js" for i by (simp add: indexed_at_def Some)
      have "{i. \<exists>a \<in> an_account ` set (an # ans). indexed_at p i a} =
          set js \<union> {i. \<exists>a \<in> an_account ` set ans. indexed_at ?q i a}"
        unfolding ix using js by (simp add: set_eq_iff) metis
      moreover have "set_nonces ans (invalidated @ js) ?q = (ids, p')" using Cons.prems Some by (simp add: Let_def)
      ultimately show ?thesis using Cons.IH [of "invalidated @ js" ?q] by (simp add: Un_assoc)
    qed
  qed simp
  then show "set ids = set invalidated \<union> {i. \<exists>a \<in> an_account ` set ans. indexed_at p i a}"
    "main_queue p' = main_queue p" "pp_orders p' = pp_orders p" "pending_orders p' = pending_orders p"
    "onchain_nonces p' = fold (\<lambda>an oc. oc(an_account an \<mapsto> an_nonce an)) ans (onchain_nonces p)"
    "main_queue_nonces p' a = (if a \<in> an_account ` set ans then None else main_queue_nonces p a)"
    by blast+
qed

text \<open>After the new nonces are set, the orders to check again are those whose accounts changed.\<close>

lemma set_nonces_ok:
  assumes "pp_ok pq oo {} (pp_orders p) p" "set_nonces ans [] p = (ids, p')"
  shows "pp_ok pq oo (set ids) (pp_orders p') p'" "\<forall>i \<in> set ids. items pq p' i \<noteq> None"
proof -
  note sp = set_nonces_spec [OF assms(2)]
  let ?C = "an_account ` set ans"
  have iff: "i \<in> set ids \<longleftrightarrow> (\<exists>a \<in> ?C. indexed_at p i a)" for i using sp(1) by simp
  have ix: "indexed_at p' i a \<longleftrightarrow> a \<notin> ?C \<and> indexed_at p i a" for i a by (simp add: indexed_at_def sp(6))
  have it: "items pq p' = items pq p" "pp_orders p' = pp_orders p" using sp(2,3) by simp_all
  have oc: "onchain_nonces p' a = onchain_nonces p a" if "a \<notin> ?C" for a
  proof -
    have "filter (\<lambda>an. an_account an = a) ans = []" using that by (auto simp: filter_empty_conv)
    then show ?thesis by (simp add: sp(5) fold_nonces)
  qed
  have ca: "cached p' ns" if "cached p ns" for ns
    using that by (auto simp: cached_def list_all_iff sp(5) fold_nonces split: list.split)
  show "\<forall>i \<in> set ids. items pq p' i \<noteq> None" using ok_index [OF assms(1)] iff it(1) by fastforce
  show "pp_ok pq oo (set ids) (pp_orders p') p'"
    unfolding it
  proof (rule pp_okI)
    show "order_id oo ord = i \<and> cached p' (order_nonces oo ord)" if "pp_orders p i = Some ord" for i ord
      using ok_order [OF assms(1) that] ca by blast
    show "\<exists>ord. pp_orders p i = Some ord \<and> pr = order_priority oo ord" if "items pq p' i = Some pr" for i pr
      using ok_item [OF assms(1)] that unfolding it by blast
    show "ready oo p' ord \<and> (\<forall>bn \<in> set (order_nonces oo ord). indexed_at p' i (bn_address bn))"
      if "items pq p' i \<noteq> None" "pp_orders p i = Some ord" "i \<notin> set ids" for i ord
    proof -
      have r: "ready oo p ord" "\<forall>bn \<in> set (order_nonces oo ord). indexed_at p i (bn_address bn)"
        using ok_ready [OF assms(1) _ that(2)] that(1) unfolding it by auto
      with that(3) have "\<forall>bn \<in> set (order_nonces oo ord). bn_address bn \<notin> ?C" unfolding iff by blast
      with r oc show ?thesis by (auto simp: ready_def list_all_iff ix)
    qed
    show "items pq p' i \<noteq> None \<and> (\<exists>ord. pp_orders p i = Some ord \<and> a \<in> bn_address ` set (order_nonces oo ord))"
      if "indexed_at p' i a" for i a
      using ok_index [OF assms(1)] that unfolding it ix by blast
  qed
qed

lemma complete_removed:
  assumes "pp_complete pq oo L p" "onchain_nonces p' = onchain_nonces p" "pending_orders p' = pending_orders p"
    and "pp_orders p' = (pp_orders p)(i := None)" "items pq p' = (items pq p)(i := None)"
  shows "pp_complete pq oo L p'"
  using assms(1) unfolding pp_complete_def
  by (auto simp: assms(4,5) ready_cong [OF assms(2)] waits_cong [OF assms(2)] pending_at_def assms(3) split: if_splits)

lemma complete_cong:
  assumes "pp_complete pq oo L p" "onchain_nonces p' = onchain_nonces p" "pending_orders p' = pending_orders p"
    and "pp_orders p' = pp_orders p" "items pq p' = items pq p"
  shows "pp_complete pq oo L p'"
  using assms(1) unfolding pp_complete_def
  by (simp add: assms(4,5) ready_cong [OF assms(2)] waits_cong [OF assms(2)] pending_at_def assms(3))

lemma revalidate_ok:
  assumes "pq_laws pq" "pp_ok pq oo (set ids) (pp_orders p) p" "distinct ids" "\<forall>i \<in> set ids. items pq p i \<noteq> None"
  shows "\<exists>p'. revalidate pq oo src ids p = Some (Inr (), p') \<and> pp_ok pq oo {} (pp_orders p') p' \<and>
    onchain_nonces p' = onchain_nonces p \<and> dom (pp_orders p') \<subseteq> dom (pp_orders p) \<and>
    (pp_complete pq oo L p \<longrightarrow> pp_complete pq oo L p')"
  using assms(2-4)
proof (induction ids arbitrary: p)
  case (Cons i ids)
  then obtain pr where "items pq p i = Some pr" by auto
  from ok_item [OF Cons.prems(1) this] obtain ord where ord: "pp_orders p i = Some ord" by blast
  obtain p1 where p1: "remove_popped_order oo i (p\<lparr>main_queue := snd (pq_remove pq i (main_queue p))\<rparr>) = (Some ord, p1)"
    "pp_ok pq oo (set (i # ids) - {i}) ((pp_orders p)(i := None)) p1" "pp_orders p1 = (pp_orders p)(i := None)"
    "items pq p1 = (items pq p)(i := None)" "onchain_nonces p1 = onchain_nonces p" "pending_orders p1 = pending_orders p"
    by (rule remove_popped [OF Cons.prems(1) pq_remove_items [OF assms(1)] ord ord]) blast
  have X: "set (i # ids) - {i} = set ids" using Cons.prems(2) by auto
  have id: "order_id oo ord = i" and ca: "cached p1 (order_nonces oo ord)"
    using ok_order [OF Cons.prems(1) ord] cached_cong [OF p1(5)] by auto
  note ok1 = p1(2) [unfolded X, folded p1(3)]
  have it1: "\<forall>j \<in> set ids. items pq p1 j \<noteq> None" using Cons.prems(2,3) by (auto simp: p1(4))
  have cm1: "pp_complete pq oo L p \<Longrightarrow> pp_complete pq oo L p1"
    using complete_removed [OF _ p1(5,6,3,4)] by blast
  from retain_cached [OF ca] obtain b where b: "retain_scan src (order_nonces oo ord) 0 p1 = (Inr b, p1)" by blast
  show ?case
  proof (cases b)
    case False
    with Cons.IH [OF ok1 _ it1] Cons.prems(2) p1(1,3,5) b cm1 show ?thesis by (fastforce simp: Let_def)
  next
    case True
    have n: "pp_orders p1 i = None" "items pq p1 i = None" by (simp_all add: p1(3,4))
    let ?M = "(pp_orders p1)(i \<mapsto> ord)"
    have okM: "pp_ok pq oo (set ids) ?M p1" by (rule ok_add [OF ok1 n(2) id ca n(1)])
    obtain p2 where p2: "insert_order pq oo src ord p1 = (Inr (), p2)" "inserted pq oo (set ids) ?M ord p1 p2"
      using insert_cached [OF assms(1) okM _ n(1), of ord] Cons.prems(2) by fastforce
    obtain M' where M': "pp_ok pq oo (set ids) M' p2" "pp_orders p2 = pp_orders p1 \<and> M' = ?M(i := None) \<or>
        pp_orders p2 = ?M \<and> M' = ?M"
      using inserted_facts(3) [OF p2(2)] n(1) id by auto
    have "M' = pp_orders p2" using M'(2) n(1) by (auto simp: fun_upd_idem)
    with M'(1) have ok2: "pp_ok pq oo (set ids) (pp_orders p2) p2" by simp
    have it2: "\<forall>j \<in> set ids. items pq p2 j \<noteq> None"
      using it1 inserted_facts(2) [OF p2(2)] n(1) id by simp
    have cm2: "pp_complete pq oo L p1 \<Longrightarrow> pp_complete pq oo L p2"
      using inserted_complete [OF p2(2)] n(1) id by simp
    have oc2: "onchain_nonces p2 = onchain_nonces p1" using inserted_facts(1) [OF p2(2)] n(1) id by simp
    have "dom (pp_orders p2) \<subseteq> dom (pp_orders p)"
      using M'(2) ord by (auto simp: p1(3) split: if_splits)
    with Cons.IH [OF ok2 _ it2] Cons.prems(2) p1(1,5) b True p2(1) cm1 cm2 oc2 show ?thesis
      by (fastforce simp: Let_def)
  qed
qed simp

subsection \<open>Waking orders\<close>

lemma take_orders_spec:
  assumes "take_orders ids p = (os, p')" "\<And>i ord. pp_orders p i = Some ord \<Longrightarrow> order_id oo ord = i"
  shows "p' = p\<lparr>pp_orders := pp_orders p |` (- set ids)\<rparr>" "distinct (map (order_id oo) os)"
    and "ord \<in> set os \<longleftrightarrow> order_id oo ord \<in> set ids \<and> pp_orders p (order_id oo ord) = Some ord"
proof -
  have "p' = p\<lparr>pp_orders := pp_orders p |` (- set ids)\<rparr> \<and> distinct (map (order_id oo) os) \<and>
      (\<forall>ord. ord \<in> set os \<longleftrightarrow> order_id oo ord \<in> set ids \<and> pp_orders p (order_id oo ord) = Some ord)"
    using assms
  proof (induction ids arbitrary: p os p')
    case (Cons i ids)
    let ?p = "p\<lparr>pp_orders := (pp_orders p)(i := None)\<rparr>"
    obtain os' q where t: "take_orders ids ?p = (os', q)" by fastforce
    have ids: "order_id oo ord = j" if "pp_orders ?p j = Some ord" for j ord
      using Cons.prems(2) that by (auto split: if_splits)
    note IH = Cons.IH [OF t ids]
    have r: "pp_orders ?p |` (- set ids) = pp_orders p |` (- set (i # ids))"
      by (auto simp: restrict_map_def)
    have "q = ?p\<lparr>pp_orders := pp_orders p |` (- set (i # ids))\<rparr>" using conjunct1 [OF IH] unfolding r .
    then have q: "q = p\<lparr>pp_orders := pp_orders p |` (- set (i # ids))\<rparr>" by simp
    have os': "distinct (map (order_id oo) os')"
      "ord \<in> set os' \<longleftrightarrow> order_id oo ord \<in> set ids \<and> order_id oo ord \<noteq> i \<and> pp_orders p (order_id oo ord) = Some ord" for ord
      using conjunct2 [OF IH] by auto
    show ?case
    proof (cases "pp_orders p i")
      case None
      with Cons.prems(1) t have eq: "os = os'" "p' = q" by (simp_all add: remove_from_orders_def)
      show ?thesis unfolding eq
      proof (intro conjI q os'(1) allI)
        show "ord \<in> set os' \<longleftrightarrow> order_id oo ord \<in> set (i # ids) \<and> pp_orders p (order_id oo ord) = Some ord" for ord
          unfolding os'(2) using None by (cases "order_id oo ord = i") simp_all
      qed
    next
      case (Some ord)
      with Cons.prems(1) t have eq: "os = ord # os'" "p' = q" by (simp_all add: remove_from_orders_def)
      have id: "order_id oo ord = i" by (rule Cons.prems(2) [OF Some])
      show ?thesis unfolding eq
      proof (intro conjI q allI)
        show "distinct (map (order_id oo) (ord # os'))" using os'(1) id by (auto simp: os'(2))
        show "o' \<in> set (ord # os') \<longleftrightarrow> order_id oo o' \<in> set (i # ids) \<and> pp_orders p (order_id oo o') = Some o'" for o'
          using Some id by (cases "order_id oo o' = i") (auto simp: os'(2))
      qed
    qed
  next
    case Nil
    have "pp_orders p |` UNIV = pp_orders p" by (simp add: restrict_map_def)
    with Nil show ?case by simp
  qed
  then show "p' = p\<lparr>pp_orders := pp_orders p |` (- set ids)\<rparr>" "distinct (map (order_id oo) os)"
    "ord \<in> set os \<longleftrightarrow> order_id oo ord \<in> set ids \<and> pp_orders p (order_id oo ord) = Some ord" by auto
qed

text \<open>Inserting orders again that were taken out of the pool: \<open>M\<close> is the pool with them.\<close>

lemma insert_orders_ok:
  assumes "pq_laws pq" "pp_ok pq oo {} M p" "distinct (map (order_id oo) os)"
    and "\<forall>ord \<in> set os. M (order_id oo ord) = Some ord \<and> pp_orders p (order_id oo ord) = None"
    and "\<forall>i. i \<notin> order_id oo ` set os \<longrightarrow> M i = pp_orders p i"
  shows "\<exists>p'. insert_orders pq oo src os p = (Inr (), p') \<and> pp_ok pq oo {} (pp_orders p') p' \<and>
    onchain_nonces p' = onchain_nonces p \<and> dom (pp_orders p') \<subseteq> dom M \<and>
    (pp_complete pq oo L p \<longrightarrow> pp_complete pq oo L p')"
  using assms(2-5)
proof (induction os arbitrary: M p)
  case Nil
  then have "M = pp_orders p" by auto
  with Nil show ?case by auto
next
  case (Cons ord os)
  let ?i = "order_id oo ord"
  have M: "M ?i = Some ord" and n: "pp_orders p ?i = None" using Cons.prems(3) by simp_all
  obtain p1 where p1: "insert_order pq oo src ord p = (Inr (), p1)" "inserted pq oo {} M ord p p1"
    using insert_cached [OF assms(1) Cons.prems(1) M n, of src] by blast
  note f = inserted_facts [OF p1(2) n M]
  from f(3) obtain M' where M': "pp_ok pq oo {} M' p1" "pp_orders p1 = pp_orders p \<and> M' = M(?i := None) \<or>
      pp_orders p1 = (pp_orders p)(?i \<mapsto> ord) \<and> M' = M" by blast
  have "?i \<notin> order_id oo ` set os" "distinct (map (order_id oo) os)" using Cons.prems(2) by auto
  then have "\<forall>o' \<in> set os. M' (order_id oo o') = Some o' \<and> pp_orders p1 (order_id oo o') = None"
    and "\<forall>i. i \<notin> order_id oo ` set os \<longrightarrow> M' i = pp_orders p1 i"
    using M'(2) Cons.prems(3,4) M n by (auto simp: image_iff)
  from Cons.IH [OF M'(1) \<open>distinct (map (order_id oo) os)\<close> this] obtain p' where p':
    "insert_orders pq oo src os p1 = (Inr (), p')" "pp_ok pq oo {} (pp_orders p') p'"
    "onchain_nonces p' = onchain_nonces p1" "dom (pp_orders p') \<subseteq> dom M'"
    "pp_complete pq oo L p1 \<longrightarrow> pp_complete pq oo L p'" by blast
  have "dom M' \<subseteq> dom M" using M'(2) by (auto split: if_splits)
  with p' p1(1) f(1) inserted_complete [OF p1(2) n] show ?case by auto
qed

text \<open>Taking the orders that wait for an entry out of the pool leaves the others complete without it.\<close>

lemma taken_complete:
  assumes "pending_orders p an = Some ids" "main_queue p1 = main_queue p" "onchain_nonces p1 = onchain_nonces p"
    and "pp_orders p1 = pp_orders p |` (- set ids)" "pending_orders p1 = (pending_orders p)(an := None)"
    and all: "pp_complete pq oo (insert an L) p"
  shows "pp_complete pq oo L p1"
  unfolding pp_complete_def
proof (intro allI impI)
  fix i ord assume i: "pp_orders p1 i = Some ord" "items pq p1 i = None"
  then have "pp_orders p i = Some ord" "items pq p i = None" "i \<notin> set ids"
    by (auto simp: assms(2-5) restrict_map_def split: if_splits)
  moreover have "pending_at p1 i an' = pending_at p i an'" "\<not> pending_at p i an" for an'
    using \<open>i \<notin> set ids\<close> assms(1) by (auto simp: pending_at_def assms(5))
  moreover have "ready oo p1 ord = ready oo p ord" "waits p1 bn = waits p bn" for bn
    by (simp_all add: assms(3) ready_def waits_def)
  ultimately show "(\<forall>bn \<in> set (order_nonces oo ord). waits p1 bn \<longrightarrow> pending_at p1 i (bn_key bn)) \<and>
      (ready oo p1 ord \<longrightarrow> (\<exists>an \<in> L. pending_at p1 i an))"
    using all unfolding pp_complete_def by (metis insertE)
qed

lemma wake_pending_ok:
  assumes "pq_laws pq" "pp_ok pq oo {} (pp_orders p) p"
  shows "\<exists>p'. wake_pending pq oo src ans p = (Inr (), p') \<and> pp_ok pq oo {} (pp_orders p') p' \<and>
    onchain_nonces p' = onchain_nonces p \<and> dom (pp_orders p') \<subseteq> dom (pp_orders p) \<and>
    (pp_complete pq oo (set ans) p \<longrightarrow> pp_complete pq oo {} p')"
  using assms(2)
proof (induction ans arbitrary: p)
  case (Cons an ans)
  show ?case
  proof (cases "pending_orders p an")
    case None
    then have "\<not> pending_at p i an" for i by (simp add: pending_at_def)
    then have "pp_complete pq oo (set (an # ans)) p \<Longrightarrow> pp_complete pq oo (set ans) p"
      unfolding pp_complete_def by (metis set_ConsD)
    with None Cons.IH [OF Cons.prems] show ?thesis by auto
  next
    case (Some ids)
    let ?p = "p\<lparr>pending_orders := (pending_orders p)(an := None)\<rparr>"
    obtain os p1 where t: "take_orders ids ?p = (os, p1)" by fastforce
    have idp: "pp_orders ?p i = Some ord \<Longrightarrow> order_id oo ord = i" for i ord
      using ok_order [OF Cons.prems, of i ord] by simp
    note tk = take_orders_spec [OF t idp]
    have p1: "main_queue p1 = main_queue p" "main_queue_nonces p1 = main_queue_nonces p"
      "onchain_nonces p1 = onchain_nonces p" "pp_orders p1 = pp_orders p |` (- set ids)"
      "pending_orders p1 = (pending_orders p)(an := None)"
      using tk(1) by simp_all
    have ok1: "pp_ok pq oo {} (pp_orders p) p1" by (metis pp_ok_cong Cons.prems p1(1-3))
    have taken: "\<forall>ord \<in> set os. pp_orders p (order_id oo ord) = Some ord \<and> pp_orders p1 (order_id oo ord) = None"
      using tk(3) by (simp add: p1(4) restrict_map_def)
    have "i \<notin> set ids" if i: "i \<notin> order_id oo ` set os" and n: "pp_orders p i \<noteq> None" for i
    proof
      assume "i \<in> set ids"
      moreover obtain ord where "pp_orders p i = Some ord" using n by blast
      ultimately show False using idp [of i ord] tk(3) [of ord] i by force
    qed
    then have rest: "\<forall>i. i \<notin> order_id oo ` set os \<longrightarrow> pp_orders p i = pp_orders p1 i"
      unfolding p1(4) restrict_map_def by (metis Compl_iff)
    have cm: "pp_complete pq oo (set (an # ans)) p \<Longrightarrow> pp_complete pq oo (set ans) p1"
      using taken_complete [OF Some p1(1,3-5)] by simp
    from insert_orders_ok [OF assms(1) ok1 tk(2) taken rest, of src "set ans"] obtain p2 where p2:
      "insert_orders pq oo src os p1 = (Inr (), p2)" "pp_ok pq oo {} (pp_orders p2) p2"
      "onchain_nonces p2 = onchain_nonces p1" "dom (pp_orders p2) \<subseteq> dom (pp_orders p)"
      "pp_complete pq oo (set ans) p1 \<longrightarrow> pp_complete pq oo (set ans) p2" by blast
    note p2 = this
    from Cons.IH [OF p2(2)] obtain p' where p': "wake_pending pq oo src ans p2 = (Inr (), p')"
      "pp_ok pq oo {} (pp_orders p') p'" "onchain_nonces p' = onchain_nonces p2"
      "dom (pp_orders p') \<subseteq> dom (pp_orders p2)" "pp_complete pq oo (set ans) p2 \<longrightarrow> pp_complete pq oo {} p'" by blast
    moreover have "wake_pending pq oo src (an # ans) p = (Inr (), p')" using Some t p2(1) p'(1) by simp
    ultimately show ?thesis using p1(3) p2(3,5) cm subset_trans [OF p'(4) p2(4)] by auto
  qed
qed auto

subsection \<open>Operations keep the invariant\<close>

abbreviation pp_inv :: "('q, 'id, 'p) priority_queue \<Rightarrow> ('o, 'id, 'p) orderpool_order \<Rightarrow>
    ('q, 'id, 'o) prioritized_orderpool \<Rightarrow> bool" where
  "pp_inv pq oo p \<equiv> pp_ok pq oo {} (pp_orders p) p"

lemma default_ok: "pq_laws pq \<Longrightarrow> pp_inv pq oo (pp_default pq) \<and> pp_complete pq oo {} (pp_default pq)"
  by (simp add: pp_ok_def pp_complete_def pp_default_def pq_laws_def indexed_at_def)

lemma pop_complete_empty:
  "pop_order pq oo p = Some (None, p') \<Longrightarrow> onchain_nonces p' = onchain_nonces p \<and> pending_orders p' = pending_orders p"
  by (auto simp: pop_order_def split: prod.splits option.splits)

lemma pop_ok:
  assumes "pq_laws pq" "pp_inv pq oo p"
  obtains (empty) p' where "pop_order pq oo p = Some (None, p')" "items pq p = Map.empty" "items pq p' = Map.empty"
      "pp_orders p' = pp_orders p" "pp_inv pq oo p'"
  | (popped) i ord p' where "pop_order pq oo p = Some (Some ord, p')" "items pq p i = Some (order_priority oo ord)"
      "pp_orders p i = Some ord" "pp_orders p' = (pp_orders p)(i := None)" "pp_inv pq oo p'"
      "\<And>j pr. items pq p j = Some pr \<Longrightarrow> pr \<le> order_priority oo ord"
      "items pq p' = (items pq p)(i := None)" "onchain_nonces p' = onchain_nonces p" "pending_orders p' = pending_orders p"
proof (cases "pq_pop pq (main_queue p)")
  case (Pair r q)
  show thesis
  proof (cases r)
    case None
    with Pair have e: "items pq p = Map.empty" "pq_items pq q = Map.empty" using pq_pop_None [OF assms(1)] by blast+
    have "pp_ok pq oo {} (pp_orders p) (p\<lparr>main_queue := q\<rparr>)"
      using assms(2) e unfolding pp_ok_def by (simp add: indexed_at_def cached_def ready_def)
    with None Pair e show thesis by (intro empty [of "p\<lparr>main_queue := q\<rparr>"]) (simp_all add: pop_order_def)
  next
    case (Some x)
    obtain i pr where x: "x = (i, pr)" by fastforce
    note pp = pq_pop_Some [OF assms(1) Pair [unfolded Some x]]
    from ok_item [OF assms(2) pp(1)] obtain ord where ord: "pp_orders p i = Some ord" "pr = order_priority oo ord" by blast
    from remove_popped [OF assms(2) pp(2) ord(1) ord(1)] obtain p' where
      "remove_popped_order oo i (p\<lparr>main_queue := q\<rparr>) = (Some ord, p')"
      "pp_ok pq oo ({} - {i}) ((pp_orders p)(i := None)) p'" "pp_orders p' = (pp_orders p)(i := None)"
      "items pq p' = (items pq p)(i := None)"
      "onchain_nonces p' = onchain_nonces p" "pending_orders p' = pending_orders p" by blast
    with Pair Some x ord pp show thesis
      by (intro popped [of ord p' i]) (simp_all add: pop_order_def)
  qed
qed

lemma complete_extend:
  assumes "pp_inv pq oo p" "onchain_nonces p \<subseteq>\<^sub>m oc" "pp_complete pq oo L p"
  shows "pp_complete pq oo L (p\<lparr>onchain_nonces := oc\<rparr>)"
  unfolding pp_complete_def
proof (intro allI impI)
  let ?p = "p\<lparr>onchain_nonces := oc\<rparr>"
  fix j o' assume j: "pp_orders ?p j = Some o'" "items pq ?p j = None"
  have "cached p (order_nonces oo o')" using ok_order [OF assms(1), of j o'] j by simp
  then have "\<forall>bn \<in> set (order_nonces oo o'). oc (bn_address bn) = onchain_nonces p (bn_address bn)"
    using assms(2) by (fastforce simp: cached_def list_all_iff map_le_def dom_def)
  then have "ready oo ?p o' = ready oo p o'" "\<forall>bn \<in> set (order_nonces oo o'). waits ?p bn = waits p bn"
    by (auto simp: ready_def waits_def list_all_iff)
  moreover have "pending_at ?p j an = pending_at p j an" for an by (simp add: pending_at_def)
  ultimately show "(\<forall>bn \<in> set (order_nonces oo o'). waits ?p bn \<longrightarrow> pending_at ?p j (bn_key bn)) \<and>
      (ready oo ?p o' \<longrightarrow> (\<exists>an \<in> L. pending_at ?p j an))"
    using assms(3) j unfolding pp_complete_def by simp
qed

lemma insert_ok:
  assumes "pq_laws pq" "pp_inv pq oo p" "insert_order pq oo src ord p = (r, p')"
  shows "pp_inv pq oo p'" "pp_complete pq oo {} p \<Longrightarrow> pp_complete pq oo {} p'"
    and "dom (pp_orders p') \<subseteq> insert (order_id oo ord) (dom (pp_orders p))"
proof -
  let ?i = "order_id oo ord"
  have "pp_inv pq oo p' \<and> (pp_complete pq oo {} p \<longrightarrow> pp_complete pq oo {} p') \<and>
      dom (pp_orders p') \<subseteq> insert ?i (dom (pp_orders p))"
  proof (cases "pp_orders p ?i")
    case (Some x)
    with assms show ?thesis by (auto simp: insert_order_def)
  next
    case None
    obtain res p1 where sc: "insert_scan src (order_nonces oo ord) [] p = (res, p1)" by fastforce
    from scan_extends [OF sc] obtain oc where oc: "p1 = p\<lparr>onchain_nonces := oc\<rparr>" "onchain_nonces p \<subseteq>\<^sub>m oc"
      "\<forall>l. res = Inr (Some l) \<longrightarrow> cached p1 (order_nonces oo ord)" by blast
    have p1: "pp_orders p1 = pp_orders p" "items pq p1 = items pq p" using oc(1) by simp_all
    have ok1: "pp_inv pq oo p1" using ok_extend [OF assms(2) oc(2)] by (simp add: oc(1))
    have cm1: "pp_complete pq oo {} p \<Longrightarrow> pp_complete pq oo {} p1"
      using complete_extend [OF assms(2) oc(2)] by (simp add: oc(1))
    show ?thesis
    proof (cases "\<exists>l. res = Inr (Some l)")
      case False
      then have "p' = p1" using assms(3) sc None by (auto simp: insert_order_def Let_def split: sum.splits option.splits)
      with ok1 cm1 p1 show ?thesis by auto
    next
      case True
      then have ca: "cached p1 (order_nonces oo ord)" using oc(3) by blast
      have "insert_scan src (order_nonces oo ord) [] p1 = (res, p1)"
        using True sc scan_same by blast
      then have run: "insert_order pq oo src ord p1 = (r, p')"
        using assms(3) sc None p1(1) by (simp add: insert_order_def Let_def)
      have n: "pp_orders p1 ?i = None" "items pq p1 ?i = None"
        using None p1 ok_item [OF assms(2), of ?i] by (auto, metis not_None_eq option.distinct(1))
      have okM: "pp_ok pq oo {} ((pp_orders p1)(?i \<mapsto> ord)) p1" by (rule ok_add [OF ok1 n(2) refl ca n(1)])
      have "\<exists>p2. insert_order pq oo src ord p1 = (Inr (), p2) \<and> inserted pq oo {} ((pp_orders p1)(?i \<mapsto> ord)) ord p1 p2"
        by (rule insert_cached [OF assms(1) okM _ n(1)]) simp_all
      with run have ins: "inserted pq oo {} ((pp_orders p1)(?i \<mapsto> ord)) ord p1 p'" by simp
      from inserted_facts(3) [OF ins n(1)] n(1) p1(1) inserted_complete [OF ins n(1)] cm1 show ?thesis
        by (auto simp: fun_upd_idem split: if_splits)
    qed
  qed
  then show "pp_inv pq oo p'" "pp_complete pq oo {} p \<Longrightarrow> pp_complete pq oo {} p'"
    "dom (pp_orders p') \<subseteq> insert ?i (dom (pp_orders p))" by blast+
qed

definition nonces_grow :: "('q, 'id, 'o) prioritized_orderpool \<Rightarrow> account_nonce list \<Rightarrow> bool" where
  "nonces_grow p ans \<longleftrightarrow>
     list_all (\<lambda>an. case onchain_nonces p (an_account an) of Some m \<Rightarrow> m \<le> an_nonce an | None \<Rightarrow> True) ans"

lemma set_nonces_value:
  assumes "set_nonces ans [] p = (ids, p')" "onchain_nonces p a = Some m" "nonces_grow p ans"
  shows "\<exists>m'. onchain_nonces p' a = Some m' \<and> m \<le> m' \<and> (m' = m \<or> \<lparr>an_account = a, an_nonce = m'\<rparr> \<in> set ans)"
proof (cases "rev (filter (\<lambda>an. an_account an = a) ans)")
  case Nil
  then show ?thesis using assms(2) by (simp add: set_nonces_spec(5) [OF assms(1)] fold_nonces)
next
  case (Cons an rest)
  then have "an \<in> set (rev (filter (\<lambda>an. an_account an = a) ans))" by simp
  then have an: "an \<in> set ans" "an_account an = a" by auto
  then have "m \<le> an_nonce an" using assms(2,3) by (auto simp: nonces_grow_def list_all_iff)
  moreover have "\<lparr>an_account = a, an_nonce = an_nonce an\<rparr> \<in> set ans" using an by (metis account_nonce.surjective unit.exhaust)
  moreover have "onchain_nonces p' a = Some (an_nonce an)"
    using Cons by (simp add: set_nonces_spec(5) [OF assms(1)] fold_nonces)
  ultimately show ?thesis by blast
qed

lemma set_nonces_complete:
  assumes "pp_inv pq oo p" "set_nonces ans [] p = (ids, p')" "nonces_grow p ans" "pp_complete pq oo {} p"
  shows "pp_complete pq oo (set ans) p'"
  unfolding pp_complete_def
proof (intro allI impI)
  note sp = set_nonces_spec [OF assms(2)]
  fix i ord assume i: "pp_orders p' i = Some ord" "items pq p' i = None"
  then have "pp_orders p i = Some ord" "items pq p i = None" by (simp_all add: sp(2,3))
  with assms(4) have cm: "\<And>bn. bn \<in> set (order_nonces oo ord) \<Longrightarrow> waits p bn \<Longrightarrow> pending_at p i (bn_key bn)"
    "\<not> ready oo p ord" unfolding pp_complete_def by blast+
  have ca: "cached p (order_nonces oo ord)" using ok_order [OF assms(1), of i ord] i sp(3) by simp
  have val: "\<exists>m m'. onchain_nonces p (bn_address bn) = Some m \<and> onchain_nonces p' (bn_address bn) = Some m' \<and> m \<le> m' \<and>
      (m' = m \<or> \<lparr>an_account = bn_address bn, an_nonce = m'\<rparr> \<in> set ans)" if inn: "bn \<in> set (order_nonces oo ord)" for bn
  proof -
    obtain m where "onchain_nonces p (bn_address bn) = Some m"
      using ca inn by (cases "onchain_nonces p (bn_address bn)") (auto simp: cached_def list_all_iff)
    from set_nonces_value [OF assms(2) this assms(3)] this show ?thesis by blast
  qed
  have pd: "pending_at p' j an = pending_at p j an" for j an by (simp add: pending_at_def sp(4))
  show "(\<forall>bn \<in> set (order_nonces oo ord). waits p' bn \<longrightarrow> pending_at p' i (bn_key bn)) \<and>
      (ready oo p' ord \<longrightarrow> (\<exists>an \<in> set ans. pending_at p' i an))"
  proof (intro conjI ballI impI)
    fix bn assume bn: "bn \<in> set (order_nonces oo ord)" "waits p' bn"
    from val [OF bn(1)] obtain m m' where "onchain_nonces p (bn_address bn) = Some m"
      "onchain_nonces p' (bn_address bn) = Some m'" "m \<le> m'" by blast
    with bn(2) have "waits p bn" by (auto simp: waits_def intro: le_less_trans)
    then show "pending_at p' i (bn_key bn)" unfolding pd by (rule cm(1) [OF bn(1)])
  next
    assume "ready oo p' ord"
    from cm(2) obtain bn where bn: "bn \<in> set (order_nonces oo ord)" "\<not> bn_optional bn"
      "onchain_nonces p (bn_address bn) \<noteq> Some (bn_nonce bn)" by (auto simp: ready_def list_all_iff)
    with \<open>ready oo p' ord\<close> have "onchain_nonces p' (bn_address bn) = Some (bn_nonce bn)"
      by (auto simp: ready_def list_all_iff)
    moreover from val [OF bn(1)] obtain m m' where "onchain_nonces p (bn_address bn) = Some m"
      "onchain_nonces p' (bn_address bn) = Some m'" "m \<le> m'"
      "m' = m \<or> \<lparr>an_account = bn_address bn, an_nonce = m'\<rparr> \<in> set ans" by blast
    ultimately have "waits p bn" "bn_key bn \<in> set ans" using bn(2,3) by (simp_all add: waits_def bn_key_def)
    with cm(1) [OF bn(1)] show "\<exists>an \<in> set ans. pending_at p' i an" unfolding pd by blast
  qed
qed

lemma update_ok:
  assumes "pq_laws pq" "set_iter_laws set_iter" "pp_inv pq oo p"
  shows "\<exists>p'. update_onchain_nonces pq oo set_iter ans src p = Some (Inr (), p') \<and> pp_inv pq oo p' \<and>
    dom (pp_orders p') \<subseteq> dom (pp_orders p) \<and>
    (nonces_grow p ans \<longrightarrow> pp_complete pq oo {} p \<longrightarrow> pp_complete pq oo {} p')"
proof -
  obtain ids p1 where sn: "set_nonces ans [] p = (ids, p1)" by fastforce
  note ok1 = set_nonces_ok [OF assms(3) sn]
  have it: "set (set_iter ids) = set ids" "distinct (set_iter ids)" using assms(2) by (auto simp: set_iter_laws_def)
  from revalidate_ok [OF assms(1), of oo "set_iter ids" p1 src "set ans"] ok1 it obtain p2 where p2:
    "revalidate pq oo src (set_iter ids) p1 = Some (Inr (), p2)" "pp_inv pq oo p2"
    "dom (pp_orders p2) \<subseteq> dom (pp_orders p1)" "pp_complete pq oo (set ans) p1 \<longrightarrow> pp_complete pq oo (set ans) p2"
    by auto
  from wake_pending_ok [OF assms(1) p2(2), of src ans] obtain p3 where p3:
    "wake_pending pq oo src ans p2 = (Inr (), p3)" "pp_inv pq oo p3" "dom (pp_orders p3) \<subseteq> dom (pp_orders p2)"
    "pp_complete pq oo (set ans) p2 \<longrightarrow> pp_complete pq oo {} p3" by blast
  have "dom (pp_orders p3) \<subseteq> dom (pp_orders p)"
    using p3(3) p2(3) set_nonces_spec(3) [OF sn] by auto
  moreover have "update_onchain_nonces pq oo set_iter ans src p = Some (Inr (), p3)"
    by (simp add: update_onchain_nonces_def sn p2(1) p3(1))
  ultimately show ?thesis
    using p2(4) p3(2,4) set_nonces_complete [OF assms(3) sn] by blast
qed

lemma remove_ok:
  assumes "pq_laws pq" "pp_inv pq oo p" "pp_remove_order pq oo i p = (r, p')"
  shows "pp_inv pq oo p'" "pp_complete pq oo {} p \<Longrightarrow> pp_complete pq oo {} p'"
    and "pp_orders p' = (pp_orders p)(i := None)" "items pq p' i = None"
    and "r = (if items pq p i = None then pp_orders p i else None)"
proof -
  obtain x q where q: "pq_remove pq i (main_queue p) = (x, q)" by fastforce
  have x: "x = map_option (Pair i) (items pq p i)" "pq_items pq q = (items pq p)(i := None)"
    using pq_remove_result [OF assms(1), of i "main_queue p"] pq_remove_items [OF assms(1), of i "main_queue p"] q
    by simp_all
  have "pp_inv pq oo p' \<and> (pp_complete pq oo {} p \<longrightarrow> pp_complete pq oo {} p') \<and>
      pp_orders p' = (pp_orders p)(i := None) \<and> items pq p' i = None \<and>
      r = (if items pq p i = None then pp_orders p i else None)"
  proof (cases "items pq p i")
    case None
    let ?p = "p\<lparr>main_queue := q, pp_orders := (pp_orders p)(i := None)\<rparr>"
    have eqs: "p' = ?p" "r = pp_orders p i"
      using assms(3) q x(1) None by (simp_all add: pp_remove_order_def remove_from_orders_def)
    have it: "pq_items pq q = items pq p" using x(2) None by (simp add: fun_upd_idem)
    have "pp_ok pq oo {} ((pp_orders p)(i := None)) ?p"
      using ok_drop [OF assms(2) None] it unfolding pp_ok_def by (simp add: indexed_at_def cached_def ready_def)
    moreover have "(items pq p)(i := None) = items pq p" using None by auto
    then have "pp_complete pq oo {} p \<Longrightarrow> pp_complete pq oo {} ?p"
      by (intro complete_removed [where i = i and p = p and p' = ?p]) (simp_all add: it)
    ultimately show ?thesis using None by (simp add: eqs it)
  next
    case (Some pr)
    from ok_item [OF assms(2) Some] obtain ord where ord: "pp_orders p i = Some ord" by blast
    from remove_popped [OF assms(2) x(2) ord ord] obtain p1 where p1:
      "remove_popped_order oo i (p\<lparr>main_queue := q\<rparr>) = (Some ord, p1)"
      "pp_ok pq oo ({} - {i}) ((pp_orders p)(i := None)) p1" "pp_orders p1 = (pp_orders p)(i := None)"
      "items pq p1 = (items pq p)(i := None)"
      "onchain_nonces p1 = onchain_nonces p" "pending_orders p1 = pending_orders p" by blast
    have "p1\<lparr>pp_orders := pp_orders p1\<rparr> = p1" by simp
    then have upd: "p1\<lparr>pp_orders := (pp_orders p)(i := None)\<rparr> = p1" unfolding p1(3) .
    have "p' = p1\<lparr>pp_orders := (pp_orders p)(i := None)\<rparr>" and "r = None"
      using assms(3) q x(1) Some p1(1,3) by (simp_all add: pp_remove_order_def remove_from_orders_def)
    then have eqs: "p' = p1" "r = None" unfolding upd .
    show ?thesis using p1(2-4) Some complete_removed [OF _ p1(5,6,3,4)] by (simp add: eqs)
  qed
  then show "pp_inv pq oo p'" "pp_complete pq oo {} p \<Longrightarrow> pp_complete pq oo {} p'"
    "pp_orders p' = (pp_orders p)(i := None)" "items pq p' i = None"
    "r = (if items pq p i = None then pp_orders p i else None)" by blast+
qed

subsection \<open>Reachable pools\<close>

text \<open>
  The pools the operations produce, each with whatever nonce source and arguments. With the flag
  \<open>grow\<close>, updates never lower a nonce the pool knows.
\<close>

inductive pp_reach ::
    "bool \<Rightarrow> ('q, 'id, 'p) priority_queue \<Rightarrow> ('o, 'id, 'p) orderpool_order \<Rightarrow> ('id list \<Rightarrow> 'id list) \<Rightarrow>
     ('q, 'id, 'o) prioritized_orderpool \<Rightarrow> bool"
  for grow pq oo set_iter where
  reach_new: "pp_reach grow pq oo set_iter (pp_default pq)"
| reach_insert: "pp_reach grow pq oo set_iter p \<Longrightarrow> insert_order pq oo (src :: string nonce_source) ord p = (r, p') \<Longrightarrow>
    pp_reach grow pq oo set_iter p'"
| reach_pop: "pp_reach grow pq oo set_iter p \<Longrightarrow> pop_order pq oo p = Some (x, p') \<Longrightarrow>
    pp_reach grow pq oo set_iter p'"
| reach_remove: "pp_reach grow pq oo set_iter p \<Longrightarrow> pp_remove_order pq oo i p = (x, p') \<Longrightarrow>
    pp_reach grow pq oo set_iter p'"
| reach_update: "pp_reach grow pq oo set_iter p \<Longrightarrow>
    update_onchain_nonces pq oo set_iter ans (src :: string nonce_source) p = Some (r, p') \<Longrightarrow>
    grow \<longrightarrow> nonces_grow p ans \<Longrightarrow> pp_reach grow pq oo set_iter p'"

lemma reach_inv:
  assumes "pp_reach grow pq oo set_iter p" "pq_laws pq" "set_iter_laws set_iter"
  shows "pp_inv pq oo p \<and> (grow \<longrightarrow> pp_complete pq oo {} p)"
  using assms(1)
proof (induction rule: pp_reach.induct)
  case reach_new
  then show ?case using default_ok [OF assms(2)] by blast
next
  case (reach_insert p src ord r p')
  with insert_ok [OF assms(2) _ reach_insert(2)] show ?case by blast
next
  case (reach_pop p x p')
  from reach_pop(3) have inv: "pp_inv pq oo p" by blast
  show ?case
    using assms(2) inv
  proof (cases rule: pop_ok)
    case (empty q)
    have "pp_complete pq oo {} p \<Longrightarrow> pp_complete pq oo {} q"
      by (rule complete_cong) (simp_all add: empty(4) pop_complete_empty [OF empty(1)] trans [OF empty(3) empty(2) [symmetric]])
    with empty reach_pop show ?thesis by simp
  next
    case (popped i ord q)
    then have eq: "p' = q" using reach_pop(2) by simp
    show ?thesis unfolding eq using reach_pop(3) popped(5) complete_removed [OF _ popped(8,9,4,7)] by blast
  qed
next
  case (reach_remove p i x p')
  with remove_ok [OF assms(2) _ reach_remove(2)] show ?case by blast
next
  case (reach_update p ans src r p')
  with update_ok [OF assms(2,3), of oo p ans src] show ?case by auto
qed

text \<open>The orders of a reachable pool are finitely many.\<close>

lemma reach_finite:
  assumes "pp_reach grow pq oo set_iter p" "pq_laws pq" "set_iter_laws set_iter"
  shows "finite (dom (pp_orders p))"
  using assms(1)
proof (induction rule: pp_reach.induct)
  case reach_new
  then show ?case by (simp add: pp_default_def)
next
  case (reach_insert p src ord r p')
  with reach_inv [OF reach_insert(1) assms(2,3)] insert_ok(3) [OF assms(2) _ reach_insert(2)]
  show ?case by (meson finite.insertI finite_subset)
next
  case (reach_pop p x p')
  from reach_inv [OF reach_pop(1) assms(2,3)] have inv: "pp_inv pq oo p" by blast
  show ?case
    using assms(2) inv
  proof (cases rule: pop_ok)
    case (popped i ord q)
    with reach_pop(2) have "dom (pp_orders p') \<subseteq> dom (pp_orders p)" by (auto split: if_splits)
    with reach_pop(3) show ?thesis by (blast intro: finite_subset)
  qed (use reach_pop in simp)
next
  case (reach_remove p i x p')
  with reach_inv [OF reach_remove(1) assms(2,3)] remove_ok(3) [OF assms(2) _ reach_remove(2)]
  have "dom (pp_orders p') \<subseteq> dom (pp_orders p)" by (auto split: if_splits)
  with reach_remove(3) show ?case by (blast intro: finite_subset)
next
  case (reach_update p ans src r p')
  with reach_inv [OF reach_update(1) assms(2,3)] update_ok [OF assms(2,3), of oo p ans src]
  show ?case by (auto intro: finite_subset)
qed

end
