(* ===== verification/Priority_Append.thy ===== *)
theory Priority_Append
  imports Priority_Pool "HOL-Library.Product_Lexorder" "HOL-Library.AList"
begin

section \<open>Appending orders by priority\<close>

text \<open>
  \<open>crates/pipeline/src/orderpool2/prioritized_pool/step.rs\<close>: bundles as orders of the prioritized
  pool, with the lowest nonce of each signer and the effective gas price as priority, checkpoints
  as nonce sources, and the step \<open>AppendOrdersByPriority\<close>. The properties of the pool are stated
  here as well, with bundles as their examples.
\<close>

subsection \<open>Bundles as orders\<close>

record bundle_with_nonces =
  bwn_bundle :: flashbots_bundle
  bwn_nonces :: "bundle_nonce list"

text \<open>\<open>dedup_by_key\<close>: the first of each run of elements with one key.\<close>

fun dedup_by_key :: "('a \<Rightarrow> 'k) \<Rightarrow> 'a list \<Rightarrow> 'a list" where
  "dedup_by_key f (x # y # xs) = (if f x = f y then dedup_by_key f (x # xs) else x # dedup_by_key f (y # xs))"
| "dedup_by_key f xs = xs"

definition bundle_with_nonces_new :: "flashbots_bundle \<Rightarrow> bundle_with_nonces" where
  "bundle_with_nonces_new b =
     (let ns = map (\<lambda>tx. \<lparr>bn_address = tx_signer tx, bn_nonce = tx_nonce tx, bn_optional = is_optional b (tx_hash tx)\<rparr>)
                 (bundle_transactions b);
          ns = sort_key (\<lambda>n. (bn_address n, bn_nonce n)) ns
      in \<lparr>bwn_bundle = b, bwn_nonces = dedup_by_key bn_address ns\<rparr>)"

definition transaction_nonces :: "recovered_tx \<Rightarrow> bundle_nonce list" where
  "transaction_nonces tx = [\<lparr>bn_address = tx_signer tx, bn_nonce = tx_nonce tx, bn_optional = False\<rparr>]"

definition effective_gas_price :: "bundle_with_nonces \<Rightarrow> u128" where
  "effective_gas_price ord =
     (let (total_gas_limit, accumulated_weighted_fee) =
        fold (\<lambda>tx (gas, fee).
            if is_optional (bwn_bundle ord) (tx_hash tx) then (gas, fee)
            else (gas + ucast (tx_gas_limit tx), fee + tx_max_fee_per_gas tx * ucast (tx_gas_limit tx)))
          (bundle_transactions (bwn_bundle ord)) (0, 0)
      in if total_gas_limit \<noteq> 0 then accumulated_weighted_fee div total_gas_limit else 0)"

definition bundle_orders :: "(bytes \<Rightarrow> b256) \<Rightarrow> (bundle_with_nonces, b256, u128) orderpool_order" where
  "bundle_orders keccak =
     \<lparr>order_id = (\<lambda>ord. bundle_hash keccak (bwn_bundle ord)), order_nonces = bwn_nonces,
      order_priority = effective_gas_price\<rparr>"

definition checkpoint_nonce :: "'c checkpoint \<Rightarrow> provider_error nonce_source" where
  "checkpoint_nonce cp a = map_ok (\<lambda>acc. case acc of Some info \<Rightarrow> ai_nonce info | None \<Rightarrow> 0) (cp_basic_ref cp a)"

subsection \<open>The step\<close>

text \<open>
  \<open>AppendOrdersByPriority\<close>. \<open>pending\<close> is what the source of pending orders yields until it has
  none. The loop over the queue is a partial function of the option monad: \<open>None\<close> would be a panic
  or a loop without end. Errors of the nonce source are ignored, as \<open>unwrap_or_default\<close> does.
\<close>

definition apply_changed_nonces :: "'c checkpoint \<Rightarrow> account_nonce list" where
  "apply_changed_nonces cp = map (\<lambda>(account, nonce). \<lparr>an_account = account, an_nonce = nonce\<rparr>) (changed_nonces cp)"

partial_function (option) priority_loop ::
    "('q, 'id, 'p) priority_queue \<Rightarrow> (bundle_with_nonces, 'id, 'p) orderpool_order \<Rightarrow> ('id list \<Rightarrow> 'id list) \<Rightarrow>
     ('c, 'w) heap \<Rightarrow> ('q, 'id, bundle_with_nonces) prioritized_orderpool \<Rightarrow> 'c checkpoint \<Rightarrow> 'w \<Rightarrow> ('c checkpoint \<times> 'w) option"
where
  "priority_loop pq oo set_iter heap p payload w =
     (case pop_order pq oo p of
        None \<Rightarrow> None
      | Some (None, p) \<Rightarrow> Some (payload, w)
      | Some (Some ord, p) \<Rightarrow>
          (case apply_in heap (cp_iter payload) w payload (Bundle (bwn_bundle ord)) of
             (Inl e, w) \<Rightarrow> priority_loop pq oo set_iter heap p payload w
           | (Inr new, w) \<Rightarrow>
               (case update_onchain_nonces pq oo set_iter (apply_changed_nonces new) (checkpoint_nonce new) p of
                  None \<Rightarrow> None
                | Some (r, p) \<Rightarrow> priority_loop pq oo set_iter heap p new w)))"

definition append_by_priority_step ::
    "('q, 'id, 'p) priority_queue \<Rightarrow> (bundle_with_nonces, 'id, 'p) orderpool_order \<Rightarrow> ('id list \<Rightarrow> 'id list) \<Rightarrow>
     ('c, 'w) heap \<Rightarrow> flashbots_bundle list \<Rightarrow> 'c checkpoint \<Rightarrow>
     ('q, 'id, bundle_with_nonces) prioritized_orderpool \<Rightarrow> 'w \<Rightarrow>
     ('c control_flow \<times> ('q, 'id, bundle_with_nonces) prioritized_orderpool \<times> 'w) option"
where
  "append_by_priority_step pq oo set_iter heap pending payload p w =
     (let p = fold (\<lambda>b p. snd (insert_order pq oo (checkpoint_nonce payload) (bundle_with_nonces_new b) p)) pending p in
      map_option (\<lambda>(payload, w). (Ok payload, p, w)) (priority_loop pq oo set_iter heap p payload w))"

text \<open>Every signer of a bundle has one nonce, its lowest.\<close>

lemma dedup_subset: "set (dedup_by_key f xs) \<subseteq> set xs"
  by (induction f xs rule: dedup_by_key.induct) auto

lemma dedup_keys: "f ` set (dedup_by_key f xs) = f ` set xs"
  by (induction f xs rule: dedup_by_key.induct) auto

lemma dedup_sorted:
  fixes f :: "'a \<Rightarrow> 'k::linorder" and g :: "'a \<Rightarrow> 'n::linorder"
  assumes "sorted (map (\<lambda>x. (f x, g x)) xs)"
  shows "distinct (map f (dedup_by_key f xs)) \<and>
    (\<forall>x \<in> set (dedup_by_key f xs). \<forall>y \<in> set xs. f y = f x \<longrightarrow> g x \<le> g y)"
  using assms
proof (induction f xs rule: dedup_by_key.induct)
  case (1 f x y xs)
  show ?case
  proof (cases "f x = f y")
    case True
    with 1(3) have "sorted (map (\<lambda>x. (f x, g x)) (x # xs))" "g x \<le> g y" by auto
    with 1(1) [OF True] have IH: "distinct (map f (dedup_by_key f (x # xs)))"
      "\<And>z z'. z \<in> set (dedup_by_key f (x # xs)) \<Longrightarrow> z' \<in> set (x # xs) \<Longrightarrow> f z' = f z \<Longrightarrow> g z \<le> g z'" by blast+
    have "g z \<le> g y" if "z \<in> set (dedup_by_key f (x # xs))" "f y = f z" for z
      using IH(2) [OF that(1), of x] that(2) True \<open>g x \<le> g y\<close> by simp
    with True IH show ?thesis by auto
  next
    case False
    from 1(3) have s: "sorted (map (\<lambda>x. (f x, g x)) (y # xs))"
      and x: "\<forall>z \<in> set (y # xs). (f x, g x) \<le> (f z, g z)" by auto
    from 1(2) [OF False s] have IH: "distinct (map f (dedup_by_key f (y # xs)))"
      "\<forall>x \<in> set (dedup_by_key f (y # xs)). \<forall>z \<in> set (y # xs). f z = f x \<longrightarrow> g x \<le> g z" by blast+
    have "f x \<noteq> f z" if "z \<in> set (y # xs)" for z
    proof
      assume "f x = f z"
      moreover have "f x \<le> f y" "f y \<le> f z" using x s that by (auto simp: less_eq_prod_def)
      ultimately show False using False by simp
    qed
    then have ne: "\<forall>z \<in> set (y # xs). f z \<noteq> f x" by metis
    then have "f x \<notin> f ` set (dedup_by_key f (y # xs))" unfolding dedup_keys by auto
    with ne IH False dedup_subset [of f "y # xs"] show ?thesis by auto
  qed
qed auto

lemma bundle_nonces_spec:
  fixes b :: flashbots_bundle
  defines "ns \<equiv> bwn_nonces (bundle_with_nonces_new b)"
  shows "distinct (map bn_address ns)" "bn_address ` set ns = tx_signer ` set (bundle_transactions b)"
    and "bn \<in> set ns \<Longrightarrow> tx \<in> set (bundle_transactions b) \<Longrightarrow> tx_signer tx = bn_address bn \<Longrightarrow> bn_nonce bn \<le> tx_nonce tx"
    and "bn \<in> set ns \<Longrightarrow> \<exists>tx \<in> set (bundle_transactions b). tx_signer tx = bn_address bn \<and>
      tx_nonce tx = bn_nonce bn \<and> bn_optional bn = is_optional b (tx_hash tx)"
proof -
  let ?bn = "\<lambda>tx. \<lparr>bn_address = tx_signer tx, bn_nonce = tx_nonce tx, bn_optional = is_optional b (tx_hash tx)\<rparr>"
  let ?all = "sort_key (\<lambda>n. (bn_address n, bn_nonce n)) (map ?bn (bundle_transactions b))"
  have ns: "ns = dedup_by_key bn_address ?all" by (simp add: ns_def bundle_with_nonces_new_def Let_def)
  note d = dedup_sorted [of bn_address bn_nonce ?all]
  show "distinct (map bn_address ns)" using d unfolding ns by simp
  show "bn_address ` set ns = tx_signer ` set (bundle_transactions b)"
    unfolding ns dedup_keys by (simp add: image_image)
  show "bn_nonce bn \<le> tx_nonce tx"
    if "bn \<in> set ns" "tx \<in> set (bundle_transactions b)" "tx_signer tx = bn_address bn"
  proof -
    have "?bn tx \<in> set ?all" using that(2) by simp
    with d that(1,3) show ?thesis unfolding ns by fastforce
  qed
  show "\<exists>tx \<in> set (bundle_transactions b). tx_signer tx = bn_address bn \<and>
      tx_nonce tx = bn_nonce bn \<and> bn_optional bn = is_optional b (tx_hash tx)" if "bn \<in> set ns"
  proof -
    from that have "bn \<in> set ?all" using dedup_subset unfolding ns by fast
    then show ?thesis by auto
  qed
qed

subsection \<open>Properties\<close>

text \<open>
  Claim C20: the prioritized pool never reaches its panics. Whatever orders were inserted, popped and
  removed and whatever nonces were set before, \<open>pop_order\<close> and \<open>update_onchain_nonces\<close> return, and
  the update reports no error, since it only reads nonces the pool already knows.
\<close>

theorem priority_pool_never_panics:
  assumes "pp_reach grow pq oo set_iter p" "pq_laws pq" "set_iter_laws set_iter"
  shows "pop_order pq oo p \<noteq> None \<and>
    (\<exists>p'. update_onchain_nonces pq oo set_iter new_nonces (src :: string nonce_source) p = Some (Inr (), p'))"
proof -
  have inv: "pp_inv pq oo p" using reach_inv [OF assms] by blast
  have "pop_order pq oo p \<noteq> None" by (rule pop_ok [OF assms(2) inv]) simp_all
  with update_ok [OF assms(2,3) inv, of new_nonces src] show ?thesis by blast
qed

text \<open>
  Claim C21: as long as nonces only grow, \<open>pop_order\<close> returns an order of greatest priority among
  all orders of the pool whose required nonces are the current ones, and \<open>None\<close> only when there
  is no such order: no order that has become ready is left waiting.
\<close>

theorem pop_order_best_ready:
  assumes "pp_reach True pq oo set_iter p" "pq_laws pq" "set_iter_laws set_iter"
    and "pop_order pq oo p = Some (popped, p')"
  shows "case popped of
      None \<Rightarrow> \<forall>i ord. pp_orders p i = Some ord \<longrightarrow> \<not> ready oo p ord
    | Some ord \<Rightarrow> pp_orders p (order_id oo ord) = Some ord \<and> ready oo p ord \<and>
        pp_orders p' = (pp_orders p)(order_id oo ord := None) \<and>
        (\<forall>i ord'. pp_orders p i = Some ord' \<longrightarrow> ready oo p ord' \<longrightarrow> order_priority oo ord' \<le> order_priority oo ord)"
proof -
  have inv: "pp_inv pq oo p" and cm: "pp_complete pq oo {} p" using reach_inv [OF assms(1-3)] by auto
  have queued: "items pq p i = Some (order_priority oo ord)" if "pp_orders p i = Some ord" "ready oo p ord" for i ord
    using cm ok_item [OF inv, of i] that unfolding pp_complete_def by (cases "items pq p i") fastforce+
  show ?thesis
    using assms(2) inv
  proof (cases rule: pop_ok)
    case (empty q)
    then have "popped = None" using assms(4) by simp
    moreover have "\<not> ready oo p ord" if "pp_orders p i = Some ord" for i ord
      using queued [OF that] fun_cong [OF empty(2), of i] by auto
    ultimately show ?thesis by simp
  next
    case (popped i ord q)
    then have eq: "popped = Some ord" "p' = q" using assms(4) by simp_all
    have id: "order_id oo ord = i" using ok_order [OF inv popped(3)] by simp
    have "ready oo p ord" using ok_ready [OF inv _ popped(3)] popped(2) by simp
    with popped(3,4,6) queued id show ?thesis unfolding eq by auto
  qed
qed

text \<open>The loop of the step: it returns, and what it returns extends the payload by bundles.\<close>

lemma priority_loop_ok:
  assumes "pq_laws pq" "set_iter_laws set_iter" "fresh_heap heap"
    and "pp_inv pq oo p" "finite (dom (pp_orders p))" "coherent_cp payload"
  shows "\<exists>q w'. priority_loop pq oo set_iter heap p payload w = Some (q, w') \<and> extends is_bundle payload q"
  using assms(4-6)
proof (induction "card (dom (pp_orders p))" arbitrary: p payload w rule: less_induct)
  case less
  show ?case
    using assms(1) less.prems(1)
  proof (cases rule: pop_ok)
    case (empty q)
    then show ?thesis by (subst priority_loop.simps) (auto intro: extends_refl)
  next
    case (popped i ord p1)
    have fin: "finite (dom (pp_orders p1))" using popped(4) less.prems(2) by simp
    have less1: "card (dom (pp_orders p1)) < card (dom (pp_orders p))"
      unfolding popped(4) using popped(3) less.prems(2) by (auto intro!: psubset_card_mono)
    obtain res w1 where ap: "apply_in heap (cp_iter payload) w payload (Bundle (bwn_bundle ord)) = (res, w1)" by fastforce
    show ?thesis
    proof (cases res)
      case (Inl e)
      from less.hyps [OF less1 popped(5) fin less.prems(3)] ap Inl popped(1) show ?thesis
        by (subst priority_loop.simps) simp
    next
      case (Inr new)
      note ex = apply_in_Inr [OF ap [unfolded Inr] assms(3) less.prems(3) subset_refl]
      then obtain r where "execute (cp_block payload) (checkpoint_db payload) (Bundle (bwn_bundle ord)) = Inr r"
        "mutation new = Executable r" by blast
      then have "is_bundle new" by (auto simp: is_bundle_def as_bundle_def execute_bundle_Inr run_result_def)
      then have ext: "extends is_bundle payload new"
        using apply_in_extends [OF ap [unfolded Inr] assms(3) less.prems(3) subset_refl] by blast
      obtain p2 where p2: "update_onchain_nonces pq oo set_iter (apply_changed_nonces new) (checkpoint_nonce new) p1 = Some (Inr (), p2)"
        "pp_inv pq oo p2" "dom (pp_orders p2) \<subseteq> dom (pp_orders p1)"
        using update_ok [OF assms(1,2) popped(5), of "apply_changed_nonces new" "checkpoint_nonce new"] by blast
      have less2: "card (dom (pp_orders p2)) < card (dom (pp_orders p))"
        using card_mono [OF fin p2(3)] less1 by simp
      from less.hyps [OF less2 p2(2) finite_subset [OF p2(3) fin], of new w1] ex obtain q w' where
        "priority_loop pq oo set_iter heap p2 new w1 = Some (q, w')" "extends is_bundle new q" by blast
      with ap Inr popped(1) p2(1) extends_trans [OF _ ext] show ?thesis
        by (subst priority_loop.simps) simp
    qed
  qed
qed

text \<open>
  Claim C22: \<open>AppendOrdersByPriority\<close> always returns: with a finite pool the loop over the queue ends
  although every included bundle may wake others. It returns \<open>Ok\<close> with a payload that extends
  the given one by executed bundles only, and leaves the shared pool with nothing but the pending
  orders inserted, since it works on a copy.
\<close>

theorem append_by_priority_returns:
  assumes "pp_reach grow pq oo set_iter p" "pq_laws pq" "set_iter_laws set_iter"
    and "fresh_heap heap" "coherent_cp payload"
  shows "\<exists>q w'. append_by_priority_step pq oo set_iter heap pending payload p w =
      Some (Ok q, fold (\<lambda>b p. snd (insert_order pq oo (checkpoint_nonce payload) (bundle_with_nonces_new b) p)) pending p, w') \<and>
    coherent_cp q \<and> (\<exists>es. history q = history payload @ es \<and> list_all is_bundle es)"
proof -
  let ?p = "fold (\<lambda>b p. snd (insert_order pq oo (checkpoint_nonce payload) (bundle_with_nonces_new b) p)) pending p"
  have reach: "pp_reach grow pq oo set_iter
      (fold (\<lambda>b p. snd (insert_order pq oo (checkpoint_nonce payload) (bundle_with_nonces_new b) p)) bs p)" for bs
    by (induction bs rule: rev_induct) (auto simp: assms(1) intro: reach_insert [OF _ prod.collapse [symmetric]])
  have inv: "pp_inv pq oo ?p" using reach_inv [OF reach assms(2,3)] by blast
  obtain q w' where q: "priority_loop pq oo set_iter heap ?p payload w = Some (q, w')" "extends is_bundle payload q"
    using priority_loop_ok [OF assms(2-4) inv reach_finite [OF reach assms(2,3)] assms(5)] by blast
  from extends_history [OF q(2) assms(5)] q(1) show ?thesis
    by (auto simp: append_by_priority_step_def Let_def list_all_iff)
qed

text \<open>
  The nonces a bundle is scheduled by are exactly one per signer of the bundle, each the
  lowest nonce of that signer's transactions, and optional exactly when a transaction with that
  nonce is.
\<close>

theorem bundle_lowest_nonces:
  "distinct (map bn_address (bwn_nonces (bundle_with_nonces_new b))) \<and>
   bn_address ` set (bwn_nonces (bundle_with_nonces_new b)) = tx_signer ` set (bundle_transactions b) \<and>
   (\<forall>bn. bn \<in> set (bwn_nonces (bundle_with_nonces_new b)) \<longrightarrow>
      (\<exists>tx. tx \<in> set (bundle_transactions b) \<and> tx_signer tx = bn_address bn \<and> tx_nonce tx = bn_nonce bn \<and>
         bn_optional bn = is_optional b (tx_hash tx)) \<and>
      bn_nonce bn = Min (tx_nonce ` {tx. tx \<in> set (bundle_transactions b) \<and> tx_signer tx = bn_address bn}))"
proof (intro conjI allI impI)
  note sp = bundle_nonces_spec [where b = b]
  show "distinct (map bn_address (bwn_nonces (bundle_with_nonces_new b)))" by (rule sp(1))
  show "bn_address ` set (bwn_nonces (bundle_with_nonces_new b)) = tx_signer ` set (bundle_transactions b)" by (rule sp(2))
  fix bn assume bn: "bn \<in> set (bwn_nonces (bundle_with_nonces_new b))"
  from sp(4) [OF bn] show "\<exists>tx. tx \<in> set (bundle_transactions b) \<and> tx_signer tx = bn_address bn \<and>
      tx_nonce tx = bn_nonce bn \<and> bn_optional bn = is_optional b (tx_hash tx)" by blast
  show "bn_nonce bn = Min (tx_nonce ` {tx. tx \<in> set (bundle_transactions b) \<and> tx_signer tx = bn_address bn})"
    by (rule Min_eqI [symmetric]) (use sp(3,4) [OF bn] in force)+
qed

text \<open>A queue as an association list, and a pool with one bundle.\<close>

definition list_pop :: "('id \<times> 'p::linorder) list \<Rightarrow> ('id \<times> 'p) option \<times> ('id \<times> 'p) list" where
  "list_pop q =
     (case map (\<lambda>i. (i, the (map_of q i))) (map fst q) of
        [] \<Rightarrow> (None, [])
      | c # cs \<Rightarrow>
          let best = fold (\<lambda>x m. if snd m < snd x then x else m) cs c
          in (Some best, AList.delete (fst best) q))"

definition list_pq :: "(('id \<times> 'p::linorder) list, 'id, 'p) priority_queue" where
  "list_pq =
     \<lparr>pq_new = [], pq_push = AList.update, pq_pop = list_pop,
      pq_remove = (\<lambda>i q. (map_option (Pair i) (map_of q i), AList.delete i q)), pq_items = map_of\<rparr>"

lemma fold_best:
  fixes c :: "'id \<times> 'p::linorder"
  shows "fold (\<lambda>x m. if snd m < snd x then x else m) cs c \<in> set (c # cs) \<and>
    (\<forall>x \<in> set (c # cs). snd x \<le> snd (fold (\<lambda>x m. if snd m < snd x then x else m) cs c))"
proof (induction cs arbitrary: c)
  case (Cons x cs)
  show ?case using Cons [of x] Cons [of c] by (auto intro: order_trans less_imp_le)
qed simp

lemma list_pq_laws: "pq_laws (list_pq :: (('id \<times> 'p::linorder) list, 'id, 'p) priority_queue)"
proof -
  have empty: "map_of q = Map.empty \<and> map_of q' = Map.empty" if "list_pop q = (None, q')" for q q' :: "('id \<times> 'p) list"
    using that by (auto simp: list_pop_def Let_def split: list.splits)
  have best: "map_of q i = Some pr \<and> map_of q' = (map_of q)(i := None) \<and> (\<forall>j pr'. map_of q j = Some pr' \<longrightarrow> pr' \<le> pr)"
    if pop: "list_pop q = (Some (i, pr), q')" for q q' :: "('id \<times> 'p) list" and i pr
  proof -
    let ?cs = "map (\<lambda>i. (i, the (map_of q i))) (map fst q)"
    obtain c cs where cs: "?cs = c # cs" using pop by (cases ?cs) (auto simp: list_pop_def simp del: map_map)
    with pop have b: "fold (\<lambda>x m. if snd m < snd x then x else m) cs c = (i, pr)" "q' = AList.delete i q"
      by (auto simp: list_pop_def Let_def simp del: map_map)
    have entry: "(j, pr') \<in> set ?cs \<longleftrightarrow> map_of q j = Some pr'" for j pr'
      using map_of_eq_None_iff [of q j] by (cases "map_of q j") (auto simp: image_iff dest: map_of_SomeD)
    have "(i, pr) \<in> set ?cs" "\<forall>x \<in> set ?cs. snd x \<le> pr" using fold_best [of cs c] unfolding cs b(1) by auto
    with entry have "map_of q i = Some pr" "\<And>j pr'. map_of q j = Some pr' \<Longrightarrow> pr' \<le> pr" by (blast, fastforce)
    with b(2) show ?thesis by (simp add: delete_conv')
  qed
  show ?thesis unfolding pq_laws_def list_pq_def using empty best by (simp add: update_conv' delete_conv')
qed

lemma remdups_iter: "set_iter_laws remdups"
  by (simp add: set_iter_laws_def)

definition bundle_pool :: "((b256 \<times> u128) list, b256, bundle_with_nonces) prioritized_orderpool" where
  "bundle_pool =
     snd (insert_order list_pq (bundle_orders (\<lambda>bs. 9)) (\<lambda>a. Inr 0 :: string + u64)
       (bundle_with_nonces_new sample_bundle) (pp_default list_pq))"

lemma sample_bundle_nonces:
  "bundle_with_nonces_new sample_bundle =
     \<lparr>bwn_bundle = sample_bundle, bwn_nonces = [\<lparr>bn_address = 7, bn_nonce = 0, bn_optional = False\<rparr>]\<rparr>"
  by (simp add: bundle_with_nonces_new_def bundle_transactions_def is_optional_def default_eth_send_bundle_def
      sort_key_def)

lemma bundle_pool_simps:
  "pp_orders bundle_pool = [9 \<mapsto> bundle_with_nonces_new sample_bundle]"
  "ready (bundle_orders (\<lambda>bs. 9)) bundle_pool (bundle_with_nonces_new sample_bundle)"
  by (simp_all add: bundle_pool_def insert_order_def Let_def bundle_orders_def bundle_hash_def pp_default_def
      sample_bundle_nonces pp_nonce_def ready_def)

lemma bundle_pool_reach: "pp_reach True list_pq (bundle_orders (\<lambda>bs. 9)) remdups bundle_pool"
  unfolding bundle_pool_def by (rule reach_insert [OF reach_new prod.collapse [symmetric]])

theorem priority_pool_never_panics_witness:
  "pop_order list_pq (bundle_orders (\<lambda>bs. 9)) bundle_pool \<noteq> None \<and>
   (\<exists>p'. update_onchain_nonces list_pq (bundle_orders (\<lambda>bs. 9)) remdups [\<lparr>an_account = 7, an_nonce = 1\<rparr>]
      (\<lambda>a. Inl ''offline'') bundle_pool = Some (Inr (), p'))"
  by (rule priority_pool_never_panics [OF bundle_pool_reach list_pq_laws remdups_iter])

theorem pop_order_best_ready_witness:
  "\<exists>ord p'. pop_order list_pq (bundle_orders (\<lambda>bs. 9)) bundle_pool = Some (Some ord, p') \<and>
     ready (bundle_orders (\<lambda>bs. 9)) bundle_pool ord"
proof -
  have inv: "pp_inv list_pq (bundle_orders (\<lambda>bs. 9)) bundle_pool"
    using reach_inv [OF bundle_pool_reach list_pq_laws remdups_iter] by blast
  have "pop_order list_pq (bundle_orders (\<lambda>bs. 9)) bundle_pool \<noteq> None"
    by (rule pop_ok [OF list_pq_laws inv]) simp_all
  then obtain popped p' where
    pop: "pop_order list_pq (bundle_orders (\<lambda>bs. 9)) bundle_pool = Some (popped, p')" by fast
  note best = pop_order_best_ready [OF bundle_pool_reach list_pq_laws remdups_iter pop]
  show ?thesis
  proof (cases popped)
    case None
    then have "\<not> ready (bundle_orders (\<lambda>bs. 9)) bundle_pool (bundle_with_nonces_new sample_bundle)"
      using best by (simp add: bundle_pool_simps(1))
    with bundle_pool_simps(2) show ?thesis by blast
  next
    case (Some ord)
    then show ?thesis using best pop by simp
  qed
qed

theorem append_by_priority_returns_witness:
  "\<exists>q p' w'. append_by_priority_step list_pq (bundle_orders (\<lambda>bs. 9)) remdups bump_heap [sample_bundle] sample_root
       (pp_default list_pq) 20 = Some (Ok q, p', w') \<and> (\<exists>es. history q = sample_root # es)"
  using append_by_priority_returns [OF reach_new list_pq_laws remdups_iter fresh_bump_heap sample_coherent(3),
      of "bundle_orders (\<lambda>bs. 9)" "[sample_bundle]" 20]
  by (auto simp: sample_history)

theorem bundle_lowest_nonces_witness:
  "map bn_nonce (bwn_nonces (bundle_with_nonces_new sample_bundle)) = [0] \<and>
   distinct (map bn_address (bwn_nonces (bundle_with_nonces_new sample_bundle)))"
  using bundle_lowest_nonces [of sample_bundle] by (simp add: sample_bundle_nonces)

subsection \<open>Behaviour that differs from what is meant\<close>

text \<open>
  \<open>remove_order\<close> removes the order in any case, but returns it only when it was waiting: for an
  order in the queue, \<open>remove_popped_order\<close> has taken it already.
\<close>

lemma remove_order_loses_queued:
  assumes "pp_reach grow pq oo set_iter p" "pq_laws pq" "set_iter_laws set_iter"
    and "pp_orders p i = Some ord" "items pq p i \<noteq> None"
  shows "fst (pp_remove_order pq oo i p) = None \<and> pp_orders (snd (pp_remove_order pq oo i p)) i = None"
proof -
  obtain r p' where rm: "pp_remove_order pq oo i p = (r, p')" by fastforce
  have "pp_inv pq oo p" using reach_inv [OF assms(1-3)] by blast
  from remove_ok(3,5) [OF assms(2) this rm] assms(5) rm show ?thesis by auto
qed

text \<open>
  The pool that \<open>AppendOrdersByPriority\<close> shares between blocks keeps the nonces it has read first:
  updates go to the copy only.
\<close>

lemma shared_pool_keeps_nonces:
  assumes "append_by_priority_step pq oo set_iter heap pending payload p w = Some (r, p', w')"
    and "onchain_nonces p a = Some n"
  shows "onchain_nonces p' a = Some n"
proof -
  have one: "onchain_nonces (snd (insert_order pq oo src ord p)) a = Some n" if "onchain_nonces p a = Some n"
    for src :: "string nonce_source" and ord p
  proof -
    obtain res p1 where sc: "insert_scan src (order_nonces oo ord) [] p = (res, p1)" by fastforce
    from scan_extends [OF sc] that have "onchain_nonces p1 a = Some n" by (auto simp: map_le_def dom_def)
    with sc that show ?thesis by (auto simp: insert_order_def Let_def split: sum.split option.split)
  qed
  have "onchain_nonces (fold (\<lambda>b p. snd (insert_order pq oo (checkpoint_nonce payload) (bundle_with_nonces_new b) p)) bs p) a = Some n"
    for bs by (induction bs rule: rev_induct) (auto simp: assms(2) one)
  with assms(1) show ?thesis by (auto simp: append_by_priority_step_def Let_def)
qed

text \<open>
  The step does not look at its context: a bundle that is popped and executes is part of the
  payload, whatever gas it uses and whatever the deadline.
\<close>

lemma popped_bundle_included:
  assumes "pq_laws pq" "set_iter_laws set_iter" "fresh_heap heap"
    and "pp_inv pq oo p" "finite (dom (pp_orders p))" "coherent_cp payload"
    and pop: "pop_order pq oo p = Some (Some ord, p1)"
    and ap: "apply_in heap (cp_iter payload) w payload (Bundle (bwn_bundle ord)) = (Inr new, w1)"
  shows "\<exists>q w' es. priority_loop pq oo set_iter heap p payload w = Some (q, w') \<and> history q = history new @ es"
proof -
  have co: "coherent_cp new" using apply_in_Inr [OF ap assms(3,6) subset_refl] by blast
  from assms(1,4) show ?thesis
  proof (cases rule: pop_ok)
    case (empty q)
    with pop show ?thesis by simp
  next
    case (popped i ord' p1')
    with pop have eq: "ord' = ord" "p1' = p1" by auto
    have fin: "finite (dom (pp_orders p1))" using popped(4) assms(5) by (simp add: eq)
    obtain p2 where p2: "update_onchain_nonces pq oo set_iter (apply_changed_nonces new) (checkpoint_nonce new) p1 = Some (Inr (), p2)"
      "pp_inv pq oo p2" "dom (pp_orders p2) \<subseteq> dom (pp_orders p1)"
      using update_ok [OF assms(1,2) popped(5), of "apply_changed_nonces new" "checkpoint_nonce new"]
      unfolding eq by blast
    obtain q w' where q: "priority_loop pq oo set_iter heap p2 new w1 = Some (q, w')" "extends is_bundle new q"
      using priority_loop_ok [OF assms(1-3) p2(2) finite_subset [OF p2(3) fin] co] by blast
    from extends_history [OF q(2) co] obtain es where "history q = history new @ es" by blast
    moreover have "priority_loop pq oo set_iter heap p payload w = Some (q, w')"
      using pop ap p2(1) q(1) by (subst priority_loop.simps) simp
    ultimately show ?thesis by blast
  qed
qed

end
