(* ===== verification/Sim_Tree.thy ===== *)
theory Sim_Tree
  imports Priority_Append
begin

text \<open>
  The simulation tree of \<open>orderpool2/sim_tree.rs\<close>: orders are simulated on top of the orders that
  bring the nonces of their accounts to where they need them, and wait until such simulations
  exist. The source of nonces is asked anew whenever the nonces of an order are looked up:
  \<open>st_nonces n\<close> has its answers, errors included, in the \<open>n\<close>-th of these scans, and \<open>st_calls\<close> counts
  them. The score of a result is an argument with values in a linear order, and \<open>random\<close> draws the
  identifiers of requests from the state \<open>st_rng\<close>. The outer option is \<open>None\<close> for a failed \<open>expect\<close> and
  for an underflow; the messages of \<open>error!\<close> are collected in \<open>st_log\<close>.
\<close>

subsection \<open>Data\<close>

record 'o simulation_request =
  sq_id :: u64
  sq_order :: 'o
  sq_parents :: "'o list"

record ('o, 'r) simulated_result =
  sr_id :: u64
  simulated_order :: 'r
  sr_order :: 'o
  previous_orders :: "'o list"
  nonces_after :: "account_nonce list"

record 'o pending_order =
  po_order :: 'o
  unsatisfied_nonces :: nat

datatype 'o order_nonce_state = StateInvalid | PendingNonces "account_nonce list" | StateReady "'o list"

record ('e, 'id, 'o, 'r, 'w) sim_tree =
  st_nonces :: "nat \<Rightarrow> 'e nonce_source"
  st_calls :: nat
  sims :: "u64 \<rightharpoonup> ('o, 'r) simulated_result"
  sims_that_update_one_nonce :: "account_nonce \<rightharpoonup> u64"
  st_pending_orders :: "'id \<rightharpoonup> 'o pending_order"
  st_pending_nonces :: "account_nonce \<rightharpoonup> 'id list"
  ready_orders :: "'o simulation_request list"
  st_rng :: 'w
  st_log :: "string list"

definition sim_tree_new :: "(nat \<Rightarrow> 'e nonce_source) \<Rightarrow> 'w \<Rightarrow> ('e, 'id, 'o, 'r, 'w) sim_tree" where
  "sim_tree_new src w =
     \<lparr>st_nonces = src, st_calls = 0, sims = Map.empty, sims_that_update_one_nonce = Map.empty, st_pending_orders = Map.empty,
      st_pending_nonces = Map.empty, ready_orders = [], st_rng = w, st_log = []\<rparr>"

subsection \<open>Operations\<close>

definition log_error :: "string \<Rightarrow> ('e, 'id, 'o, 'r, 'w) sim_tree \<Rightarrow> ('e, 'id, 'o, 'r, 'w) sim_tree" where
  "log_error m t = t\<lparr>st_log := st_log t @ [m]\<rparr>"

text \<open>The loop of \<open>get_order_nonce_state\<close> over the nonces of an order.\<close>

fun nonce_scan ::
    "'e nonce_source \<Rightarrow> ('e, 'id, 'o, 'r, 'w) sim_tree \<Rightarrow> bundle_nonce list \<Rightarrow> address list \<Rightarrow> account_nonce list \<Rightarrow> 'o list \<Rightarrow>
     ('e + 'o order_nonce_state) option"
where
  "nonce_scan src t [] incremented waiting parents =
     Some (Inr (if waiting = [] then StateReady parents else PendingNonces waiting))"
| "nonce_scan src t (bn # bns) incremented waiting parents =
     (case src (bn_address bn) of
        Inl e \<Rightarrow> Some (Inl e)
      | Inr onchain_nonce \<Rightarrow>
          if onchain_nonce = bn_nonce bn
          then nonce_scan src t bns (List.insert (bn_address bn) incremented) waiting parents
          else if bn_nonce bn < onchain_nonce
          then (if \<not> bn_optional bn then Some (Inr StateInvalid) else nonce_scan src t bns incremented waiting parents)
          else if bn_address bn \<in> set incremented then nonce_scan src t bns incremented waiting parents
          else
            let incremented = List.insert (bn_address bn) incremented;
                nonce_key = \<lparr>an_account = bn_address bn, an_nonce = bn_nonce bn\<rparr>
            in
            case sims_that_update_one_nonce t nonce_key of
              Some sim_id \<Rightarrow>
                (case sims t sim_id of
                   None \<Rightarrow> None
                 | Some sim \<Rightarrow> nonce_scan src t bns incremented waiting (parents @ previous_orders sim @ [sr_order sim]))
            | None \<Rightarrow> nonce_scan src t bns incremented (waiting @ [nonce_key]) parents)"

definition get_order_nonce_state ::
    "('o, 'id, 'p) orderpool_order \<Rightarrow> 'o \<Rightarrow> ('e, 'id, 'o, 'r, 'w) sim_tree \<Rightarrow> ('e + 'o order_nonce_state) option" where
  "get_order_nonce_state oo ord t = nonce_scan (st_nonces t (st_calls t)) t (order_nonces oo ord) [] [] []"

abbreviation asked :: "('e, 'id, 'o, 'r, 'w) sim_tree \<Rightarrow> ('e, 'id, 'o, 'r, 'w) sim_tree" where
  "asked t \<equiv> t\<lparr>st_calls := Suc (st_calls t)\<rparr>"

definition request_simulation ::
    "('w \<Rightarrow> u64 \<times> 'w) \<Rightarrow> 'o \<Rightarrow> 'o list \<Rightarrow> ('e, 'id, 'o, 'r, 'w) sim_tree \<Rightarrow> ('e, 'id, 'o, 'r, 'w) sim_tree" where
  "request_simulation random ord parents t =
     (let (i, w) = random (st_rng t)
      in t\<lparr>ready_orders := ready_orders t @ [\<lparr>sq_id = i, sq_order = ord, sq_parents = parents\<rparr>], st_rng := w\<rparr>)"

definition push_order ::
    "('o, 'id, 'p) orderpool_order \<Rightarrow> ('w \<Rightarrow> u64 \<times> 'w) \<Rightarrow> 'o \<Rightarrow> ('e, 'id, 'o, 'r, 'w) sim_tree \<Rightarrow>
     (('e + unit) \<times> ('e, 'id, 'o, 'r, 'w) sim_tree) option"
where
  "push_order oo random ord t =
     (if st_pending_orders t (order_id oo ord) \<noteq> None then Some (Inr (), t)
      else
        let order_nonce_state = get_order_nonce_state oo ord t; t = asked t in
        case order_nonce_state of
          None \<Rightarrow> None
        | Some (Inl e) \<Rightarrow> Some (Inl e, t)
        | Some (Inr StateInvalid) \<Rightarrow> Some (Inr (), t)
        | Some (Inr (PendingNonces pending_nonces)) \<Rightarrow>
            Some (Inr (),
              t\<lparr>st_pending_nonces :=
                  fold (\<lambda>k m. m(k \<mapsto> or_default (m k) @ [order_id oo ord])) pending_nonces (st_pending_nonces t),
                st_pending_orders :=
                  (st_pending_orders t)(order_id oo ord \<mapsto>
                    \<lparr>po_order = ord, unsatisfied_nonces = length pending_nonces\<rparr>)\<rparr>)
        | Some (Inr (StateReady parents)) \<Rightarrow> Some (Inr (), request_simulation random ord parents t))"

fun push_orders ::
    "('o, 'id, 'p) orderpool_order \<Rightarrow> ('w \<Rightarrow> u64 \<times> 'w) \<Rightarrow> 'o list \<Rightarrow> ('e, 'id, 'o, 'r, 'w) sim_tree \<Rightarrow>
     (('e + unit) \<times> ('e, 'id, 'o, 'r, 'w) sim_tree) option"
where
  "push_orders oo random [] t = Some (Inr (), t)"
| "push_orders oo random (ord # os) t =
     (case push_order oo random ord t of
        None \<Rightarrow> None
      | Some (Inl e, t) \<Rightarrow> Some (Inl e, t)
      | Some (Inr u, t) \<Rightarrow> push_orders oo random os t)"

definition pop_simulation_tasks ::
    "nat \<Rightarrow> ('e, 'id, 'o, 'r, 'w) sim_tree \<Rightarrow> 'o simulation_request list \<times> ('e, 'id, 'o, 'r, 'w) sim_tree" where
  "pop_simulation_tasks limit t =
     (let limit = min limit (length (ready_orders t))
      in (take limit (ready_orders t), t\<lparr>ready_orders := drop limit (ready_orders t)\<rparr>))"

text \<open>The loop over the orders that waited for a nonce: those that wait for nothing else are collected.\<close>

fun release ::
    "'id list \<Rightarrow> 'o list \<Rightarrow> ('e, 'id, 'o, 'r, 'w) sim_tree \<Rightarrow> ('o list \<times> ('e, 'id, 'o, 'r, 'w) sim_tree) option"
where
  "release [] orders_ready t = Some (orders_ready, t)"
| "release (i # ids) orders_ready t =
     (case st_pending_orders t i of
        None \<Rightarrow> release ids orders_ready (log_error ''SimTree bug order not found'' t)
      | Some p \<Rightarrow>
          if unsatisfied_nonces p = 0 then None
          else if unsatisfied_nonces p - 1 = 0
          then release ids (orders_ready @ [po_order p])
                 (t\<lparr>st_pending_orders := (st_pending_orders t)(i := None)\<rparr>)
          else release ids orders_ready
                 (t\<lparr>st_pending_orders :=
                     (st_pending_orders t)(i \<mapsto> p\<lparr>unsatisfied_nonces := unsatisfied_nonces p - 1\<rparr>)\<rparr>))"

text \<open>The last loop: the collected orders are requested.\<close>

fun request_ready ::
    "('o, 'id, 'p) orderpool_order \<Rightarrow> ('w \<Rightarrow> u64 \<times> 'w) \<Rightarrow> 'o list \<Rightarrow> ('e, 'id, 'o, 'r, 'w) sim_tree \<Rightarrow>
     (('e + unit) \<times> ('e, 'id, 'o, 'r, 'w) sim_tree) option"
where
  "request_ready oo random [] t = Some (Inr (), t)"
| "request_ready oo random (ord # os) t =
     (let pending_state = get_order_nonce_state oo ord t; t = asked t in
      case pending_state of
        None \<Rightarrow> None
      | Some (Inl e) \<Rightarrow> Some (Inl e, t)
      | Some (Inr (StateReady parents)) \<Rightarrow> request_ready oo random os (request_simulation random ord parents t)
      | Some (Inr StateInvalid) \<Rightarrow> request_ready oo random os (log_error ''SimTree bug order became invalid'' t)
      | Some (Inr (PendingNonces ks)) \<Rightarrow>
          request_ready oo random os (log_error ''SimTree bug order became pending again'' t))"

definition process_simulation_task_result ::
    "('o, 'id, 'p) orderpool_order \<Rightarrow> ('r \<Rightarrow> 's::linorder) \<Rightarrow> ('w \<Rightarrow> u64 \<times> 'w) \<Rightarrow> ('o, 'r) simulated_result \<Rightarrow>
     ('e, 'id, 'o, 'r, 'w) sim_tree \<Rightarrow> (('e + unit) \<times> ('e, 'id, 'o, 'r, 'w) sim_tree) option"
where
  "process_simulation_task_result oo score random result t =
     (let t = t\<lparr>sims := (sims t)(sr_id result \<mapsto> result)\<rparr> in
      Option.bind
        (case nonces_after result of
           [updated_nonce] \<Rightarrow>
             (case sims_that_update_one_nonce t updated_nonce of
                Some sim_id \<Rightarrow>
                  (case sims t sim_id of
                     None \<Rightarrow> None
                   | Some sim \<Rightarrow>
                       if score (simulated_order sim) < score (simulated_order result)
                       then Some ([], t\<lparr>sims_that_update_one_nonce :=
                              (sims_that_update_one_nonce t)(updated_nonce \<mapsto> sr_id result)\<rparr>)
                       else Some ([], t))
              | None \<Rightarrow>
                  let t = t\<lparr>sims_that_update_one_nonce :=
                    (sims_that_update_one_nonce t)(updated_nonce \<mapsto> sr_id result)\<rparr>
                  in
                  case st_pending_nonces t updated_nonce of
                    None \<Rightarrow> Some ([], t)
                  | Some ids \<Rightarrow> release ids [] (t\<lparr>st_pending_nonces := (st_pending_nonces t)(updated_nonce := None)\<rparr>))
         | _ \<Rightarrow> Some ([], t))
        (\<lambda>(orders_ready, t). request_ready oo random orders_ready t))"

fun submit_simulation_tasks_results ::
    "('o, 'id, 'p) orderpool_order \<Rightarrow> ('r \<Rightarrow> 's::linorder) \<Rightarrow> ('w \<Rightarrow> u64 \<times> 'w) \<Rightarrow> ('o, 'r) simulated_result list \<Rightarrow>
     ('e, 'id, 'o, 'r, 'w) sim_tree \<Rightarrow> (('e + unit) \<times> ('e, 'id, 'o, 'r, 'w) sim_tree) option"
where
  "submit_simulation_tasks_results oo score random [] t = Some (Inr (), t)"
| "submit_simulation_tasks_results oo score random (result # rs) t =
     (case process_simulation_task_result oo score random result t of
        None \<Rightarrow> None
      | Some (Inl e, t) \<Rightarrow> Some (Inl e, t)
      | Some (Inr u, t) \<Rightarrow> submit_simulation_tasks_results oo score random rs t)"

definition is_ready :: "('e, 'id, 'o, 'r, 'w) sim_tree \<Rightarrow> bool" where
  "is_ready t \<longleftrightarrow> ready_orders t \<noteq> []"

subsection \<open>The nonces an order is missing\<close>

text \<open>
  What \<open>get_order_nonce_state\<close> computes, without the tree and its errors: the nonces that are ahead
  of their accounts, one per account, unless a required one has passed. The argument \<open>nc\<close> has the
  nonces of the accounts.
\<close>

fun missing_nonces :: "(address \<Rightarrow> u64) \<Rightarrow> bundle_nonce list \<Rightarrow> address list \<Rightarrow> account_nonce list option" where
  "missing_nonces nc [] incremented = Some []"
| "missing_nonces nc (bn # bns) incremented =
     (if nc (bn_address bn) = bn_nonce bn then missing_nonces nc bns (List.insert (bn_address bn) incremented)
      else if bn_nonce bn < nc (bn_address bn)
      then (if bn_optional bn then missing_nonces nc bns incremented else None)
      else if bn_address bn \<in> set incremented then missing_nonces nc bns incremented
      else map_option (Cons (bn_key bn)) (missing_nonces nc bns (List.insert (bn_address bn) incremented)))"

lemma missing_nonces_distinct:
  "missing_nonces nc bns incremented = Some ks \<Longrightarrow> distinct ks \<and> an_account ` set ks \<inter> set incremented = {}"
proof (induction nc bns incremented arbitrary: ks rule: missing_nonces.induct)
  case (2 nc bn bns incremented)
  let ?rest = "missing_nonces nc bns (List.insert (bn_address bn) incremented)"
  consider "nc (bn_address bn) = bn_nonce bn" | "bn_nonce bn < nc (bn_address bn)" | "nc (bn_address bn) < bn_nonce bn"
    by fastforce
  then show ?case
  proof cases
    case 1
    with 2(1,5) show ?thesis by auto
  next
    case le: 2
    with 2(2,5) show ?thesis by (auto split: if_splits)
  next
    case gt: 3
    show ?thesis
    proof (cases "bn_address bn \<in> set incremented")
      case True
      with gt 2(3,5) show ?thesis by (auto split: if_splits)
    next
      case False
      with gt 2(5) obtain ks' where rest: "?rest = Some ks'" "ks = bn_key bn # ks'" by (auto split: if_splits)
      with 2(4) gt False have "distinct ks' \<and> an_account ` set ks' \<inter> set (List.insert (bn_address bn) incremented) = {}"
        by auto
      with rest(2) False show ?thesis by (auto simp: bn_key_def dest: imageI [of _ _ an_account])
    qed
  qed
qed simp

text \<open>
  What the tree relies on, as its comment says that nonces are cached: whenever the source answers,
  it gives the nonce \<open>nc\<close> of the account. It may fail at any time.
\<close>

definition nonces_cached :: "(address \<Rightarrow> u64) \<Rightarrow> (nat \<Rightarrow> 'e nonce_source) \<Rightarrow> bool" where
  "nonces_cached nc src \<longleftrightarrow> (\<forall>n a k. src n a = Inr k \<longrightarrow> k = nc a)"

definition answered :: "('e, 'id, 'o, 'r, 'w) sim_tree \<Rightarrow> address \<Rightarrow> bool" where
  "answered t a \<longleftrightarrow> (\<exists>n < st_calls t. \<exists>k. st_nonces t n a = Inr k)"

lemma answered_mono:
  "answered t a \<Longrightarrow> st_nonces t' = st_nonces t \<Longrightarrow> st_calls t \<le> st_calls t' \<Longrightarrow> answered t' a"
  unfolding answered_def by (auto intro: less_le_trans)

abbreviation filled :: "('e, 'id, 'o, 'r, 'w) sim_tree \<Rightarrow> account_nonce \<Rightarrow> bool" where
  "filled t k \<equiv> sims_that_update_one_nonce t k \<noteq> None"

abbreviation waiting_at :: "('e, 'id, 'o, 'r, 'w) sim_tree \<Rightarrow> account_nonce \<Rightarrow> 'id list" where
  "waiting_at t k \<equiv> or_default (st_pending_nonces t k)"

definition chain_of :: "('o, 'r) simulated_result \<Rightarrow> 'o list" where
  "chain_of sim = previous_orders sim @ [sr_order sim]"

definition chain_for :: "('e, 'id, 'o, 'r, 'w) sim_tree \<Rightarrow> account_nonce \<Rightarrow> 'o list" where
  "chain_for t k = chain_of (the (sims t (the (sims_that_update_one_nonce t k))))"

definition sims_closed :: "('e, 'id, 'o, 'r, 'w) sim_tree \<Rightarrow> bool" where
  "sims_closed t \<longleftrightarrow> (\<forall>k i. sims_that_update_one_nonce t k = Some i \<longrightarrow> sims t i \<noteq> None)"

lemma nonce_scan_eq:
  assumes "sims_closed t" "\<And>a k. src a = Inr k \<Longrightarrow> k = nc a"
  shows "(\<exists>bn \<in> set bns. \<exists>e. src (bn_address bn) = Inl e \<and> nonce_scan src t bns incremented ws parents = Some (Inl e)) \<or>
    nonce_scan src t bns incremented ws parents = Some (Inr
      (case missing_nonces nc bns incremented of
         None \<Rightarrow> StateInvalid
       | Some ks \<Rightarrow>
           if ws @ filter (\<lambda>k. \<not> filled t k) ks = []
           then StateReady (parents @ concat (map (chain_for t) (filter (filled t) ks)))
           else PendingNonces (ws @ filter (\<lambda>k. \<not> filled t k) ks)))"
proof (induction bns arbitrary: incremented ws parents)
  case (Cons bn bns)
  show ?case
  proof (cases "src (bn_address bn)")
    case (Inr onchain_nonce)
    with assms(2) have n: "src (bn_address bn) = Inr (nc (bn_address bn))" by blast
    consider (eq) "nc (bn_address bn) = bn_nonce bn" | (lt) "bn_nonce bn < nc (bn_address bn)" | (gt) "nc (bn_address bn) < bn_nonce bn"
      by fastforce
    then show ?thesis
    proof cases
      case eq
      with n Cons [of "List.insert (bn_address bn) incremented" ws parents] show ?thesis by auto
    next
      case lt
      with n Cons [of incremented ws parents] show ?thesis by auto
    next
      case gt
      then have cmp: "nc (bn_address bn) \<noteq> bn_nonce bn" "\<not> bn_nonce bn < nc (bn_address bn)" by auto
      let ?inc = "List.insert (bn_address bn) incremented"
      show ?thesis
      proof (cases "sims_that_update_one_nonce t (bn_key bn)")
        case None
        with n cmp Cons [of incremented ws parents] Cons [of ?inc "ws @ [bn_key bn]" parents] show ?thesis
          by (auto simp: Let_def bn_key_def [symmetric] split: option.split)
      next
        case (Some i)
        then obtain sim where "sims t i = Some sim" using assms(1) by (auto simp: sims_closed_def)
        with Some n cmp Cons [of incremented ws parents]
          Cons [of ?inc ws "parents @ previous_orders sim @ [sr_order sim]"] show ?thesis
          by (auto simp: Let_def bn_key_def [symmetric] chain_for_def chain_of_def split: option.split)
      qed
    qed
  qed simp
qed simp

lemma nonce_scan_answers:
  "nonce_scan src t bns incremented ws parents = Some (Inr (PendingNonces ks)) \<Longrightarrow> bn \<in> set bns \<Longrightarrow>
   \<exists>k. src (bn_address bn) = Inr k"
  by (induction bns arbitrary: incremented ws parents)
    (auto simp: Let_def split: sum.splits if_splits option.splits)

subsection \<open>The invariant\<close>

text \<open>
  A pending order counts the missing nonces that no simulation has filled, and is listed once for
  each of them; only pending orders are listed.
\<close>

definition pending_ok ::
    "('o, 'id, 'p) orderpool_order \<Rightarrow> (address \<Rightarrow> u64) \<Rightarrow> ('e, 'id, 'o, 'r, 'w) sim_tree \<Rightarrow> 'id \<Rightarrow> 'o pending_order \<Rightarrow>
     account_nonce list \<Rightarrow> bool"
where
  "pending_ok oo nc t i p ks \<longleftrightarrow>
     order_id oo (po_order p) = i \<and> missing_nonces nc (order_nonces oo (po_order p)) [] = Some ks \<and>
     (\<forall>bn \<in> set (order_nonces oo (po_order p)). answered t (bn_address bn)) \<and>
     0 < unsatisfied_nonces p \<and> unsatisfied_nonces p = length (filter (\<lambda>k. \<not> filled t k) ks) \<and>
     (\<forall>k. count_list (waiting_at t k) i = (if k \<in> set ks \<and> \<not> filled t k then 1 else 0))"

definition sim_inv :: "('o, 'id, 'p) orderpool_order \<Rightarrow> (address \<Rightarrow> u64) \<Rightarrow> ('e, 'id, 'o, 'r, 'w) sim_tree \<Rightarrow> bool" where
  "sim_inv oo nc t \<longleftrightarrow>
     nonces_cached nc (st_nonces t) \<and> sims_closed t \<and> (\<forall>i p. st_pending_orders t i = Some p \<longrightarrow> (\<exists>ks. pending_ok oo nc t i p ks)) \<and>
     (\<forall>k i. i \<in> set (waiting_at t k) \<longrightarrow> st_pending_orders t i \<noteq> None) \<and> st_log t = []"

text \<open>The part of the tree the invariant reads, up to the values of the index.\<close>

lemma sim_inv_cong:
  assumes "sim_inv oo nc t" "st_nonces t' = st_nonces t" "st_pending_orders t' = st_pending_orders t"
    and "st_pending_nonces t' = st_pending_nonces t" "st_log t' = st_log t" "sims_closed t'"
    and "\<And>k. filled t' k \<longleftrightarrow> filled t k" "st_calls t \<le> st_calls t'"
  shows "sim_inv oo nc t'"
proof -
  have "answered t a \<Longrightarrow> answered t' a" for a using answered_mono assms(2,8) by blast
  moreover have "sims_that_update_one_nonce t' k = None \<longleftrightarrow> sims_that_update_one_nonce t k = None" for k
    using assms(7) by blast
  ultimately have "pending_ok oo nc t i p ks \<Longrightarrow> pending_ok oo nc t' i p ks" for i p ks
    using assms(4) unfolding pending_ok_def by auto
  with assms(1-7) show ?thesis unfolding sim_inv_def by metis
qed

lemma request_simulation_fields [simp]:
  "st_calls (request_simulation random ord ps t) = st_calls t"
  "st_nonces (request_simulation random ord ps t) = st_nonces t"
  "sims (request_simulation random ord ps t) = sims t"
  "sims_that_update_one_nonce (request_simulation random ord ps t) = sims_that_update_one_nonce t"
  "st_pending_orders (request_simulation random ord ps t) = st_pending_orders t"
  "st_pending_nonces (request_simulation random ord ps t) = st_pending_nonces t"
  "st_log (request_simulation random ord ps t) = st_log t"
  by (simp_all add: request_simulation_def split: prod.split)

lemma sim_inv_request:
  assumes "sim_inv oo nc t"
  shows "sim_inv oo nc (request_simulation random ord ps t)"
  by (rule sim_inv_cong [OF assms]) (use assms in \<open>simp_all add: sim_inv_def sims_closed_def\<close>)

definition request_ok :: "('o, 'id, 'p) orderpool_order \<Rightarrow> (address \<Rightarrow> u64) \<Rightarrow> ('e, 'id, 'o, 'r, 'w) sim_tree \<Rightarrow> 'o simulation_request \<Rightarrow> bool" where
  "request_ok oo nc t rq \<longleftrightarrow>
     (\<exists>ks. missing_nonces nc (order_nonces oo (sq_order rq)) [] = Some ks \<and>
        list_all (filled t) ks \<and> sq_parents rq = concat (map (chain_for t) ks))"

lemma request_ok_cong:
  assumes "sims t' = sims t" "sims_that_update_one_nonce t' = sims_that_update_one_nonce t"
  shows "request_ok oo nc t' = request_ok oo nc t"
  unfolding request_ok_def chain_for_def assms ..

lemma nonce_state_cases:
  assumes "sims_closed t" "nonces_cached nc (st_nonces t)"
  obtains (err) bn e where "get_order_nonce_state oo ord t = Some (Inl e)" "bn \<in> set (order_nonces oo ord)"
      "st_nonces t (st_calls t) (bn_address bn) = Inl e"
    | (inval) "get_order_nonce_state oo ord t = Some (Inr StateInvalid)"
    | (ready) ks where "get_order_nonce_state oo ord t = Some (Inr (StateReady (concat (map (chain_for t) ks))))"
        "missing_nonces nc (order_nonces oo ord) [] = Some ks" "list_all (filled t) ks"
    | (pending) ks where "get_order_nonce_state oo ord t = Some (Inr (PendingNonces (filter (\<lambda>k. \<not> filled t k) ks)))"
        "filter (\<lambda>k. \<not> filled t k) ks \<noteq> []" "missing_nonces nc (order_nonces oo ord) [] = Some ks"
        "\<forall>bn \<in> set (order_nonces oo ord). answered (asked t) (bn_address bn)"
proof -
  let ?src = "st_nonces t (st_calls t)" and ?ks = "missing_nonces nc (order_nonces oo ord) []"
  have "?src a = Inr k \<Longrightarrow> k = nc a" for a k using assms(2) unfolding nonces_cached_def by blast
  from nonce_scan_eq [OF assms(1), of ?src nc "order_nonces oo ord" "[]" "[]" "[]", OF this]
  consider (e) bn e where "bn \<in> set (order_nonces oo ord)" "?src (bn_address bn) = Inl e"
      "get_order_nonce_state oo ord t = Some (Inl e)"
    | (n) "?ks = None" "get_order_nonce_state oo ord t = Some (Inr StateInvalid)"
    | (r) ks where "?ks = Some ks" "filter (\<lambda>k. \<not> filled t k) ks = []"
        "get_order_nonce_state oo ord t = Some (Inr (StateReady (concat (map (chain_for t) (filter (filled t) ks)))))"
    | (p) ks where "?ks = Some ks" "filter (\<lambda>k. \<not> filled t k) ks \<noteq> []"
        "get_order_nonce_state oo ord t = Some (Inr (PendingNonces (filter (\<lambda>k. \<not> filled t k) ks)))"
    unfolding get_order_nonce_state_def by (cases ?ks) (auto split: if_splits)
  then show ?thesis
  proof cases
    case (r ks)
    from r(2) have all: "list_all (filled t) ks" by (simp add: filter_empty_conv list_all_iff)
    then have "filter (filled t) ks = ks" by (simp add: list_all_iff)
    with r all show ?thesis using that(3) by simp
  next
    case (p ks)
    have "answered (asked t) (bn_address bn)" if "bn \<in> set (order_nonces oo ord)" for bn
      using nonce_scan_answers [OF p(3) [unfolded get_order_nonce_state_def] that] unfolding answered_def by auto
    with p show ?thesis using that(4) by blast
  qed (use that(1,2) in blast)+
qed

lemma request_simulation_ready:
  assumes "missing_nonces nc (order_nonces oo ord) [] = Some ks" "list_all (filled t) ks"
  shows "\<exists>rq. ready_orders (request_simulation random ord (concat (map (chain_for t) ks)) (asked t)) = ready_orders t @ [rq] \<and>
    sq_order rq = ord \<and> request_ok oo nc t rq"
  using assms by (cases "random (st_rng t)") (auto simp: request_simulation_def request_ok_def)

lemma fold_waiting:
  "distinct ks \<Longrightarrow>
     or_default (fold (\<lambda>k m. m(k \<mapsto> or_default (m k) @ [i])) ks m k) = or_default (m k) @ (if k \<in> set ks then [i] else [])"
  by (induction ks arbitrary: m) (auto simp: or_default_def)

text \<open>An order with unfilled nonces is registered at each of them.\<close>

lemma sim_inv_pending:
  fixes t ord ks
  defines "ws \<equiv> filter (\<lambda>k. \<not> filled t k) ks"
  assumes "sim_inv oo nc t" "st_pending_orders t (order_id oo ord) = None"
    and "missing_nonces nc (order_nonces oo ord) [] = Some ks" "ws \<noteq> []"
    and "\<forall>bn \<in> set (order_nonces oo ord). answered t (bn_address bn)"
  shows "sim_inv oo nc (t\<lparr>st_pending_nonces := fold (\<lambda>k m. m(k \<mapsto> or_default (m k) @ [order_id oo ord])) ws (st_pending_nonces t),
    st_pending_orders := (st_pending_orders t)(order_id oo ord \<mapsto> \<lparr>po_order = ord, unsatisfied_nonces = length ws\<rparr>)\<rparr>)"
    (is "sim_inv oo nc ?t")
proof -
  let ?i = "order_id oo ord"
  note inv = assms(2) [unfolded sim_inv_def]
  have dist: "distinct ws" using missing_nonces_distinct [OF assms(4)] by (simp add: ws_def)
  have at: "waiting_at ?t k = waiting_at t k @ (if k \<in> set ws then [?i] else [])" for k
    using fold_waiting [OF dist, of ?i "st_pending_nonces t" k] by simp
  have none: "count_list (waiting_at t k) ?i = 0" for k
    unfolding count_list_0_iff using inv assms(3) by metis
  show "sim_inv oo nc ?t" unfolding sim_inv_def
  proof (intro conjI allI impI)
    fix j p assume p: "st_pending_orders ?t j = Some p"
    show "\<exists>ks. pending_ok oo nc ?t j p ks"
    proof (cases "j = ?i")
      case True
      with p have "p = \<lparr>po_order = ord, unsatisfied_nonces = length ws\<rparr>" by simp
      with True assms(4-6) have "pending_ok oo nc ?t j p ks"
        unfolding pending_ok_def at by (simp add: none ws_def answered_def)
      then show ?thesis ..
    next
      case False
      with p inv obtain ks' where "pending_ok oo nc t j p ks'" by fastforce
      with False have "pending_ok oo nc ?t j p ks'" unfolding pending_ok_def at by (auto simp: answered_def)
      then show ?thesis ..
    qed
  next
    fix k j assume "j \<in> set (waiting_at ?t k)"
    then have "j = ?i \<or> j \<in> set (waiting_at t k)" unfolding at by (auto split: if_splits)
    with inv show "st_pending_orders ?t j \<noteq> None" by auto
  qed (use inv in \<open>simp_all add: sims_closed_def\<close>)
qed

text \<open>\<open>push_order\<close> returns, keeps the invariant and adds at most a request that is ready.\<close>

lemma push_order_ok:
  assumes "sim_inv oo nc t"
  shows "\<exists>r t'. push_order oo random ord t = Some (r, t') \<and> sim_inv oo nc t' \<and> st_nonces t' = st_nonces t \<and>
    sims t' = sims t \<and> sims_that_update_one_nonce t' = sims_that_update_one_nonce t \<and>
    (\<exists>reqs. ready_orders t' = ready_orders t @ reqs \<and> list_all (request_ok oo nc t) reqs)"
proof (cases "st_pending_orders t (order_id oo ord) = None")
  case True
  have closed: "sims_closed t" and cached: "nonces_cached nc (st_nonces t)" using assms unfolding sim_inv_def by blast+
  have inv: "sim_inv oo nc (asked t)"
    by (rule sim_inv_cong [OF assms]) (use closed in \<open>simp_all add: sims_closed_def\<close>)
  show ?thesis
  proof (rule nonce_state_cases [OF closed cached, of oo ord], goal_cases err inval ready pending)
    case (ready ks)
    with request_simulation_ready [OF ready(2,3), of random] sim_inv_request [OF inv, of random ord] True
    show ?thesis by (auto simp: push_order_def Let_def)
  next
    case (pending ks)
    let ?i = "order_id oo ord" and ?ws = "filter (\<lambda>k. \<not> filled t k) ks"
    let ?t = "(asked t)\<lparr>st_pending_nonces := fold (\<lambda>k m. m(k \<mapsto> or_default (m k) @ [?i])) ?ws (st_pending_nonces t),
      st_pending_orders := (st_pending_orders t)(?i \<mapsto> \<lparr>po_order = ord, unsatisfied_nonces = length ?ws\<rparr>)\<rparr>"
    have "sim_inv oo nc ?t"
      using sim_inv_pending [OF inv, of ord ks] True pending(2-4) by simp
    with pending True show ?thesis by (simp add: push_order_def Let_def)
  qed (use inv True in \<open>simp_all add: push_order_def Let_def\<close>)
qed (use assms in \<open>simp add: push_order_def\<close>)

text \<open>Releasing the orders that waited for a nonce.\<close>

definition decrement :: "'o pending_order \<Rightarrow> 'o pending_order option" where
  "decrement p =
     (if unsatisfied_nonces p = 1 then None else Some (p\<lparr>unsatisfied_nonces := unsatisfied_nonces p - 1\<rparr>))"

lemma release_eq:
  assumes "distinct ids" "\<forall>i \<in> set ids. \<exists>p. st_pending_orders t i = Some p \<and> 0 < unsatisfied_nonces p"
  shows "release ids rdy t = Some
    (rdy @ map (\<lambda>i. po_order (the (st_pending_orders t i)))
             (filter (\<lambda>i. unsatisfied_nonces (the (st_pending_orders t i)) = 1) ids),
     t\<lparr>st_pending_orders := (\<lambda>i. if i \<in> set ids then Option.bind (st_pending_orders t i) decrement
                                 else st_pending_orders t i)\<rparr>)"
  using assms
proof (induction ids arbitrary: rdy t)
  case Nil
  then show ?case by simp
next
  case (Cons i ids)
  from Cons.prems(2) obtain p where p: "st_pending_orders t i = Some p" "0 < unsatisfied_nonces p" by auto
  let ?t = "t\<lparr>st_pending_orders := (st_pending_orders t)(i := decrement p)\<rparr>"
  have step: "release (i # ids) rdy t =
      release ids (rdy @ (if unsatisfied_nonces p = 1 then [po_order p] else [])) ?t"
    using p by (auto simp: decrement_def)
  have same: "st_pending_orders ?t j = st_pending_orders t j" if "j \<in> set ids" for j
    using that Cons.prems(1) by auto
  have "\<forall>j \<in> set ids. \<exists>p. st_pending_orders ?t j = Some p \<and> 0 < unsatisfied_nonces p"
    using Cons.prems(2) same by simp
  note IH = Cons.IH [OF _ this]
  have sel: "map (\<lambda>j. po_order (the (st_pending_orders ?t j)))
      (filter (\<lambda>j. unsatisfied_nonces (the (st_pending_orders ?t j)) = 1) ids) =
    map (\<lambda>j. po_order (the (st_pending_orders t j)))
      (filter (\<lambda>j. unsatisfied_nonces (the (st_pending_orders t j)) = 1) ids)"
    by (rule map_cong [OF filter_cong [OF refl]]) (simp_all only: same set_filter mem_Collect_eq)
  have upd: "(\<lambda>j. if j \<in> set ids then Option.bind (st_pending_orders ?t j) decrement else st_pending_orders ?t j) =
    (\<lambda>j. if j \<in> set (i # ids) then Option.bind (st_pending_orders t j) decrement else st_pending_orders t j)"
    using p Cons.prems(1) by (auto simp: fun_eq_iff)
  show ?case unfolding step using Cons.prems(1) p by (simp add: IH [unfolded sel upd])
qed

text \<open>
  An error of the source that the tree runs into: it fails for an account it has answered before.
\<close>

definition source_failure :: "('e, 'id, 'o, 'r, 'w) sim_tree \<Rightarrow> 'e \<Rightarrow> bool" where
  "source_failure t e \<longleftrightarrow> (\<exists>n a. st_calls t \<le> n \<and> st_nonces t n a = Inl e \<and> answered t a)"

lemma request_ready_eq:
  assumes "sims_closed t" "nonces_cached nc (st_nonces t)"
    and "\<forall>ord \<in> set os. (\<exists>ks. missing_nonces nc (order_nonces oo ord) [] = Some ks \<and> list_all (filled t) ks) \<and>
      (\<forall>bn \<in> set (order_nonces oo ord). A (bn_address bn))"
  shows "\<exists>r t' reqs. request_ready oo random os t = Some (r, t') \<and>
    (r = Inr () \<and> map sq_order reqs = os \<or> (\<exists>n a e. st_calls t \<le> n \<and> st_nonces t n a = Inl e \<and> A a \<and> r = Inl e)) \<and>
    st_nonces t' = st_nonces t \<and> st_calls t \<le> st_calls t' \<and> sims t' = sims t \<and>
    sims_that_update_one_nonce t' = sims_that_update_one_nonce t \<and> st_pending_orders t' = st_pending_orders t \<and>
    st_pending_nonces t' = st_pending_nonces t \<and> st_log t' = st_log t \<and>
    ready_orders t' = ready_orders t @ reqs \<and> list_all (request_ok oo nc t) reqs"
  using assms
proof (induction os arbitrary: t)
  case (Cons ord os)
  from Cons.prems(3) obtain ks where
    ks: "missing_nonces nc (order_nonces oo ord) [] = Some ks" "list_all (filled t) ks"
    and A: "\<forall>bn \<in> set (order_nonces oo ord). A (bn_address bn)" by auto
  then have none: "filter (\<lambda>k. \<not> filled t k) ks = []" by (simp add: list_all_iff)
  show ?case
  proof (rule nonce_state_cases [OF Cons.prems(1,2), of oo ord], goal_cases err inval ready pending)
    case (err bn e)
    with A show ?thesis
      by (intro exI [of _ "Inl e"] exI [of _ "asked t"] exI [of _ "[]"]) (auto simp: Let_def)
  next
    case inval
    from nonce_scan_eq [OF Cons.prems(1), of "st_nonces t (st_calls t)" nc "order_nonces oo ord" "[]" "[]" "[]"]
      Cons.prems(2) inval ks none show ?thesis
      unfolding get_order_nonce_state_def nonces_cached_def by (auto split: if_splits)
  next
    case (ready ks')
    let ?t = "request_simulation random ord (concat (map (chain_for t) ks')) (asked t)"
    from request_simulation_ready [OF ready(2,3), of random] obtain rq where
      rq: "ready_orders ?t = ready_orders t @ [rq]" "sq_order rq = ord" "request_ok oo nc t rq" by blast
    have ok: "request_ok oo nc ?t = request_ok oo nc t" by (rule request_ok_cong) simp_all
    have closed: "sims_closed ?t" "nonces_cached nc (st_nonces ?t)"
      using Cons.prems(1,2) by (simp_all add: sims_closed_def)
    have rest: "\<forall>ord \<in> set os. (\<exists>ks. missing_nonces nc (order_nonces oo ord) [] = Some ks \<and> list_all (filled ?t) ks) \<and>
        (\<forall>bn \<in> set (order_nonces oo ord). A (bn_address bn))" using Cons.prems(3) by simp
    have same: "st_nonces ?t = st_nonces t" "sims ?t = sims t" "st_pending_orders ?t = st_pending_orders t"
      "sims_that_update_one_nonce ?t = sims_that_update_one_nonce t"
      "st_pending_nonces ?t = st_pending_nonces t" "st_log ?t = st_log t" by simp_all
    from Cons.IH [OF closed rest, unfolded same ok] obtain r t' reqs where
      IH: "request_ready oo random os ?t = Some (r, t')"
        "r = Inr () \<and> map sq_order reqs = os \<or> (\<exists>n a e. st_calls ?t \<le> n \<and> st_nonces t n a = Inl e \<and> A a \<and> r = Inl e)"
        "st_nonces t' = st_nonces t" "st_calls ?t \<le> st_calls t'" "sims t' = sims t"
        "sims_that_update_one_nonce t' = sims_that_update_one_nonce t" "st_pending_orders t' = st_pending_orders t"
        "st_pending_nonces t' = st_pending_nonces t" "st_log t' = st_log t"
        "ready_orders t' = ready_orders ?t @ reqs" "list_all (request_ok oo nc t) reqs"
      by blast
    from IH(2) have "r = Inr () \<and> map sq_order (rq # reqs) = ord # os \<or>
        (\<exists>n a e. st_calls t \<le> n \<and> st_nonces t n a = Inl e \<and> A a \<and> r = Inl e)"
      using rq(2) by (auto dest: Suc_leD)
    with IH rq ready(1) show ?thesis
      by (intro exI [of _ r] exI [of _ t'] exI [of _ "rq # reqs"]) (simp add: Let_def)
  next
    case (pending ks')
    with ks none show ?thesis by auto
  qed
qed simp

lemma filter_minus:
  "distinct ks \<Longrightarrow> k \<in> set ks \<Longrightarrow> P k \<Longrightarrow>
     Suc (length (filter (\<lambda>x. x \<noteq> k \<and> P x) ks)) = length (filter P ks)"
proof (induction ks)
  case (Cons a ks)
  show ?case
  proof (cases "a = k")
    case True
    with Cons.prems(1) have "filter (\<lambda>x. x \<noteq> k \<and> P x) ks = filter P ks" by (auto intro: filter_cong)
    with True Cons.prems show ?thesis by simp
  qed (use Cons in auto)
qed simp

text \<open>The orders listed for a nonce that is not filled.\<close>

lemma listed_ok:
  assumes "sim_inv oo nc t" "i \<in> set (waiting_at t k)"
  obtains p ks where "st_pending_orders t i = Some p" "pending_ok oo nc t i p ks" "k \<in> set ks" "\<not> filled t k"
    "count_list (waiting_at t k) i = 1"
proof -
  from assms obtain p ks where p: "st_pending_orders t i = Some p" "pending_ok oo nc t i p ks"
    unfolding sim_inv_def by (metis not_None_eq)
  have "count_list (waiting_at t k) i \<noteq> 0" using assms(2) by (simp add: count_list_0_iff)
  with p(2) have "k \<in> set ks \<and> \<not> filled t k \<and> count_list (waiting_at t k) i = 1"
    unfolding pending_ok_def by (auto split: if_splits)
  with p show ?thesis using that by blast
qed

lemma count_le_1_distinct: "(\<forall>x \<in> set xs. count_list xs x = 1) \<Longrightarrow> distinct xs"
proof (induction xs)
  case (Cons x xs)
  then have "count_list xs x = 0" by simp
  moreover from this have "\<forall>y \<in> set xs. count_list xs y = 1"
    using Cons.prems by (auto simp: count_list_0_iff split: if_splits)
  ultimately show ?case using Cons.IH by (simp add: count_list_0_iff)
qed simp

text \<open>
  Filling a nonce: the orders that waited for it wait for one nonce less, and those that wait for
  nothing any more leave the pending orders.
\<close>

abbreviation fill_nonce :: "account_nonce \<Rightarrow> u64 \<Rightarrow> ('e, 'id, 'o, 'r, 'w) sim_tree \<Rightarrow> ('e, 'id, 'o, 'r, 'w) sim_tree" where
  "fill_nonce k0 n t \<equiv> t\<lparr>sims_that_update_one_nonce := (sims_that_update_one_nonce t)(k0 \<mapsto> n),
     st_pending_nonces := (st_pending_nonces t)(k0 := None)\<rparr>"

abbreviation released :: "account_nonce \<Rightarrow> ('e, 'id, 'o, 'r, 'w) sim_tree \<Rightarrow> 'id \<Rightarrow> 'o pending_order option" where
  "released k0 t i \<equiv>
     if i \<in> set (waiting_at t k0) then Option.bind (st_pending_orders t i) decrement else st_pending_orders t i"

lemma fill_count:
  assumes "pending_ok oo nc t i p ks" "k0 \<in> set ks" "\<not> filled t k0"
  shows "length (filter (\<lambda>k. \<not> filled (fill_nonce k0 n t) k) ks) = length (filter (\<lambda>k. \<not> filled t k) ks) - 1 \<and>
    0 < length (filter (\<lambda>k. \<not> filled t k) ks)"
proof -
  have "distinct ks" using missing_nonces_distinct assms(1) unfolding pending_ok_def by blast
  from filter_minus [OF this assms(2), of "\<lambda>k. sims_that_update_one_nonce t k = None"] assms(3)
  show ?thesis by (auto cong: conj_cong)
qed

lemma fill_pending:
  assumes inv: "sim_inv oo nc t" and free: "\<not> filled t k0" and p: "released k0 t i = Some p"
  shows "\<exists>ks. pending_ok oo nc ((fill_nonce k0 n t)\<lparr>st_pending_orders := released k0 t\<rparr>) i p ks"
proof (cases "i \<in> set (waiting_at t k0)")
  case True
  with inv obtain p0 ks where p0: "st_pending_orders t i = Some p0" "pending_ok oo nc t i p0 ks" "k0 \<in> set ks"
    by (rule listed_ok)
  with p True have "p = p0\<lparr>unsatisfied_nonces := unsatisfied_nonces p0 - 1\<rparr>" "unsatisfied_nonces p0 \<noteq> 1"
    by (auto simp: decrement_def split: if_splits)
  with fill_count [OF p0(2,3) free, of n] p0(2)
  have "pending_ok oo nc ((fill_nonce k0 n t)\<lparr>st_pending_orders := released k0 t\<rparr>) i p ks"
    unfolding pending_ok_def by (auto simp: or_default_def answered_def)
  then show ?thesis ..
next
  case False
  then have "st_pending_orders t i = Some p" using p by simp
  with inv obtain ks where ks: "pending_ok oo nc t i p ks" unfolding sim_inv_def by blast
  with False free have k0: "k0 \<notin> set ks" unfolding pending_ok_def by (metis count_list_0_iff zero_neq_one)
  then have "filter (\<lambda>k. \<not> filled (fill_nonce k0 n t) k) ks = filter (\<lambda>k. \<not> filled t k) ks"
    by (intro filter_cong) auto
  with ks k0 have "pending_ok oo nc ((fill_nonce k0 n t)\<lparr>st_pending_orders := released k0 t\<rparr>) i p ks"
    unfolding pending_ok_def by (auto simp: or_default_def answered_def)
  then show ?thesis ..
qed

lemma fill_listed:
  assumes inv: "sim_inv oo nc t" and free: "\<not> filled t k0" and k: "k \<noteq> k0" "i \<in> set (waiting_at t k)"
  shows "released k0 t i \<noteq> None"
proof -
  from inv k(2) obtain p ks where p: "st_pending_orders t i = Some p" "pending_ok oo nc t i p ks" "k \<in> set ks" "\<not> filled t k"
    by (rule listed_ok)
  show ?thesis
  proof (cases "i \<in> set (waiting_at t k0)")
    case True
    then have "count_list (waiting_at t k0) i \<noteq> 0" by (simp add: count_list_0_iff)
    with p(2) have "k0 \<in> set ks" unfolding pending_ok_def by (auto split: if_splits)
    note len = fill_count [OF p(2) this free]
    have "k \<in> set (filter (\<lambda>k. \<not> filled (fill_nonce k0 0 t) k) ks)" using p(3,4) k(1) by simp
    then have "length (filter (\<lambda>k. \<not> filled (fill_nonce k0 0 t) k) ks) \<noteq> 0"
      by (metis empty_iff length_0_conv list.set(1))
    with len [of 0] p(2) have "unsatisfied_nonces p \<noteq> 1" unfolding pending_ok_def by linarith
    with p(1) True show ?thesis by (simp add: decrement_def)
  qed (use p(1) in simp)
qed

text \<open>A released order misses only nonces that \<open>t'\<close> has filled, and \<open>t\<close> was answered for its accounts.\<close>

definition releasable ::
    "('o, 'id, 'p) orderpool_order \<Rightarrow> (address \<Rightarrow> u64) \<Rightarrow> ('e, 'id, 'o, 'r, 'w) sim_tree \<Rightarrow>
     ('e, 'id, 'o, 'r, 'w) sim_tree \<Rightarrow> 'o \<Rightarrow> bool"
where
  "releasable oo nc t t' ord \<longleftrightarrow>
     (\<exists>ks. missing_nonces nc (order_nonces oo ord) [] = Some ks \<and> list_all (filled t') ks) \<and>
     (\<forall>bn \<in> set (order_nonces oo ord). answered t (bn_address bn))"

lemma fill_ready:
  assumes inv: "sim_inv oo nc t" and free: "\<not> filled t k0"
    and i: "i \<in> set (waiting_at t k0)" "unsatisfied_nonces (the (st_pending_orders t i)) = 1"
  shows "releasable oo nc t (fill_nonce k0 n t) (po_order (the (st_pending_orders t i)))"
proof -
  from inv i(1) obtain p ks where p: "st_pending_orders t i = Some p" "pending_ok oo nc t i p ks" "k0 \<in> set ks"
    by (rule listed_ok)
  with fill_count [OF p(2,3) free, of n] i(2) have "filter (\<lambda>k. \<not> filled (fill_nonce k0 n t) k) ks = []"
    unfolding pending_ok_def by auto
  with p show ?thesis unfolding pending_ok_def releasable_def by (auto simp: filter_empty_conv list_all_iff)
qed

lemma fill_ok:
  assumes inv: "sim_inv oo nc t" and free: "\<not> filled t k0" and sim: "sims t n \<noteq> None"
  shows "\<exists>rdy po. release (waiting_at t k0) [] (fill_nonce k0 n t) = Some (rdy, (fill_nonce k0 n t)\<lparr>st_pending_orders := po\<rparr>) \<and>
    sim_inv oo nc ((fill_nonce k0 n t)\<lparr>st_pending_orders := po\<rparr>) \<and>
    list_all (releasable oo nc t (fill_nonce k0 n t)) rdy"
proof -
  let ?ids = "waiting_at t k0" and ?t2 = "fill_nonce k0 n t"
  let ?t = "?t2\<lparr>st_pending_orders := released k0 t\<rparr>"
  have dist: "distinct ?ids" by (rule count_le_1_distinct) (blast elim: listed_ok [OF inv])
  have "\<forall>i \<in> set ?ids. \<exists>p. st_pending_orders t i = Some p \<and> 0 < unsatisfied_nonces p"
    by (meson listed_ok [OF inv] pending_ok_def)
  then have pos: "\<forall>i \<in> set ?ids. \<exists>p. st_pending_orders ?t2 i = Some p \<and> 0 < unsatisfied_nonces p" by simp
  have pend: "st_pending_orders ?t2 = st_pending_orders t" by simp
  note rel = release_eq [OF dist pos, of "[]", unfolded pend append_Nil]
  have "st_pending_orders ?t i \<noteq> None" if "i \<in> set (waiting_at ?t k)" for k i
  proof -
    from that have "k \<noteq> k0" "i \<in> set (waiting_at t k)" by (auto simp: or_default_def split: if_splits)
    from fill_listed [OF inv free this] show ?thesis by simp
  qed
  moreover have "\<exists>ks. pending_ok oo nc ?t i p ks" if "st_pending_orders ?t i = Some p" for i p
    using fill_pending [OF inv free] that by simp
  moreover have "sims_closed ?t" using inv sim by (auto simp: sim_inv_def sims_closed_def)
  moreover have "st_log ?t = st_log t" by simp
  ultimately have "sim_inv oo nc ?t" using inv unfolding sim_inv_def by simp
  then show ?thesis using rel fill_ready [OF inv free] by (fastforce simp: list_all_iff)
qed

definition new_updates ::
    "('r \<Rightarrow> 's::linorder) \<Rightarrow> ('o, 'r) simulated_result \<Rightarrow> ('e, 'id, 'o, 'r, 'w) sim_tree \<Rightarrow> account_nonce \<rightharpoonup> u64" where
  "new_updates score result t =
     (case nonces_after result of
        [k] \<Rightarrow>
          (case sims_that_update_one_nonce t k of
             None \<Rightarrow> (sims_that_update_one_nonce t)(k \<mapsto> sr_id result)
           | Some i \<Rightarrow>
               if score (simulated_order (the (((sims t)(sr_id result \<mapsto> result)) i))) < score (simulated_order result)
               then (sims_that_update_one_nonce t)(k \<mapsto> sr_id result) else sims_that_update_one_nonce t)
      | _ \<Rightarrow> sims_that_update_one_nonce t)"

text \<open>
  What submitting a result does: it returns, with an error only if the source fails for an account it
  has answered before, keeps the invariant and adds requests that are ready.
\<close>

definition submit_ok ::
    "('o, 'id, 'p) orderpool_order \<Rightarrow> (address \<Rightarrow> u64) \<Rightarrow> ('r \<Rightarrow> 's::linorder) \<Rightarrow> ('w \<Rightarrow> u64 \<times> 'w) \<Rightarrow>
     ('o, 'r) simulated_result \<Rightarrow> ('e, 'id, 'o, 'r, 'w) sim_tree \<Rightarrow> bool"
where
  "submit_ok oo nc score random result t \<longleftrightarrow>
     (\<exists>r t' reqs. process_simulation_task_result oo score random result t = Some (r, t') \<and>
        (r = Inr () \<or> (\<exists>e. source_failure t e \<and> r = Inl e)) \<and> sim_inv oo nc t' \<and>
        st_nonces t' = st_nonces t \<and> sims t' = (sims t)(sr_id result \<mapsto> result) \<and>
        sims_that_update_one_nonce t' = new_updates score result t \<and>
        ready_orders t' = ready_orders t @ reqs \<and> list_all (request_ok oo nc t') reqs)"

text \<open>
  A result that fills one nonce: the nonce has a simulation already, which the better one of the
  two replaces, or it is free, and the orders that waited for it can be simulated.
\<close>

lemma sims_closed_insert: "sims_closed t \<Longrightarrow> sims_closed (t\<lparr>sims := (sims t)(sr_id result \<mapsto> result)\<rparr>)"
  by (auto simp: sims_closed_def)

lemma process_occupied:
  assumes "sim_inv oo nc t" and occupied: "nonces_after result = [k]" "sims_that_update_one_nonce t k = Some i"
    "sims (t\<lparr>sims := (sims t)(sr_id result \<mapsto> result)\<rparr>) i = Some sim"
  shows "submit_ok oo nc score random result t"
proof -
  let ?t = "t\<lparr>sims := (sims t)(sr_id result \<mapsto> result)\<rparr>"
  have closed: "sims_closed ?t" using assms(1) sims_closed_insert unfolding sim_inv_def by blast
  let ?better = "score (simulated_order sim) < score (simulated_order result)"
  let ?t' = "if ?better then ?t\<lparr>sims_that_update_one_nonce :=
    (sims_that_update_one_nonce t)(k \<mapsto> sr_id result)\<rparr> else ?t"
  have fields: "st_nonces ?t' = st_nonces t" "st_calls ?t' = st_calls t" "st_pending_orders ?t' = st_pending_orders t"
    "st_pending_nonces ?t' = st_pending_nonces t" "st_log ?t' = st_log t" "ready_orders ?t' = ready_orders t"
    "sims ?t' = (sims t)(sr_id result \<mapsto> result)"
    "sims_that_update_one_nonce ?t' = new_updates score result t"
    using occupied by (simp_all add: new_updates_def)
  have "sim_inv oo nc ?t'"
    by (rule sim_inv_cong [OF assms(1)])
      (use fields closed occupied in \<open>auto simp: sims_closed_def new_updates_def\<close>)
  moreover have "process_simulation_task_result oo score random result t = Some (Inr (), ?t')"
    using occupied by (simp add: process_simulation_task_result_def Let_def)
  ultimately show ?thesis unfolding submit_ok_def
    using fields by (intro exI [of _ "Inr ()"] exI [of _ ?t'] exI [of _ "[]"]) simp
qed

lemma process_vacant:
  assumes "sim_inv oo nc t" and vacant: "nonces_after result = [k]" "\<not> filled t k"
  shows "submit_ok oo nc score random result t"
proof -
  let ?t = "t\<lparr>sims := (sims t)(sr_id result \<mapsto> result)\<rparr>"
  have closed: "sims_closed ?t" using assms(1) sims_closed_insert unfolding sim_inv_def by blast
  have inv: "sim_inv oo nc ?t" by (rule sim_inv_cong [OF assms(1)]) (use closed in simp_all)
  let ?t2 = "?t\<lparr>sims_that_update_one_nonce := (sims_that_update_one_nonce ?t)(k \<mapsto> sr_id result),
    st_pending_nonces := (st_pending_nonces ?t)(k := None)\<rparr>"
  have free: "\<not> filled ?t k" "sims ?t (sr_id result) \<noteq> None" using vacant by simp_all
  obtain rdy po where fill: "release (waiting_at ?t k) [] ?t2 = Some (rdy, ?t2\<lparr>st_pending_orders := po\<rparr>)"
    "sim_inv oo nc (?t2\<lparr>st_pending_orders := po\<rparr>)"
    "list_all (releasable oo nc ?t ?t2) rdy"
    using fill_ok [OF inv free] by blast
  let ?t3 = "?t2\<lparr>st_pending_orders := po\<rparr>"
  have c3: "sims_closed ?t3" "nonces_cached nc (st_nonces ?t3)" using fill(2) unfolding sim_inv_def by blast+
  have "\<forall>ord \<in> set rdy. (\<exists>ks. missing_nonces nc (order_nonces oo ord) [] = Some ks \<and> list_all (filled ?t3) ks) \<and>
      (\<forall>bn \<in> set (order_nonces oo ord). answered t (bn_address bn))"
    using fill(3) by (simp add: releasable_def list_all_iff answered_def)
  from request_ready_eq [OF c3 this, of random] obtain r t' reqs where
    rr: "request_ready oo random rdy ?t3 = Some (r, t')" "st_nonces t' = st_nonces ?t3" "sims t' = sims ?t3"
      "sims_that_update_one_nonce t' = sims_that_update_one_nonce ?t3" "st_pending_orders t' = st_pending_orders ?t3"
      "st_pending_nonces t' = st_pending_nonces ?t3" "st_log t' = st_log ?t3"
      "ready_orders t' = ready_orders ?t3 @ reqs" "list_all (request_ok oo nc ?t3) reqs" "st_calls ?t3 \<le> st_calls t'"
      "r = Inr () \<and> map sq_order reqs = rdy \<or>
       (\<exists>n a e. st_calls ?t3 \<le> n \<and> st_nonces ?t3 n a = Inl e \<and> answered t a \<and> r = Inl e)" by blast
  then have res: "r = Inr () \<or> (\<exists>e. source_failure t e \<and> r = Inl e)" by (auto simp: source_failure_def)
  have inv': "sim_inv oo nc t'"
    by (rule sim_inv_cong [OF fill(2)]) (use rr c3 in \<open>simp_all add: sims_closed_def\<close>)
  have ok: "list_all (request_ok oo nc t') reqs" using rr(9) unfolding request_ok_cong [OF rr(3,4)] .
  have "st_pending_nonces t k = None \<Longrightarrow> ?t2 = ?t\<lparr>sims_that_update_one_nonce := (sims_that_update_one_nonce ?t)(k \<mapsto> sr_id result)\<rparr>"
    by (simp add: fun_upd_idem)
  then have "process_simulation_task_result oo score random result t = Some (r, t')"
    using vacant fill(1) rr(1)
    by (cases "st_pending_nonces t k") (auto simp: process_simulation_task_result_def Let_def or_default_def)
  moreover have "sims_that_update_one_nonce t' = new_updates score result t"
    using vacant rr(4) by (simp add: new_updates_def)
  ultimately show ?thesis unfolding submit_ok_def
    using inv' ok rr(2-8) res by (intro exI [of _ r] exI [of _ t'] exI [of _ reqs]) simp
qed

lemma process_ok:
  assumes "sim_inv oo nc t"
  shows "submit_ok oo nc score random result t"
proof -
  let ?t = "t\<lparr>sims := (sims t)(sr_id result \<mapsto> result)\<rparr>"
  have closed: "sims_closed ?t" using assms sims_closed_insert unfolding sim_inv_def by blast
  have inv: "sim_inv oo nc ?t" by (rule sim_inv_cong [OF assms]) (use closed in simp_all)
  consider (other) "\<nexists>k. nonces_after result = [k]"
    | (occupied) k i sim where "nonces_after result = [k]" "sims_that_update_one_nonce t k = Some i" "sims ?t i = Some sim"
    | (vacant) k where "nonces_after result = [k]" "\<not> filled t k"
  proof (cases "\<exists>k. nonces_after result = [k]")
    case True
    then obtain k where k: "nonces_after result = [k]" by blast
    show ?thesis
    proof (cases "sims_that_update_one_nonce t k")
      case None
      then show ?thesis using that(3) [OF k] by simp
    next
      case (Some i)
      with closed obtain sim where "sims ?t i = Some sim" unfolding sims_closed_def by fastforce
      then show ?thesis using that(2) [OF k Some] by blast
    qed
  qed (use that(1) in blast)
  then show ?thesis
  proof cases
    case other
    then have "process_simulation_task_result oo score random result t = Some (Inr (), ?t)"
      "new_updates score result t = sims_that_update_one_nonce t"
      by (auto simp: process_simulation_task_result_def new_updates_def Let_def split: list.split)
    with inv show ?thesis unfolding submit_ok_def
      by (intro exI [of _ "Inr ()"] exI [of _ ?t] exI [of _ "[]"]) simp
  next
    case (occupied k i sim)
    then show ?thesis by (rule process_occupied [OF assms])
  next
    case (vacant k)
    then show ?thesis by (rule process_vacant [OF assms])
  qed
qed

subsection \<open>Reachable trees\<close>

text \<open>
  The trees the operations produce, over a source of nonces that is cached. With the flag \<open>fresh\<close>,
  every submitted result has an identifier under which no result was submitted before. The code
  draws the identifiers of its requests at random and relies on the caller to give each result the
  identifier of its own request; it checks neither.
\<close>

inductive sim_reach ::
    "bool \<Rightarrow> ('o, 'id, 'p) orderpool_order \<Rightarrow> (address \<Rightarrow> u64) \<Rightarrow> ('r \<Rightarrow> 's::linorder) \<Rightarrow> ('w \<Rightarrow> u64 \<times> 'w) \<Rightarrow>
     ('e, 'id, 'o, 'r, 'w) sim_tree \<Rightarrow> bool"
  for fresh oo nc score random where
  sim_new: "nonces_cached nc src \<Longrightarrow> sim_reach fresh oo nc score random (sim_tree_new src w)"
| sim_push: "sim_reach fresh oo nc score random t \<Longrightarrow> push_order oo random ord t = Some (r, t') \<Longrightarrow>
    sim_reach fresh oo nc score random t'"
| sim_pop: "sim_reach fresh oo nc score random t \<Longrightarrow> pop_simulation_tasks limit t = (tasks, t') \<Longrightarrow>
    sim_reach fresh oo nc score random t'"
| sim_submit: "sim_reach fresh oo nc score random t \<Longrightarrow>
    process_simulation_task_result oo score random result t = Some (r, t') \<Longrightarrow>
    fresh \<longrightarrow> sims t (sr_id result) = None \<Longrightarrow> sim_reach fresh oo nc score random t'"

lemma sim_new_inv: "nonces_cached nc src \<Longrightarrow> sim_inv oo nc (sim_tree_new src w)"
  by (simp add: sim_inv_def sims_closed_def sim_tree_new_def or_default_def)

lemma pop_fields:
  assumes "pop_simulation_tasks limit t = (tasks, t')"
  shows "t' = t\<lparr>ready_orders := drop (length tasks) (ready_orders t)\<rparr>" "ready_orders t = tasks @ ready_orders t'"
  using assms by (auto simp: pop_simulation_tasks_def Let_def)

lemma sim_inv_pop: "sim_inv oo nc t \<Longrightarrow> pop_simulation_tasks limit t = (tasks, t') \<Longrightarrow> sim_inv oo nc t'"
  using sim_inv_cong [of oo nc t t'] pop_fields(1) [of limit t tasks t'] by (simp add: sim_inv_def sims_closed_def)

lemma sim_reach_inv: "sim_reach fresh oo nc score random t \<Longrightarrow> sim_inv oo nc t"
proof (induction rule: sim_reach.induct)
  case (sim_push t ord r t')
  with push_order_ok [of oo nc t random ord] show ?case by auto
next
  case (sim_submit t result r t')
  with process_ok [of oo nc t score random result] show ?case unfolding submit_ok_def by auto
qed (auto intro: sim_new_inv sim_inv_pop)

definition best_sims :: "('r \<Rightarrow> 's::linorder) \<Rightarrow> ('e, 'id, 'o, 'r, 'w) sim_tree \<Rightarrow> account_nonce \<Rightarrow> bool" where
  "best_sims score t k \<longleftrightarrow>
     (case sims_that_update_one_nonce t k of
        None \<Rightarrow> \<forall>sim \<in> ran (sims t). nonces_after sim \<noteq> [k]
      | Some i \<Rightarrow> \<exists>best. sims t i = Some best \<and> nonces_after best = [k] \<and>
          (\<forall>sim \<in> ran (sims t). nonces_after sim = [k] \<longrightarrow> score (simulated_order sim) \<le> score (simulated_order best)))"

definition parents_ok :: "('o, 'id, 'p) orderpool_order \<Rightarrow> (address \<Rightarrow> u64) \<Rightarrow> ('e, 'id, 'o, 'r, 'w) sim_tree \<Rightarrow> 'o simulation_request \<Rightarrow> bool" where
  "parents_ok oo nc t rq \<longleftrightarrow>
     (\<exists>ks ss. missing_nonces nc (order_nonces oo (sq_order rq)) [] = Some ks \<and>
        list_all2 (\<lambda>k sim. sim \<in> ran (sims t) \<and> nonces_after sim = [k]) ks ss \<and>
        sq_parents rq = concat (map chain_of ss))"

lemma parents_ok_mono:
  assumes "parents_ok oo nc t rq" "ran (sims t) \<subseteq> ran (sims t')"
  shows "parents_ok oo nc t' rq"
  using assms list_all2_mono [of "\<lambda>k sim. sim \<in> ran (sims t) \<and> nonces_after sim = [k]" _ _
      "\<lambda>k sim. sim \<in> ran (sims t') \<and> nonces_after sim = [k]"]
  unfolding parents_ok_def by (metis (no_types, lifting) subsetD)

lemma request_parents_ok:
  assumes "request_ok oo nc t rq" "\<forall>k. best_sims score t k"
  shows "parents_ok oo nc t rq"
proof -
  from assms(1) obtain ks where ks: "missing_nonces nc (order_nonces oo (sq_order rq)) [] = Some ks"
    "list_all (filled t) ks" "sq_parents rq = concat (map (chain_for t) ks)" unfolding request_ok_def by blast
  let ?sim = "\<lambda>k. the (sims t (the (sims_that_update_one_nonce t k)))"
  have "?sim k \<in> ran (sims t) \<and> nonces_after (?sim k) = [k]" if k: "k \<in> set ks" for k
  proof -
    from k ks(2) obtain i where i: "sims_that_update_one_nonce t k = Some i" by (auto simp: list_all_iff)
    with assms(2) [rule_format, of k] obtain best where "sims t i = Some best" "nonces_after best = [k]"
      by (auto simp: best_sims_def)
    with i show ?thesis by (auto intro: ranI)
  qed
  then have "list_all2 (\<lambda>k sim. sim \<in> ran (sims t) \<and> nonces_after sim = [k]) ks (map ?sim ks)"
    by (auto simp: list_all2_conv_all_nth)
  moreover have "sq_parents rq = concat (map chain_of (map ?sim ks))"
    unfolding ks(3) by (simp add: chain_for_def [abs_def] comp_def)
  ultimately show ?thesis using ks(1) unfolding parents_ok_def by blast
qed

lemma best_sims_submit:
  assumes "best_sims score t k" "sims t (sr_id result) = None" "sims t' = (sims t)(sr_id result \<mapsto> result)"
    and "sims_that_update_one_nonce t' = new_updates score result t"
  shows "best_sims score t' k"
proof -
  note ran' = ran_map_upd [of "sims t" "sr_id result" result, OF assms(2)]
  show ?thesis
  proof (cases "nonces_after result = [k]")
    case False
    then have "sims_that_update_one_nonce t' k = sims_that_update_one_nonce t k"
      by (auto simp: assms(4) new_updates_def split: list.split option.split)
    with False assms(1,2) show ?thesis
      unfolding best_sims_def assms(3) ran' by (auto split: option.splits)
  next
    case True
    show ?thesis
    proof (cases "sims_that_update_one_nonce t k")
      case None
      with True assms(1) show ?thesis
        unfolding best_sims_def assms(3,4) ran' by (simp add: new_updates_def)
    next
      case (Some i)
      with assms(1) obtain best where best: "sims t i = Some best" "nonces_after best = [k]"
        "\<forall>sim \<in> ran (sims t). nonces_after sim = [k] \<longrightarrow> score (simulated_order sim) \<le> score (simulated_order best)"
        by (auto simp: best_sims_def)
      with assms(2) have "i \<noteq> sr_id result" by auto
      with True Some best show ?thesis
        unfolding best_sims_def assms(3,4) ran'
        by (auto simp: new_updates_def dest: order.strict_trans2 intro: order.trans)
    qed
  qed
qed

lemma sim_reach_fresh:
  "sim_reach fresh oo nc score random t \<Longrightarrow> fresh \<Longrightarrow>
     (\<forall>k. best_sims score t k) \<and> list_all (parents_ok oo nc t) (ready_orders t)"
proof (induction rule: sim_reach.induct)
  case (sim_new src w)
  show ?case by (simp add: best_sims_def sim_tree_new_def)
next
  case (sim_push t ord r t')
  from push_order_ok [OF sim_reach_inv [OF sim_push(1)], of random ord] sim_push(2) obtain reqs where
    t': "st_nonces t' = st_nonces t" "sims t' = sims t" "sims_that_update_one_nonce t' = sims_that_update_one_nonce t"
      "ready_orders t' = ready_orders t @ reqs" "list_all (request_ok oo nc t) reqs" by auto
  from sim_push(3,4) have IH: "\<forall>k. best_sims score t k" "list_all (parents_ok oo nc t) (ready_orders t)" by blast+
  have "parents_ok oo nc t' = parents_ok oo nc t" unfolding parents_ok_def t' ..
  with IH t'(5) have "list_all (parents_ok oo nc t') (ready_orders t @ reqs)"
    by (auto simp: list_all_iff intro: request_parents_ok)
  with IH(1) show ?case unfolding best_sims_def t' by blast
next
  case (sim_pop t limit tasks t')
  from sim_pop(3,4) have IH: "\<forall>k. best_sims score t k" "list_all (parents_ok oo nc t) (ready_orders t)" by blast+
  have t': "st_nonces t' = st_nonces t" "sims t' = sims t" "sims_that_update_one_nonce t' = sims_that_update_one_nonce t"
    using pop_fields(1) [OF sim_pop(2)] by simp_all
  have "parents_ok oo nc t' = parents_ok oo nc t" unfolding parents_ok_def t' ..
  with IH(2) have "list_all (parents_ok oo nc t') (ready_orders t')" unfolding pop_fields(2) [OF sim_pop(2)] by simp
  with IH(1) show ?case unfolding best_sims_def t' by blast
next
  case (sim_submit t result r t')
  from process_ok [OF sim_reach_inv [OF sim_submit(1)], of score random result, unfolded submit_ok_def] sim_submit(2) obtain reqs where
    t': "st_nonces t' = st_nonces t" "sims t' = (sims t)(sr_id result \<mapsto> result)"
      "sims_that_update_one_nonce t' = new_updates score result t"
      "ready_orders t' = ready_orders t @ reqs" "list_all (request_ok oo nc t') reqs" by auto
  from sim_submit(4,5) have IH: "\<forall>k. best_sims score t k" "list_all (parents_ok oo nc t) (ready_orders t)" by blast+
  have new: "sims t (sr_id result) = None" using sim_submit(3,5) by blast
  have best: "\<forall>k. best_sims score t' k" using best_sims_submit [OF _ new t'(2,3)] IH(1) by blast
  have sub: "ran (sims t) \<subseteq> ran (sims t')" unfolding t'(2) ran_map_upd [of "sims t", OF new] by blast
  have "list_all (parents_ok oo nc t') (ready_orders t @ reqs)"
    using IH(2) t'(5) parents_ok_mono [of oo nc t _ t', OF _ sub] request_parents_ok [of oo nc t' _ score, OF _ best]
    by (auto simp: list_all_iff)
  with best show ?case unfolding t'(4) by blast
qed

subsection \<open>Properties\<close>

text \<open>
  Claim C23: the simulation tree never reaches its panics and never logs one of its "SimTree bug"
  messages: in every reachable tree, over a source of nonces that always gives an account the same
  nonce when it answers, pushing an order returns, submitting a result succeeds unless the source
  fails for an account that it has answered before (then the result is the source's error), and
  every pending order waits for a nonce that no simulation has filled, so that none waits in vain.
\<close>

theorem sim_tree_never_panics:
  assumes "sim_reach fresh oo nc score random t"
  shows "(\<exists>r t'. push_order oo random ord t = Some (r, t') \<and> st_log t' = []) \<and>
    (\<exists>r t'. process_simulation_task_result oo score random result t = Some (r, t') \<and> st_log t' = [] \<and>
       (r = Inr () \<or> (\<exists>e. r = Inl e \<and>
          (\<exists>m < st_calls t. \<exists>n \<ge> st_calls t. \<exists>a k. st_nonces t m a = Inr k \<and> st_nonces t n a = Inl e)))) \<and>
    (\<forall>i p. st_pending_orders t i = Some p \<longrightarrow>
       order_id oo (po_order p) = i \<and> (\<exists>k. i \<in> set (waiting_at t k) \<and> sims_that_update_one_nonce t k = None))"
proof (intro conjI allI impI)
  note inv = sim_reach_inv [OF assms]
  show "\<exists>r t'. push_order oo random ord t = Some (r, t') \<and> st_log t' = []"
    using push_order_ok [OF inv, of random ord] unfolding sim_inv_def by blast
  show "\<exists>r t'. process_simulation_task_result oo score random result t = Some (r, t') \<and> st_log t' = [] \<and>
      (r = Inr () \<or> (\<exists>e. r = Inl e \<and>
         (\<exists>m < st_calls t. \<exists>n \<ge> st_calls t. \<exists>a k. st_nonces t m a = Inr k \<and> st_nonces t n a = Inl e)))"
    using process_ok [OF inv, of score random result]
    unfolding submit_ok_def sim_inv_def source_failure_def answered_def by blast
  fix i p assume "st_pending_orders t i = Some p"
  with inv obtain ks where ks: "pending_ok oo nc t i p ks" unfolding sim_inv_def by blast
  then show "order_id oo (po_order p) = i" unfolding pending_ok_def by blast
  from ks have "filter (\<lambda>k. sims_that_update_one_nonce t k = None) ks \<noteq> []" unfolding pending_ok_def by auto
  then obtain k where k: "k \<in> set ks" "sims_that_update_one_nonce t k = None" by (auto simp: filter_empty_conv)
  with ks have "count_list (waiting_at t k) i = 1" unfolding pending_ok_def by simp
  then have "i \<in> set (waiting_at t k)" by (metis count_list_0_iff zero_neq_one)
  with k(2) show "\<exists>k. i \<in> set (waiting_at t k) \<and> sims_that_update_one_nonce t k = None" by blast
qed

text \<open>
  Claim C24: as long as no two results are submitted under one identifier, and over a source of
  nonces that always gives an account the same nonce when it answers, every request that is ready
  can be simulated: for each nonce its order is missing there is a submitted simulation that brings exactly that account to that nonce, and the parents of
  the request are those simulations' orders, each after its own parents, in the order of the
  nonces.
\<close>

theorem ready_orders_have_parents:
  assumes "sim_reach True oo nc score random t" "rq \<in> set (ready_orders t)"
  shows "\<exists>ks ss. missing_nonces nc (order_nonces oo (sq_order rq)) [] = Some ks \<and>
    list_all2 (\<lambda>k sim. sim \<in> ran (sims t) \<and> nonces_after sim = [k]) ks ss \<and>
    sq_parents rq = concat (map (\<lambda>sim. previous_orders sim @ [sr_order sim]) ss)"
proof -
  have "parents_ok oo nc t rq" using sim_reach_fresh [OF assms(1)] assms(2) by (simp add: list_all_iff)
  then show ?thesis unfolding parents_ok_def chain_of_def [abs_def] .
qed

text \<open>
  Claim C25: as long as no two results are submitted under one identifier, and over a source of
  nonces that always gives an account the same nonce when it answers, the tree builds on the best
  simulation: for every nonce it remembers a simulation of
  greatest score among all submitted ones that bring exactly that account to that nonce, and
  none only if there is no such simulation.
\<close>

theorem best_simulation_kept:
  assumes "sim_reach True oo nc score random t"
  shows "case sims_that_update_one_nonce t k of
      None \<Rightarrow> {sim \<in> ran (sims t). nonces_after sim = [k]} = {}
    | Some i \<Rightarrow> \<exists>best. sims t i = Some best \<and> nonces_after best = [k] \<and>
        (\<forall>sim \<in> ran (sims t). nonces_after sim = [k] \<longrightarrow> score (simulated_order sim) \<le> score (simulated_order best))"
proof -
  have "best_sims score t k" using sim_reach_fresh [OF assms] by blast
  then show ?thesis unfolding best_sims_def by (auto split: option.split)
qed

text \<open>Two transactions of one account: the second waits for a simulation of the first.\<close>

definition tx_orders :: "(recovered_tx, b256, unit) orderpool_order" where
  "tx_orders = \<lparr>order_id = tx_hash, order_nonces = transaction_nonces, order_priority = (\<lambda>tx. ())\<rparr>"

definition next_id :: "u64 \<Rightarrow> u64 \<times> u64" where
  "next_id w = (w, w + 1)"

definition tree0 :: "(string, b256, recovered_tx, nat, u64) sim_tree" where
  "tree0 = snd (the (push_order tx_orders next_id (sample_tx 2 7 1) (sim_tree_new (\<lambda>n a. Inr 0) 5)))"

definition first_result :: "(recovered_tx, nat) simulated_result" where
  "first_result =
     \<lparr>sr_id = 3, simulated_order = 10, sr_order = sample_tx 1 7 0, previous_orders = [],
      nonces_after = [\<lparr>an_account = 7, an_nonce = 1\<rparr>]\<rparr>"

definition tree1 :: "(string, b256, recovered_tx, nat, u64) sim_tree" where
  "tree1 = snd (the (process_simulation_task_result tx_orders (\<lambda>s. s) next_id first_result tree0))"

lemma tree_reach:
  "sim_reach True tx_orders (\<lambda>a. 0) (\<lambda>s. s) next_id tree0" "sim_reach True tx_orders (\<lambda>a. 0) (\<lambda>s. s) next_id tree1"
proof -
  have new: "sim_reach True tx_orders (\<lambda>a. 0) (\<lambda>s. s) next_id (sim_tree_new (\<lambda>n a. Inr 0) 5 :: (string, b256, recovered_tx, nat, u64) sim_tree)"
    by (rule sim_new) (simp add: nonces_cached_def)
  from push_order_ok [OF sim_reach_inv [OF new], of next_id "sample_tx 2 7 1"] obtain r t' where
    t': "push_order tx_orders next_id (sample_tx 2 7 1) (sim_tree_new (\<lambda>n a. Inr 0) 5 :: (string, b256, recovered_tx, nat, u64) sim_tree) = Some (r, t')"
      "sims t' = sims (sim_tree_new (\<lambda>n a. Inr 0) 5 :: (string, b256, recovered_tx, nat, u64) sim_tree)" by blast
  then have t0: "tree0 = t'" by (simp add: tree0_def)
  then show reach: "sim_reach True tx_orders (\<lambda>a. 0) (\<lambda>s. s) next_id tree0" using sim_push [OF new t'(1)] by simp
  from process_ok [OF sim_reach_inv [OF reach], of "\<lambda>s. s" next_id first_result, unfolded submit_ok_def] obtain r t'' where
    "process_simulation_task_result tx_orders (\<lambda>s. s) next_id first_result tree0 = Some (r, t'')" by blast
  with sim_submit [OF reach this] t'(2) t0 show "sim_reach True tx_orders (\<lambda>a. 0) (\<lambda>s. s) next_id tree1"
    by (simp add: tree1_def sim_tree_new_def)
qed

lemma tree_values:
  "st_pending_orders tree0 2 = Some \<lparr>po_order = sample_tx 2 7 1, unsatisfied_nonces = 1\<rparr>"
  "map sq_order (ready_orders tree1) = [sample_tx 2 7 1]"
  "sims_that_update_one_nonce tree1 \<lparr>an_account = 7, an_nonce = 1\<rparr> = Some 3"
  by (simp_all add: tree1_def tree0_def push_order_def get_order_nonce_state_def tx_orders_def transaction_nonces_def
      sim_tree_new_def Let_def process_simulation_task_result_def first_result_def or_default_def
      request_simulation_def next_id_def)

theorem sim_tree_never_panics_witness:
  "\<exists>k. 2 \<in> set (waiting_at tree0 k) \<and> sims_that_update_one_nonce tree0 k = None"
  using sim_tree_never_panics [OF tree_reach(1)] tree_values(1) by blast

theorem ready_orders_have_parents_witness:
  "\<exists>rq (ss :: (recovered_tx, nat) simulated_result list). ready_orders tree1 = [rq] \<and> map nonces_after ss = [[\<lparr>an_account = 7, an_nonce = 1\<rparr>]] \<and>
     sq_parents rq = concat (map (\<lambda>sim. previous_orders sim @ [sr_order sim]) ss)"
proof -
  from tree_values(2) obtain rq where rq: "ready_orders tree1 = [rq]" "sq_order rq = sample_tx 2 7 1" by auto
  have "rq \<in> set (ready_orders tree1)" using rq(1) by simp
  from ready_orders_have_parents [OF tree_reach(2) this] rq(2) obtain ss where
    "list_all2 (\<lambda>k sim. sim \<in> ran (sims tree1) \<and> nonces_after sim = [k]) [\<lparr>an_account = 7, an_nonce = 1\<rparr>] ss"
    "sq_parents rq = concat (map (\<lambda>sim. previous_orders sim @ [sr_order sim]) ss)"
    by (auto simp: tx_orders_def transaction_nonces_def bn_key_def)
  then show ?thesis using rq(1) by (intro exI [of _ rq] exI [of _ ss]) (auto simp: list_all2_Cons1)
qed

theorem best_simulation_kept_witness:
  "\<exists>best. sims tree1 3 = Some best \<and> nonces_after best = [\<lparr>an_account = 7, an_nonce = 1\<rparr>]"
  using best_simulation_kept [OF tree_reach(2), of "\<lparr>an_account = 7, an_nonce = 1\<rparr>"] tree_values(3) by auto

text \<open>
  The identifiers matter: two results for one nonce, and then a worse one under the identifier of the
  better of the two. The tree goes on building on that identifier.
\<close>

definition result_of :: "u64 \<Rightarrow> nat \<Rightarrow> (recovered_tx, nat) simulated_result" where
  "result_of i score = first_result\<lparr>sr_id := i, simulated_order := score\<rparr>"

lemma reused_identifier_forgets_best:
  "\<exists>t. submit_simulation_tasks_results tx_orders (\<lambda>s. s) next_id [result_of 3 10, result_of 4 7, result_of 3 5]
      (sim_tree_new (\<lambda>n a. Inr 0) 5 :: (string, b256, recovered_tx, nat, u64) sim_tree) = Some (Inr (), t) \<and>
    sims_that_update_one_nonce t \<lparr>an_account = 7, an_nonce = 1\<rparr> = Some 3 \<and>
    map_option simulated_order (sims t 3) = Some 5 \<and> map_option simulated_order (sims t 4) = Some 7"
  by (simp add: result_of_def first_result_def process_simulation_task_result_def sim_tree_new_def Let_def)

text \<open>
  A transient failure of the source: the result of the first transaction releases the second, and the
  source fails as the tree looks up its nonces again. The error is returned, and the second
  transaction is neither pending nor ready any more.
\<close>

lemma source_failure_loses_order:
  "\<exists>t t'. push_order tx_orders next_id (sample_tx 2 7 1)
      (sim_tree_new (\<lambda>n a. if n = 1 then Inl ''down'' else Inr 0) 5 :: (string, b256, recovered_tx, nat, u64) sim_tree) =
        Some (Inr (), t) \<and> st_pending_orders t 2 \<noteq> None \<and>
    process_simulation_task_result tx_orders (\<lambda>s. s) next_id first_result t = Some (Inl ''down'', t') \<and>
    st_pending_orders t' 2 = None \<and> ready_orders t' = []"
  by (simp add: push_order_def get_order_nonce_state_def tx_orders_def transaction_nonces_def sim_tree_new_def Let_def
      process_simulation_task_result_def first_result_def or_default_def)

end
