(* ===== verification/Platforms.thy ===== *)
theory Platforms
  imports Allocation
begin

section \<open>Platforms\<close>

text \<open>
  The code of the two platforms that is not wiring of reth: Optimism's data availability of
  results, checkpoints and spans (\<open>crates/core/src/platform/optimism/ext.rs\<close>), the payload that
  is handed to reth's builders (\<open>optimism/mod.rs\<close>, \<open>ethereum/mod.rs\<close>) and the fixed list of
  transactions Ethereum's builder draws from (\<open>ethereum/pool.rs\<close>).

  Parameters: the size estimate of \<open>op_alloy_flz\<close>, the footprint scalar read from the L1 block
  contract, reth's builders, the conversion into pooled transactions and the identifiers of
  senders, which differ for different senders.
\<close>

subsection \<open>Data availability\<close>

definition result_da_bytes_used :: "(bytes \<Rightarrow> u64) \<Rightarrow> execution_result \<Rightarrow> u64" where
  "result_da_bytes_used flz r =
     sum_list (map (\<lambda>tx. flz (tx_encoded_2718 tx)) (filter (\<lambda>tx. \<not> tx_is_deposit tx) (result_transactions r)))"

definition da_bytes_used :: "(bytes \<Rightarrow> u64) \<Rightarrow> 'c checkpoint \<Rightarrow> u64" where
  "da_bytes_used flz cp = (case cp_result cp of None \<Rightarrow> 0 | Some r \<Rightarrow> result_da_bytes_used flz r)"

definition span_da_bytes_used :: "(bytes \<Rightarrow> u64) \<Rightarrow> 'c span \<Rightarrow> u64" where
  "span_da_bytes_used flz s = sum_list (map (da_bytes_used flz) s)"

definition cumulative_da_bytes_used :: "(bytes \<Rightarrow> u64) \<Rightarrow> 'c checkpoint \<Rightarrow> u64" where
  "cumulative_da_bytes_used flz cp = span_da_bytes_used flz (history cp)"

definition da_footprint_gas_scalar :: "(database_ref \<Rightarrow> string + u16) \<Rightarrow> 'c checkpoint \<Rightarrow> u16 option" where
  "da_footprint_gas_scalar fetch cp =
     (if is_jovian_active (cp_block cp)
      then (case fetch (checkpoint_db cp) of Inr scalar \<Rightarrow> Some scalar | Inl e \<Rightarrow> None)
      else None)"

definition da_footprint :: "(bytes \<Rightarrow> u64) \<Rightarrow> (database_ref \<Rightarrow> string + u16) \<Rightarrow> 'c checkpoint \<Rightarrow> u64 option" where
  "da_footprint flz fetch cp =
     map_option (\<lambda>scalar. da_bytes_used flz cp * ucast scalar) (da_footprint_gas_scalar fetch cp)"

definition span_da_footprint :: "(bytes \<Rightarrow> u64) \<Rightarrow> (database_ref \<Rightarrow> string + u16) \<Rightarrow> 'c span \<Rightarrow> u64" where
  "span_da_footprint flz fetch s = sum_list (List.map_filter (da_footprint flz fetch) s)"

definition cumulative_da_footprint ::
    "(bytes \<Rightarrow> u64) \<Rightarrow> (database_ref \<Rightarrow> string + u16) \<Rightarrow> 'c checkpoint \<Rightarrow> u64 option" where
  "cumulative_da_footprint flz fetch cp =
     (if is_jovian_active (cp_block cp) then Some (span_da_footprint flz fetch (history cp)) else None)"

text \<open>The outer \<open>None\<close> is the failed \<open>expect\<close>.\<close>

definition blob_fields ::
    "(bytes \<Rightarrow> u64) \<Rightarrow> (database_ref \<Rightarrow> string + u16) \<Rightarrow> 'c checkpoint \<Rightarrow> (u64 option \<times> u64 option) option" where
  "blob_fields flz fetch cp =
     (if is_jovian_active (cp_block cp)
      then map_option (\<lambda>footprint. (Some 0, Some footprint)) (cumulative_da_footprint flz fetch cp)
      else if is_ecotone_active (cp_block cp) then Some (Some 0, Some 0)
      else Some (None, None))"

subsection \<open>The environment of the next block\<close>

text \<open>
  \<open>next_block_environment_context\<close>. Ethereum's attributes carry withdrawals, Optimism's context has
  none. The gas limit of reth's \<open>EthereumBuilderConfig\<close> and the extra data of Optimism's attributes
  are parameters.
\<close>

record next_block_env =
  nb_timestamp :: u64
  nb_suggested_fee_recipient :: address
  nb_prev_randao :: b256
  nb_gas_limit :: u64
  nb_parent_beacon_block_root :: "b256 option"
  nb_withdrawals :: "withdrawal list option"
  nb_extra_data :: bytes

definition ethereum_next_block_env ::
    "(u64 \<Rightarrow> u64) \<Rightarrow> chainspec \<Rightarrow> header \<Rightarrow> payload_attributes \<Rightarrow> string + next_block_env" where
  "ethereum_next_block_env builder_gas_limit spec par attribs =
     Inr \<lparr>nb_timestamp = attr_timestamp attribs,
          nb_suggested_fee_recipient = attr_suggested_fee_recipient attribs,
          nb_prev_randao = attr_prev_randao attribs,
          nb_gas_limit = builder_gas_limit (hdr_gas_limit par),
          nb_parent_beacon_block_root = attr_parent_beacon_block_root attribs,
          nb_withdrawals = Some (attr_withdrawals attribs),
          nb_extra_data = []\<rparr>"

definition optimism_next_block_env ::
    "(payload_attributes \<Rightarrow> base_fee_params \<Rightarrow> string + bytes) \<Rightarrow>
     (payload_attributes \<Rightarrow> base_fee_params \<Rightarrow> string + bytes) \<Rightarrow>
     chainspec \<Rightarrow> header \<Rightarrow> payload_attributes \<Rightarrow> string + next_block_env" where
  "optimism_next_block_env jovian_extra_data holocene_extra_data spec par attribs =
     (let t = attr_timestamp attribs;
          default_base_fee_param = base_fee_params_at_timestamp spec t;
          extra_data =
            (case (is_jovian_active_at_timestamp spec t, is_holocene_active_at_timestamp spec t) of
               (True, _) \<Rightarrow> jovian_extra_data attribs default_base_fee_param
             | (_, True) \<Rightarrow> holocene_extra_data attribs default_base_fee_param
             | _ \<Rightarrow> Inr [])
      in
      map_ok (\<lambda>extra_data.
        \<lparr>nb_timestamp = t,
         nb_suggested_fee_recipient = attr_suggested_fee_recipient attribs,
         nb_prev_randao = attr_prev_randao attribs,
         nb_gas_limit = (case attr_gas_limit attribs of Some g \<Rightarrow> g | None \<Rightarrow> hdr_gas_limit par),
         nb_parent_beacon_block_root = attr_parent_beacon_block_root attribs,
         nb_withdrawals = None,
         nb_extra_data = extra_data\<rparr>) extra_data)"

subsection \<open>Building the payload\<close>

definition extract_external_txs :: "'c checkpoint \<Rightarrow> recovered_tx list" where
  "extract_external_txs payload =
     (let sequencer_txs = map (\<lambda>(bs, tx, h). h) (attr_transactions (attributes (cp_block payload)));
          transactions = span_transactions (history payload);
          prefix_len = fold (\<lambda>(ix, sequencer_tx) n.
              if ix < length transactions \<and> tx_hash (transactions ! ix) = sequencer_tx then n + 1 else n)
            (List.enumerate 0 sequencer_txs) 0
      in drop prefix_len transactions)"

datatype 'p build_outcome = Better 'p | Freeze 'p | Aborted | Cancelled

text \<open>
  \<open>Optimism::build_payload\<close>: \<open>op_build\<close> is \<open>OpBuilder::build\<close> on the external transactions;
  \<open>None\<close> is an \<open>unreachable\<close> outcome.
\<close>

definition optimism_build_payload ::
    "(b256 \<Rightarrow> payload_builder_error + state_provider) \<Rightarrow>
     (recovered_tx list \<Rightarrow> block_context \<Rightarrow> state_provider \<Rightarrow> payload_builder_error + 'p build_outcome) \<Rightarrow>
     'c checkpoint \<Rightarrow> (payload_builder_error + 'p) option"
where
  "optimism_build_payload history_by_block_hash op_build payload =
     (let block = cp_block payload; txs = extract_external_txs payload in
      case history_by_block_hash (hdr_hash (parent block)) of
        Inl e \<Rightarrow> Some (Inl e)
      | Inr sp \<Rightarrow>
          (case op_build txs block sp of
             Inl e \<Rightarrow> Some (Inl e)
           | Inr (Better p) \<Rightarrow> Some (Inr p)
           | Inr (Freeze p) \<Rightarrow> Some (Inr p)
           | Inr Aborted \<Rightarrow> None
           | Inr Cancelled \<Rightarrow> None))"

definition ethereum_build_payload ::
    "(recovered_tx list \<Rightarrow> block_context \<Rightarrow> payload_builder_error + 'p option) \<Rightarrow> 'c checkpoint \<Rightarrow>
     payload_builder_error + 'p"
where
  "ethereum_build_payload default_ethereum_payload payload =
     (case default_ethereum_payload (span_transactions (history payload)) (cp_block payload) of
        Inl e \<Rightarrow> Inl e
      | Inr (Some p) \<Rightarrow> Inr p
      | Inr None \<Rightarrow> Inl MissingPayload)"

subsection \<open>Fixed transactions\<close>

record 'i fixed_transactions =
  ft_txs :: "recovered_tx list"
  ft_invalid :: "'i \<rightharpoonup> u64"

definition fixed_new :: "recovered_tx list \<Rightarrow> 'i fixed_transactions" where
  "fixed_new ts = \<lparr>ft_txs = rev ts, ft_invalid = Map.empty\<rparr>"

definition mark_invalid :: "(address \<Rightarrow> 'i) \<Rightarrow> recovered_tx \<Rightarrow> 'i fixed_transactions \<Rightarrow> 'i fixed_transactions" where
  "mark_invalid sender_id tx ft =
     (let i = sender_id (tx_signer tx) in
      case ft_invalid ft i of
        None \<Rightarrow> ft\<lparr>ft_invalid := (ft_invalid ft)(i \<mapsto> tx_nonce tx)\<rparr>
      | Some n \<Rightarrow> if n < tx_nonce tx then ft\<lparr>ft_invalid := (ft_invalid ft)(i \<mapsto> tx_nonce tx)\<rparr> else ft)"

text \<open>
  \<open>Iterator::next\<close>: the list is popped from its end; \<open>pooled\<close> tells whether a transaction
  converts into a pooled one, and the outer \<open>None\<close> is the \<open>unreachable\<close> when it does not.
\<close>

function fixed_next ::
    "(recovered_tx \<Rightarrow> bool) \<Rightarrow> (address \<Rightarrow> 'i) \<Rightarrow> 'i fixed_transactions \<Rightarrow>
     (recovered_tx option \<times> 'i fixed_transactions) option"
where
  "fixed_next pooled sender_id ft =
     (if ft_txs ft = [] then Some (None, ft)
      else
        let tx = last (ft_txs ft); ft' = ft\<lparr>ft_txs := butlast (ft_txs ft)\<rparr> in
        if \<not> pooled tx then None
        else if (case ft_invalid ft' (sender_id (tx_signer tx)) of Some n \<Rightarrow> n \<le> tx_nonce tx | None \<Rightarrow> False)
        then fixed_next pooled sender_id ft'
        else Some (Some tx, ft'))"
  by pat_completeness auto
termination
  by (relation "measure (\<lambda>(pooled, sender_id, ft). length (ft_txs ft))") auto

declare fixed_next.simps [simp del]

lemma mark_invalid_txs [simp]: "ft_txs (mark_invalid sender_id tx ft) = ft_txs ft"
  by (simp add: mark_invalid_def Let_def split: option.split)

lemma fixed_next_shorter:
  "fixed_next pooled sender_id ft = Some (Some tx, ft') \<Longrightarrow> length (ft_txs ft') < length (ft_txs ft)"
proof (induction pooled sender_id ft rule: fixed_next.induct)
  case (1 pooled sender_id ft)
  show ?case
  proof (cases "ft_txs ft = []")
    case True
    with 1(2) show ?thesis by (simp add: fixed_next.simps)
  next
    case False
    let ?tx = "last (ft_txs ft)" and ?ft = "ft\<lparr>ft_txs := butlast (ft_txs ft)\<rparr>"
    have len: "length (butlast (ft_txs ft)) < length (ft_txs ft)" using False by simp
    show ?thesis
    proof (cases "case ft_invalid ?ft (sender_id (tx_signer ?tx)) of Some n \<Rightarrow> n \<le> tx_nonce ?tx | None \<Rightarrow> False")
      case True
      with False 1(2) have "pooled ?tx" "fixed_next pooled sender_id ?ft = Some (Some tx, ft')"
        by (simp_all add: fixed_next.simps [of pooled sender_id ft] Let_def split: if_splits)
      with 1(1) [OF False refl refl _ True] len show ?thesis by simp
    next
      case nskip: False
      with False 1(2) have "ft' = ?ft"
        by (simp add: fixed_next.simps [of pooled sender_id ft] Let_def split: if_splits)
      with len show ?thesis by simp
    qed
  qed
qed

text \<open>
  The builder that draws from the list: it takes the next transaction until there is none and
  marks those that turn out invalid, \<open>bad\<close>.
\<close>

function fixed_run ::
    "(recovered_tx \<Rightarrow> bool) \<Rightarrow> (address \<Rightarrow> 'i) \<Rightarrow> (recovered_tx \<Rightarrow> bool) \<Rightarrow> 'i fixed_transactions \<Rightarrow>
     recovered_tx list option"
where
  "fixed_run pooled sender_id bad ft =
     (case fixed_next pooled sender_id ft of
        None \<Rightarrow> None
      | Some (None, ft') \<Rightarrow> Some []
      | Some (Some tx, ft') \<Rightarrow>
          map_option (Cons tx)
            (fixed_run pooled sender_id bad (if bad tx then mark_invalid sender_id tx ft' else ft')))"
  by pat_completeness auto
termination
proof (relation "measure (\<lambda>(pooled, sender_id, bad, ft). length (ft_txs ft))", goal_cases)
  case (2 pooled sender_id bad ft x y z tx)
  with fixed_next_shorter [of pooled sender_id ft] show ?case by auto
qed simp

declare fixed_run.simps [simp del]

subsection \<open>Lemmas\<close>

lemma prefix_count:
  assumes "\<And>i. i < length hs \<Longrightarrow> k + i < length ts \<and> tx_hash (ts ! (k + i)) = hs ! i"
  shows "fold (\<lambda>(ix, h) n. if ix < length ts \<and> tx_hash (ts ! ix) = h then n + 1 else n) (List.enumerate k hs) n =
    n + length hs"
  using assms
proof (induction hs arbitrary: k n)
  case (Cons h hs)
  have "k < length ts" "tx_hash (ts ! k) = h" using Cons.prems [of 0] by simp_all
  moreover have "Suc k + i < length ts \<and> tx_hash (ts ! (Suc k + i)) = hs ! i" if "i < length hs" for i
    using Cons.prems [of "Suc i"] that by simp
  ultimately show ?case using Cons.IH [of "Suc k" "n + 1"] by simp
qed simp

lemma da_bytes_of_transactions:
  "span_da_bytes_used flz cps =
     sum_list (map (\<lambda>tx. flz (tx_encoded_2718 tx)) (filter (\<lambda>tx. \<not> tx_is_deposit tx) (span_transactions cps)))"
  by (induction cps)
    (auto simp: span_da_bytes_used_def span_transactions_def da_bytes_used_def result_da_bytes_used_def
      cp_result_def cp_transactions_def split: mutation.split)

lemma extract_suffix:
  assumes "payload_transactions payload = sequencer @ external"
    and "map tx_hash sequencer = map (\<lambda>(bs, tx, h). h) (attr_transactions (attributes (cp_block payload)))"
  shows "extract_external_txs payload = external"
proof -
  let ?hs = "map (\<lambda>(bs, tx, h). h) (attr_transactions (attributes (cp_block payload)))"
  have len: "length ?hs = length sequencer" using arg_cong [OF assms(2), of length] by simp
  have "i < length (sequencer @ external) \<and> tx_hash ((sequencer @ external) ! i) = ?hs ! i" if "i < length ?hs" for i
    using that len arg_cong [OF assms(2), of "\<lambda>xs. xs ! i"] by (simp add: nth_append del: length_map)
  then show ?thesis
    using prefix_count [of ?hs 0 "sequencer @ external" 0] len assms(1)
    by (simp add: extract_external_txs_def payload_transactions_def Let_def del: length_map)
qed

text \<open>The transactions left when a sender is given up after its first bad transaction.\<close>

fun until_bad :: "(recovered_tx \<Rightarrow> bool) \<Rightarrow> address set \<Rightarrow> recovered_tx list \<Rightarrow> recovered_tx list" where
  "until_bad bad S [] = []"
| "until_bad bad S (t # ts) =
     (if tx_signer t \<in> S then until_bad bad S ts
      else t # until_bad bad (if bad t then insert (tx_signer t) S else S) ts)"

definition nonces_in_order :: "recovered_tx list \<Rightarrow> bool" where
  "nonces_in_order = sorted_wrt (\<lambda>t u. tx_signer t = tx_signer u \<longrightarrow> tx_nonce t \<le> tx_nonce u)"

lemma until_bad_none: "until_bad (\<lambda>t. False) {} ts = ts"
  by (induction ts) simp_all

lemma fixed_next_last:
  assumes "pooled t" "iv (sender_id (tx_signer t)) \<noteq> None \<longleftrightarrow> tx_signer t \<in> S"
    and "\<And>n. iv (sender_id (tx_signer t)) = Some n \<Longrightarrow> n \<le> tx_nonce t"
  shows "fixed_next pooled sender_id \<lparr>ft_txs = us @ [t], ft_invalid = iv\<rparr> =
    (if tx_signer t \<in> S then fixed_next pooled sender_id \<lparr>ft_txs = us, ft_invalid = iv\<rparr>
     else Some (Some t, \<lparr>ft_txs = us, ft_invalid = iv\<rparr>))"
  using assms
  by (cases "iv (sender_id (tx_signer t))")
    (simp_all add: fixed_next.simps [of _ _ "\<lparr>ft_txs = us @ [t], ft_invalid = iv\<rparr>"])

lemma fixed_run_until_bad:
  assumes "inj sender_id" "\<forall>t \<in> set ts. pooled t" "nonces_in_order ts"
    and "\<And>a. iv (sender_id a) \<noteq> None \<longleftrightarrow> a \<in> S"
    and "\<And>t n. t \<in> set ts \<Longrightarrow> iv (sender_id (tx_signer t)) = Some n \<Longrightarrow> n \<le> tx_nonce t"
  shows "fixed_run pooled sender_id bad \<lparr>ft_txs = rev ts, ft_invalid = iv\<rparr> = Some (until_bad bad S ts)"
  using assms(2-5)
proof (induction ts arbitrary: iv S)
  case Nil
  then show ?case by (simp add: fixed_run.simps fixed_next.simps)
next
  case (Cons t ts)
  let ?ft = "\<lparr>ft_txs = rev ts, ft_invalid = iv\<rparr>" and ?g = "\<lparr>ft_txs = rev ts @ [t], ft_invalid = iv\<rparr>"
  have ord: "nonces_in_order ts" "\<And>u. u \<in> set ts \<Longrightarrow> tx_signer u = tx_signer t \<Longrightarrow> tx_nonce t \<le> tx_nonce u"
    using Cons.prems(2) by (auto simp: nonces_in_order_def)
  have p: "\<forall>t \<in> set ts. pooled t" "pooled t" using Cons.prems(1) by auto
  have nx: "fixed_next pooled sender_id ?g =
      (if tx_signer t \<in> S then fixed_next pooled sender_id ?ft else Some (Some t, ?ft))"
    using p(2) Cons.prems(3,4) by (intro fixed_next_last) auto
  show ?case
  proof (cases "tx_signer t \<in> S")
    case True
    have "fixed_run pooled sender_id bad ?g = fixed_run pooled sender_id bad ?ft"
      by (simp add: fixed_run.simps [of _ _ _ ?g] nx True)
        (simp add: fixed_run.simps [of _ _ _ ?ft])
    with Cons.IH [OF p(1) ord(1) Cons.prems(3)] Cons.prems(4) True show ?thesis by simp
  next
    case False
    then have none: "iv (sender_id (tx_signer t)) = None" using Cons.prems(3) by blast
    let ?iv = "if bad t then iv(sender_id (tx_signer t) \<mapsto> tx_nonce t) else iv"
    let ?S = "if bad t then insert (tx_signer t) S else S"
    have "fixed_run pooled sender_id bad \<lparr>ft_txs = rev ts, ft_invalid = ?iv\<rparr> = Some (until_bad bad ?S ts)"
    proof (rule Cons.IH [OF p(1) ord(1)])
      show "?iv (sender_id a) \<noteq> None \<longleftrightarrow> a \<in> ?S" for a
        using Cons.prems(3) [of a] assms(1) by (auto simp: inj_eq)
      show "n \<le> tx_nonce u" if "u \<in> set ts" "?iv (sender_id (tx_signer u)) = Some n" for u n
        using that Cons.prems(4) [of u n] ord(2) [of u] assms(1) by (auto simp: inj_eq split: if_splits)
    qed
    moreover have "(if bad t then mark_invalid sender_id t ?ft else ?ft) = \<lparr>ft_txs = rev ts, ft_invalid = ?iv\<rparr>"
      by (simp add: mark_invalid_def none)
    ultimately show ?thesis
      using False by (simp add: fixed_run.simps [of _ _ _ ?g] nx)
  qed
qed

subsection \<open>Properties\<close>

text \<open>
  Ethereum's builder is offered exactly the transactions of the payload, in their order,
  and once one of them turns out invalid, no later one of the same sender, while those of other
  senders still come in order. The conversion into pooled transactions must succeed for each.
\<close>

theorem fixed_transactions_in_order:
  assumes "inj sender_id" "\<forall>t \<in> set ts. pooled t" "nonces_in_order ts"
  shows "fixed_run pooled sender_id bad (fixed_new ts) = Some (until_bad bad {} ts) \<and>
    fixed_run pooled sender_id (\<lambda>t. False) (fixed_new ts) = Some ts"
  using fixed_run_until_bad [OF assms, of Map.empty "{}"] until_bad_none [of ts]
  by (simp add: fixed_new_def)

theorem fixed_transactions_in_order_witness:
  "fixed_run (\<lambda>t. True) (\<lambda>a. a) (\<lambda>t. tx_hash t = 1) (fixed_new [sample_tx 1 7 0, sample_tx 2 8 0, sample_tx 3 7 1]) =
     Some [sample_tx 1 7 0, sample_tx 2 8 0]"
proof -
  have "fixed_run (\<lambda>t. True) (\<lambda>a. a) (\<lambda>t. tx_hash t = 1) (fixed_new [sample_tx 1 7 0, sample_tx 2 8 0, sample_tx 3 7 1]) =
      Some (until_bad (\<lambda>t. tx_hash t = 1) {} [sample_tx 1 7 0, sample_tx 2 8 0, sample_tx 3 7 1])"
    by (rule conjunct1 [OF fixed_transactions_in_order]) (simp_all add: nonces_in_order_def)
  then show ?thesis by simp
qed

text \<open>
  \<open>mark_invalid\<close> keeps the highest invalid nonce of a sender: after nonces 5 and 3 were marked, a
  transaction with nonce 4 is offered although its ancestor is invalid.
\<close>

lemma higher_invalid_nonce_kept:
  assumes "tx_signer t5 = a" "tx_signer t3 = a" "tx_signer t4 = a"
    and "tx_nonce t5 = 5" "tx_nonce t3 = 3" "tx_nonce t4 = 4" "pooled t4"
  shows "fst (the (fixed_next pooled sender_id
    (mark_invalid sender_id t3 (mark_invalid sender_id t5 (fixed_new [t4]))))) = Some t4"
  using assms by (simp add: mark_invalid_def fixed_new_def fixed_next.simps)

text \<open>
  Claim C37: when the payload begins with the sequencer transactions of the payload attributes, what
  is handed to Optimism's builder is exactly the rest of the payload, in order, so that none of
  them is included twice and no other transaction is lost.
\<close>

theorem sequencer_transactions_extracted:
  assumes "payload_transactions payload = sequencer @ external"
    and "map tx_hash sequencer = map (\<lambda>(bs, tx, h). h) (attr_transactions (attributes (cp_block payload)))"
  shows "extract_external_txs payload = external \<and>
    optimism_build_payload hist op_build payload =
      (case hist (hdr_hash (parent (cp_block payload))) of
         Inl e \<Rightarrow> Some (Inl e)
       | Inr sp \<Rightarrow>
           (case op_build external (cp_block payload) sp of
              Inl e \<Rightarrow> Some (Inl e)
            | Inr (Better p) \<Rightarrow> Some (Inr p)
            | Inr (Freeze p) \<Rightarrow> Some (Inr p)
            | Inr Aborted \<Rightarrow> None
            | Inr Cancelled \<Rightarrow> None))"
  using extract_suffix [OF assms] by (simp add: optimism_build_payload_def Let_def)

definition sample_op_block :: block_context where
  "sample_op_block = sample_block\<lparr>attributes := (attributes sample_block)\<lparr>attr_transactions := [([1], Some (sample_tx 1 7 0), 1)]\<rparr>,
     bc_chainspec := (bc_chainspec sample_block)\<lparr>is_jovian_active_at_timestamp := (\<lambda>t. True)\<rparr>\<rparr>"

definition op_payload :: "b256 list \<Rightarrow> unit checkpoint" where
  "op_payload hs = foldl (\<lambda>cp h. apply_with (cp_addr cp + 1) 0 cp (Executable (sample_result h)) ())
     (new_with_context 1 0 sample_op_block ()) hs"

lemma op_payload_simps:
  "coherent_cp (op_payload hs) \<and> (\<forall>c \<in> set (cp_iter (op_payload hs)). cp_addr c \<le> cp_addr (op_payload hs)) \<and>
   cp_block (op_payload hs) = sample_op_block \<and> payload_transactions (op_payload hs) = map (\<lambda>h. sample_tx h 7 0) hs"
proof (induction hs rule: rev_induct)
  case Nil
  then show ?case
    using coherent_cp_new [of 1 0 sample_op_block "()"]
    by (simp add: op_payload_def payload_transactions_def history_eq span_transactions_def new_with_context_def
        cp_transactions_def)
next
  case (snoc h hs)
  let ?p = "op_payload hs" and ?m = "Executable (sample_result h)"
  have step: "op_payload (hs @ [h]) = apply_with (cp_addr ?p + 1) 0 ?p ?m ()" by (simp add: op_payload_def)
  have fresh: "cp_addr ?p + 1 \<notin> cp_addr ` set (cp_iter ?p)" using snoc by force
  have hi: "history (op_payload (hs @ [h])) = history ?p @ [op_payload (hs @ [h])]"
    unfolding step using snoc fresh by (intro history_apply_with) auto
  have "cp_transactions (apply_with (cp_addr ?p + 1) 0 ?p ?m ()) = [sample_tx h 7 0]"
    by (simp add: cp_transactions_def result_transactions_def sample_result_def apply_with_def)
  with snoc fresh hi coherent_cp_apply_with [OF _ fresh, of 0 ?m "()"] show ?case
    by (auto simp: payload_transactions_def span_transactions_def step)
qed

theorem sequencer_transactions_extracted_witness:
  "extract_external_txs (op_payload [1, 2]) = [sample_tx 2 7 0] \<and>
   optimism_build_payload (\<lambda>h. Inr sample_provider) (\<lambda>txs b sp. Inr (Better (length txs))) (op_payload [1, 2]) = Some (Inr 1)"
  using sequencer_transactions_extracted [of "op_payload [1, 2]" "[sample_tx 1 7 0]" "[sample_tx 2 7 0]"
      "\<lambda>h. Inr sample_provider" "\<lambda>txs b sp. Inr (Better (length txs))"]
  by (simp add: op_payload_simps) (simp add: sample_op_block_def)

text \<open>
  The code counts positions at which the payload agrees with the attributes and drops that many
  transactions from the front, also when the agreeing ones are not at the front.
\<close>

lemma misplaced_sequencer_transaction:
  assumes "payload_transactions payload = [x, s2]" "tx_hash x \<noteq> h1" "tx_hash s2 = h2"
    and "map (\<lambda>(bs, tx, h). h) (attr_transactions (attributes (cp_block payload))) = [h1, h2]"
  shows "extract_external_txs payload = [s2]"
  using assms by (simp add: extract_external_txs_def payload_transactions_def Let_def)

text \<open>
  The blob fields of Optimism's header are always there: the \<open>expect\<close> never fails. After
  Jovian the used blob gas is the data availability of the whole payload, without deposits, times
  the footprint scalar that the L1 block sets once for the block; after Ecotone it is zero, and
  before there are no such fields.
\<close>

theorem blob_fields_values:
  assumes "coherent_cp payload"
    and "\<forall>cp \<in> set (history payload). da_bytes_used flz cp \<noteq> 0 \<longrightarrow> fetch (checkpoint_db cp) = Inr scalar"
  shows "blob_fields flz fetch payload =
    Some (if is_jovian_active (cp_block payload) then (Some 0, Some (ucast scalar *
        sum_list (map (\<lambda>tx. flz (tx_encoded_2718 tx)) (filter (\<lambda>tx. \<not> tx_is_deposit tx) (payload_transactions payload)))))
      else if is_ecotone_active (cp_block payload) then (Some 0, Some 0) else (None, None))"
proof -
  have sum: "sum_list (List.map_filter (da_footprint flz fetch) cps) = sum_list (map (da_bytes_used flz) cps) * ucast scalar"
    if "is_jovian_active (cp_block payload)"
      "\<forall>cp \<in> set cps. cp_block cp = cp_block payload \<and> (da_bytes_used flz cp \<noteq> 0 \<longrightarrow> fetch (checkpoint_db cp) = Inr scalar)" for cps
    using that
  proof (induction cps)
    case (Cons cp cps)
    then show ?case
      by (cases "da_bytes_used flz cp = 0"; cases "fetch (checkpoint_db cp)")
        (auto simp: map_filter_simps da_footprint_def da_footprint_gas_scalar_def algebra_simps)
  qed (simp add: map_filter_simps)
  have "cp_block cp = cp_block payload" if "cp \<in> set (history payload)" for cp
    using that assms(1) wf_iter [of payload cp] by (simp add: history_eq coherent_cp_def)
  with sum [of "history payload"] assms(2) show ?thesis
    using da_bytes_of_transactions [of flz "history payload"]
    by (auto simp: blob_fields_def cumulative_da_footprint_def span_da_footprint_def
        span_da_bytes_used_def payload_transactions_def mult.commute)
qed

theorem blob_fields_values_witness:
  "blob_fields (\<lambda>bs. 10) (\<lambda>db. Inr 4) (op_payload [1, 2]) = Some (Some 0, Some 80)"
  using blob_fields_values [of "op_payload [1, 2]" "\<lambda>bs. 10" "\<lambda>db. Inr 4" 4]
  by (simp add: op_payload_simps is_jovian_active_def is_ecotone_active_def) (simp add: sample_op_block_def sample_block_defs)

subsection \<open>The limits and the environment of a block\<close>

text \<open>
  The default limits of a platform agree with the environment its blocks execute in: the
  gas limit is that of the block and the deadline ends at its timestamp, on Ethereum as on
  Optimism. The environment of an Ethereum block always exists; that of an Optimism block fails
  exactly when the extra data of the active fork does, and its extra data is empty before
  Holocene.
\<close>

theorem default_limits_match_block:
  "(\<exists>env. ethereum_next_block_env bgl (bc_chainspec block) (parent block) (attributes block) = Inr env \<and>
      gas_limit (ethereum_default_limits bgl now block) = nb_gas_limit env \<and>
      deadline (ethereum_default_limits bgl now block) = Some (1000000000 * (unat (nb_timestamp env) - unat now))) \<and>
   (case optimism_next_block_env jovian holocene (bc_chainspec block) (parent block) (attributes block) of
      Inr env \<Rightarrow>
        gas_limit (optimism_default_limits de da_tx da_block now block) = nb_gas_limit env \<and>
        deadline (optimism_default_limits de da_tx da_block now block) =
          Some (1000000000 * (unat (nb_timestamp env) - unat now)) \<and>
        (is_jovian_active block \<or> is_holocene_active block \<or> nb_extra_data env = [])
    | Inl e \<Rightarrow>
        (is_jovian_active block \<or> is_holocene_active block) \<and>
        (if is_jovian_active block then jovian else holocene) (attributes block)
          (base_fee_params_at_timestamp (bc_chainspec block) (timestamp block)) = Inl e)"
proof -
  note limits = ethereum_default_limits_def optimism_default_limits_def with_deadline_def limits_with_gas_def
    with_blob_params_def with_ext_def secs_def unat_saturating_sub Let_def
  have eth: "gas_limit (ethereum_default_limits bgl now block) = bgl (hdr_gas_limit (parent block))"
    "deadline (ethereum_default_limits bgl now block) = Some (1000000000 * (unat (attr_timestamp (attributes block)) - unat now))"
    by (simp_all add: limits mult.commute split: option.split)
  have op: "gas_limit (optimism_default_limits de da_tx da_block now block) =
      (case attr_gas_limit (attributes block) of Some g \<Rightarrow> g | None \<Rightarrow> hdr_gas_limit (parent block))"
    "deadline (optimism_default_limits de da_tx da_block now block) =
      Some (1000000000 * (unat (attr_timestamp (attributes block)) - unat now))"
    by (simp_all add: limits mult.commute split: option.split)
  show ?thesis
    unfolding eth op ethereum_next_block_env_def optimism_next_block_env_def Let_def is_jovian_active_def
      is_holocene_active_def timestamp_def
    by (cases "is_jovian_active_at_timestamp (bc_chainspec block) (attr_timestamp (attributes block))";
        cases "is_holocene_active_at_timestamp (bc_chainspec block) (attr_timestamp (attributes block))")
      (auto split: sum.split simp: result_simps)
qed

end
