(* ===== verification/Block_Steps.thy ===== *)
theory Block_Steps
  imports Platforms Printing
begin

section \<open>Steps at the top and the end of a block\<close>

text \<open>
  \<open>crates/pipeline/src/steps/optimism.rs\<close>, the step \<open>OptimismPrologue\<close> that puts the sequencer
  transactions at the top of the block, and \<open>crates/pipeline/src/steps/builder.rs\<close>, the step
  \<open>BuilderEpilogue\<close> that adds the builder's transaction at the end, with the limits that reserve
  gas for it.

  Parameters: the signer of alloy (\<open>build_signed\<close> of \<open>platform/utils.rs\<close> only combines methods of
  alloy), the identifier of the chain, the cost of a token of call data, and the text of an
  execution error. The messages of the errors the steps make are abbreviated.
\<close>

subsection \<open>OptimismPrologue\<close>

definition max_da_of :: "limits \<Rightarrow> u64 option" where
  "max_da_of l = (case ext l of OpExt e \<Rightarrow> max_block_da e | EthExt \<Rightarrow> None)"

text \<open>The loop over the sequencer transactions; applying one without a signer fails.\<close>

fun prologue_loop ::
    "('c, 'w) heap \<Rightarrow> (bytes \<Rightarrow> u64) \<Rightarrow> limits \<Rightarrow> (bytes \<times> (recovered_tx option \<times> b256)) list \<Rightarrow>
     u64 \<Rightarrow> u64 \<Rightarrow> 'c checkpoint \<Rightarrow> 'w \<Rightarrow> (payload_builder_error + 'c checkpoint) \<times> 'w"
where
  "prologue_loop heap flz l [] gas da payload w = (Inr payload, w)"
| "prologue_loop heap flz l ((bs, tx, h) # rest) gas da payload w =
     (case tx of
        None \<Rightarrow> (Inl (Other ''Failed to apply sequencer transaction''), w)
      | Some tx \<Rightarrow>
          (case apply_in heap (cp_iter payload) w payload (Transaction tx) of
             (Inl e, w) \<Rightarrow> (Inl (Other ''Failed to apply sequencer transaction''), w)
           | (Inr payload, w) \<Rightarrow>
               let gas = gas + gas_used payload; da' = da + da_bytes_used flz payload in
               if gas_limit l < gas then (Inl (Other ''Sequencer transactions exceed block gas limit''), w)
               else if (case max_da_of l of Some m \<Rightarrow> m < da' | None \<Rightarrow> False)
               then (Inl (Other ''Sequencer transactions exceed data availability bytes limit''), w)
               else prologue_loop heap flz l rest gas da' payload w))"

definition optimism_prologue ::
    "('c, 'w) heap \<Rightarrow> (bytes \<Rightarrow> u64) \<Rightarrow> 'c checkpoint \<Rightarrow> step_context \<Rightarrow> 'w \<Rightarrow> 'c control_flow \<times> 'w"
where
  "optimism_prologue heap flz payload ctx w =
     (if 0 < length (span_transactions (history payload))
      then (Fail (Other ''Optimism sequencer transactions must be at the top of the block''), w)
      else
        case prologue_loop heap flz (ctx_limits ctx) (attr_transactions (attributes (ctx_block ctx))) 0 0 payload w of
          (Inl e, w) \<Rightarrow> (Fail e, w)
        | (Inr payload, w) \<Rightarrow>
            if 0 < depth payload
            then (case barrier_in heap (cp_iter payload) w payload of (payload, w) \<Rightarrow> (Ok payload, w))
            else (Ok payload, w))"

subsection \<open>BuilderEpilogue\<close>

record builder_epilogue =
  be_signer :: address
  be_required :: bool
  be_message_fn :: "block_context \<Rightarrow> bytes"

record transaction_request =
  rq_chain_id :: u64
  rq_nonce :: u64
  rq_gas_limit :: u64
  rq_max_fee_per_gas :: u128
  rq_max_priority_fee_per_gas :: u128
  rq_to :: address
  rq_input :: bytes

definition into_bytes :: "string \<Rightarrow> bytes" where
  "into_bytes s = map of_char s"

definition builder_with_signer :: "address \<Rightarrow> builder_epilogue" where
  "builder_with_signer signer =
     \<lparr>be_signer = signer, be_required = False,
      be_message_fn = (\<lambda>block. into_bytes (''flashbots rblib block #'' @ decimal (unat (number block))))\<rparr>"

definition builder_with_message :: "builder_epilogue \<Rightarrow> (block_context \<Rightarrow> bytes) \<Rightarrow> builder_epilogue" where
  "builder_with_message be f = be\<lparr>be_message_fn := f\<rparr>"

definition builder_required :: "builder_epilogue \<Rightarrow> builder_epilogue" where
  "builder_required be = be\<lparr>be_required := True\<rparr>"

definition estimate_gas_for_tx :: "u64 \<Rightarrow> bytes \<Rightarrow> u64" where
  "estimate_gas_for_tx floor_per_token message =
     (let (zero_bytes, nonzero_bytes) =
        fold (\<lambda>byte (zeros, nonzeros). if byte = 0 then (zeros + 1, nonzeros) else (zeros, nonzeros + 1)) message (0, 0);
          zero_cost = zero_bytes * 4;
          nonzero_cost = nonzero_bytes * 16;
          tokens_in_calldata = zero_bytes + nonzero_bytes * 4;
          floor_gas = 21000 + tokens_in_calldata * floor_per_token
      in max (zero_cost + nonzero_cost + 21000) floor_gas)"

definition limits_minus_epilogue :: "u64 \<Rightarrow> builder_epilogue \<Rightarrow> 'c limits_factory" where
  "limits_minus_epilogue floor_per_token be payload enclosing =
     (let message = be_message_fn be (cp_block payload);
          gas_estimate = estimate_gas_for_tx floor_per_token message
      in scaled_from (scaled_new\<lparr>sc_gas := Some (Minus gas_estimate)\<rparr>) enclosing)"

definition epilogue_request ::
    "u64 \<Rightarrow> (chainspec \<Rightarrow> u64) \<Rightarrow> builder_epilogue \<Rightarrow> block_context \<Rightarrow> u64 \<Rightarrow> transaction_request" where
  "epilogue_request floor_per_token chain_id be block signer_nonce =
     (let message = be_message_fn be block;
          gas_estimate = estimate_gas_for_tx floor_per_token message
      in \<lparr>rq_chain_id = chain_id (bc_chainspec block), rq_nonce = signer_nonce, rq_gas_limit = gas_estimate,
          rq_max_fee_per_gas = ucast (base_fee block), rq_max_priority_fee_per_gas = 0, rq_to = 0,
          rq_input = message\<rparr>)"

definition builder_epilogue_step ::
    "('c, 'w) heap \<Rightarrow> u64 \<Rightarrow> (chainspec \<Rightarrow> u64) \<Rightarrow> (transaction_request \<Rightarrow> address \<Rightarrow> string + recovered_tx) \<Rightarrow>
     (execution_error \<Rightarrow> string) \<Rightarrow> builder_epilogue \<Rightarrow> 'c checkpoint \<Rightarrow> step_context \<Rightarrow> 'w \<Rightarrow>
     'c control_flow \<times> 'w"
where
  "builder_epilogue_step heap floor_per_token chain_id build_signed show_error be payload ctx w =
     (let failed = (\<lambda>error. if be_required be then Fail (Other error) else Ok payload) in
      case nonce_of payload (be_signer be) of
        Inl e \<Rightarrow> (failed e, w)
      | Inr signer_nonce \<Rightarrow>
          (case build_signed (epilogue_request floor_per_token chain_id be (ctx_block ctx) signer_nonce) (be_signer be) of
             Inl e \<Rightarrow> (failed e, w)
           | Inr signed_tx \<Rightarrow>
               (case apply_in heap (cp_iter payload) w payload (Transaction signed_tx) of
                  (Inl e, w) \<Rightarrow> (failed (show_error e), w)
                | (Inr new_payload, w) \<Rightarrow> (Ok new_payload, w))))"

subsection \<open>Properties of the prologue\<close>

lemma prologue_loop_Inr:
  assumes "prologue_loop heap flz l attrs gas da payload w = (Inr q, w')" "fresh_heap heap" "coherent_cp payload"
    and "list_all (\<lambda>(bs, tx, h). case tx of Some t \<Rightarrow> tx_hash t = h | None \<Rightarrow> True) attrs"
  shows "coherent_cp q \<and> (\<exists>es. history q = history payload @ es \<and> list_all (\<lambda>c. \<not> is_barrier c) es \<and>
    map tx_hash (span_transactions es) = map (\<lambda>(bs, tx, h). h) attrs \<and>
    (attrs = [] \<or> gas + span_gas_used es \<le> gas_limit l \<and>
      (case max_da_of l of Some m \<Rightarrow> da + span_da_bytes_used flz es \<le> m | None \<Rightarrow> True)))"
  using assms
proof (induction attrs arbitrary: gas da payload w)
  case Nil
  then show ?case by (simp add: span_transactions_def)
next
  case (Cons a attrs)
  obtain bs txo h where a: "a = (bs, txo, h)" by (cases a)
  with Cons.prems(1) obtain tx where tx: "txo = Some tx" by (cases txo) auto
  obtain res w1 where ap: "apply_in heap (cp_iter payload) w payload (Transaction tx) = (res, w1)" by fastforce
  with Cons.prems(1) a tx obtain cp where cp: "res = Inr cp" by (cases res) auto
  let ?gas = "gas + gas_used cp" and ?da = "da + da_bytes_used flz cp"
  from Cons.prems(1) a tx ap cp have
    ok: "\<not> gas_limit l < ?gas" "\<not> (case max_da_of l of Some m \<Rightarrow> m < ?da | None \<Rightarrow> False)" and
    rest: "prologue_loop heap flz l attrs ?gas ?da cp w1 = (Inr q, w')"
    by (simp_all add: Let_def split: if_splits)
  note ex = apply_in_Inr [OF ap [unfolded cp] Cons.prems(2,3) subset_refl]
  then obtain r where "execute (cp_block payload) (checkpoint_db payload) (Transaction tx) = Inr r"
    "mutation cp = Executable r" by blast
  then have txs: "map tx_hash (cp_transactions cp) = [h]"
    using Cons.prems(4) a tx
    by (auto simp: cp_transactions_def result_transactions_def execute_transaction_def result_simps)
  from Cons.IH [OF rest Cons.prems(2)] ex Cons.prems(4) obtain es where es: "coherent_cp q"
    "history q = history cp @ es" "list_all (\<lambda>c. \<not> is_barrier c) es"
    "map tx_hash (span_transactions es) = map (\<lambda>(bs, tx, h). h) attrs"
    "attrs = [] \<or> ?gas + span_gas_used es \<le> gas_limit l \<and>
      (case max_da_of l of Some m \<Rightarrow> ?da + span_da_bytes_used flz es \<le> m | None \<Rightarrow> True)" by auto
  have "history q = history payload @ (cp # es)" using es(2) ex by simp
  moreover have "gas + span_gas_used (cp # es) \<le> gas_limit l \<and>
      (case max_da_of l of Some m \<Rightarrow> da + span_da_bytes_used flz (cp # es) \<le> m | None \<Rightarrow> True)"
  proof (cases "attrs = []")
    case True
    then have "es = []" using rest es(2) by simp
    with ok show ?thesis by (auto simp: span_gas_used_def span_da_bytes_used_def split: option.splits)
  next
    case False
    with es(5) show ?thesis by (auto simp: span_gas_used_def span_da_bytes_used_def add.assoc split: option.splits)
  qed
  ultimately show ?case
    using es ex txs a by (intro conjI es(1) exI [of _ "cp # es"]) (auto simp: span_transactions_def)
qed

lemma prologue_end:
  assumes "(if 0 < depth p then (case barrier_in heap (cp_iter p) w p of (p, w) \<Rightarrow> (Ok p, w)) else (Ok p, w)) = (cf, w')"
    and "fresh_heap heap" "coherent_cp p"
  shows "\<exists>q ss. cf = Ok q \<and> coherent_cp q \<and> (0 < depth q \<longrightarrow> is_barrier q) \<and> history q = history p @ ss \<and>
    list_all is_barrier ss"
proof (cases "0 < depth p")
  case True
  obtain b w2 where b: "barrier_in heap (cp_iter p) w p = (b, w2)" by fastforce
  with True assms(1) barrier_in_spec [OF b assms(2,3) subset_refl] show ?thesis
    by (auto intro!: exI [of _ b] exI [of _ "[b]"])
next
  case False
  with assms(1,3) show ?thesis by (auto intro!: exI [of _ p] exI [of _ "[]"])
qed

lemma barriers_empty:
  assumes "list_all is_barrier ss"
  shows "span_transactions (es @ ss) = span_transactions es" "span_gas_used (es @ ss) = span_gas_used es"
    and "span_da_bytes_used flz (es @ ss) = span_da_bytes_used flz es"
proof -
  have "cp_transactions c = [] \<and> gas_used c = 0 \<and> da_bytes_used flz c = 0" if "is_barrier c" for c :: "'a checkpoint"
    using that by (simp add: is_barrier_def cp_transactions_def gas_used_def da_bytes_used_def cp_result_def)
  then have "span_transactions ss = [] \<and> span_gas_used ss = 0 \<and> span_da_bytes_used flz ss = 0"
    using assms by (induction ss) (simp_all add: span_transactions_def span_gas_used_def span_da_bytes_used_def)
  then show "span_transactions (es @ ss) = span_transactions es" "span_gas_used (es @ ss) = span_gas_used es"
    "span_da_bytes_used flz (es @ ss) = span_da_bytes_used flz es"
    by (simp_all add: span_transactions_def span_gas_used_def span_da_bytes_used_def)
qed

text \<open>The loop from the start, also when there are no attributes.\<close>

lemma prologue_loop_run:
  assumes "prologue_loop heap flz l attrs 0 0 payload w = (Inr p, w1)" "fresh_heap heap" "coherent_cp payload"
    and "list_all (\<lambda>(bs, tx, h). case tx of Some t \<Rightarrow> tx_hash t = h | None \<Rightarrow> True) attrs"
  obtains es where "coherent_cp p" "history p = history payload @ es"
    "map tx_hash (span_transactions es) = map (\<lambda>(bs, tx, h). h) attrs" "span_gas_used es \<le> gas_limit l"
    "case max_da_of l of Some m \<Rightarrow> span_da_bytes_used flz es \<le> m | None \<Rightarrow> True"
proof -
  obtain es where es: "coherent_cp p" "history p = history payload @ es"
    "map tx_hash (span_transactions es) = map (\<lambda>(bs, tx, h). h) attrs"
    "attrs = [] \<or> 0 + span_gas_used es \<le> gas_limit l \<and>
      (case max_da_of l of Some m \<Rightarrow> 0 + span_da_bytes_used flz es \<le> m | None \<Rightarrow> True)"
    using prologue_loop_Inr [OF assms] by blast
  have "es = []" if "attrs = []" using that assms(1) es(2) by simp
  then have "span_gas_used es \<le> gas_limit l"
    "case max_da_of l of Some m \<Rightarrow> span_da_bytes_used flz es \<le> m | None \<Rightarrow> True"
    using es(4) by (auto simp: span_gas_used_def span_da_bytes_used_def split: option.split)
  with es show ?thesis using that by blast
qed

text \<open>
  Claim C38: \<open>OptimismPrologue\<close> refuses a payload that already has transactions. When it returns
  \<open>Ok\<close>, the transactions of the payload are exactly the sequencer transactions of the attributes,
  in order, they keep within the gas and data availability limits, and a barrier seals them:
  whatever is appended to the payload afterwards, exactly the transactions after the prologue are
  handed to Optimism's builder.
\<close>

theorem prologue_seals_sequencer_transactions:
  assumes "optimism_prologue heap flz payload ctx w = (cf, w')" "fresh_heap heap" "coherent_cp payload"
    and "list_all (\<lambda>(bs, tx, h). case tx of Some t \<Rightarrow> tx_hash t = h | None \<Rightarrow> True)
      (attr_transactions (attributes (ctx_block ctx)))"
  shows "case cf of
      Fail e \<Rightarrow> True
    | Break q \<Rightarrow> False
    | Ok q \<Rightarrow> payload_transactions payload = [] \<and> coherent_cp q \<and> (0 < depth q \<longrightarrow> is_barrier q) \<and>
        map tx_hash (payload_transactions q) = map (\<lambda>(bs, tx, h). h) (attr_transactions (attributes (ctx_block ctx))) \<and>
        (\<exists>es. history q = history payload @ es \<and> span_gas_used es \<le> gas_limit (ctx_limits ctx) \<and>
          (case max_da_of (ctx_limits ctx) of Some m \<Rightarrow> span_da_bytes_used flz es \<le> m | None \<Rightarrow> True)) \<and>
        (\<forall>later new. cp_block later = ctx_block ctx \<longrightarrow>
          payload_transactions later = payload_transactions q @ new \<longrightarrow> extract_external_txs later = new)"
proof (cases "0 < length (span_transactions (history payload))")
  case True
  with assms(1) show ?thesis by (auto simp: optimism_prologue_def)
next
  case False
  let ?attrs = "attr_transactions (attributes (ctx_block ctx))" and ?l = "ctx_limits ctx"
  have none: "payload_transactions payload = []" using False by (simp add: payload_transactions_def)
  obtain res w1 where lp: "prologue_loop heap flz ?l ?attrs 0 0 payload w = (res, w1)" by fastforce
  show ?thesis
  proof (cases res)
    case (Inl e)
    with assms(1) False lp show ?thesis by (auto simp: optimism_prologue_def)
  next
    case (Inr p)
    obtain es where es: "coherent_cp p" "history p = history payload @ es"
      "map tx_hash (span_transactions es) = map (\<lambda>(bs, tx, h). h) ?attrs" and
      bound: "span_gas_used es \<le> gas_limit ?l"
        "case max_da_of ?l of Some m \<Rightarrow> span_da_bytes_used flz es \<le> m | None \<Rightarrow> True"
      by (rule prologue_loop_run [OF lp [unfolded Inr] assms(2-4)])
    from assms(1) False lp Inr have "(if 0 < depth p
        then (case barrier_in heap (cp_iter p) w1 p of (p, w) \<Rightarrow> (Ok p, w)) else (Ok p, w1)) = (cf, w')"
      by (simp add: optimism_prologue_def)
    from prologue_end [OF this assms(2) es(1)] obtain q ss where q: "cf = Ok q" "coherent_cp q"
      "0 < depth q \<longrightarrow> is_barrier q" "history q = history p @ ss" "list_all is_barrier ss" by (elim exE conjE)
    have ss: "span_transactions (es @ ss) = span_transactions es" "span_gas_used (es @ ss) = span_gas_used es"
      "span_da_bytes_used flz (es @ ss) = span_da_bytes_used flz es"
      using q(5) by (simp_all add: barriers_empty)
    have txs: "payload_transactions q = span_transactions es"
    proof -
      have "payload_transactions q = payload_transactions payload @ span_transactions (es @ ss)"
        using q(4) es(2) by (simp add: payload_transactions_def span_transactions_def)
      then show ?thesis by (simp add: none ss(1))
    qed
    have "extract_external_txs later = new"
      if "cp_block later = ctx_block ctx" "payload_transactions later = payload_transactions q @ new" for later new
      using extract_suffix [OF that(2)] es(3) that(1) txs by simp
    moreover have "history q = history payload @ (es @ ss)" using q(4) es(2) by simp
    ultimately show ?thesis
      using q(1-3) es(3) bound [folded ss(2,3)] none txs by (auto simp del: append_assoc)
  qed
qed

subsection \<open>Properties of the epilogue\<close>

text \<open>What the code relies on: executing a transaction uses no more gas than its gas limit.\<close>

definition within_tx_gas :: "evm \<Rightarrow> bool" where
  "within_tx_gas ev \<longleftrightarrow>
     (\<forall>env db cs tx res st. transact ev env db cs (Plain tx) = Inr (res, st) \<longrightarrow> result_gas res \<le> tx_gas_limit tx)"

lemma builder_step_Ok:
  assumes "builder_epilogue_step heap floor chain_id build_signed show_error be payload ctx w = (cf, w')"
    and "fresh_heap heap" "coherent_cp payload"
  shows "cf = Ok payload \<and> \<not> be_required be \<or> (\<exists>e. cf = Fail (Other e)) \<and> be_required be \<or>
    (\<exists>q n tx. cf = Ok q \<and> nonce_of payload (be_signer be) = Inr n \<and>
      build_signed (epilogue_request floor chain_id be (ctx_block ctx) n) (be_signer be) = Inr tx \<and>
      coherent_cp q \<and> history q = history payload @ [q] \<and> payload_transactions q = payload_transactions payload @ [tx] \<and>
      (\<exists>res st. transact (evm_config (cp_block payload)) (evm_env_of (cp_block payload)) (checkpoint_db payload) [] (Plain tx) =
         Inr (res, st) \<and> gas_used q = result_gas res))"
proof (cases "nonce_of payload (be_signer be)")
  case (Inl e)
  with assms(1) show ?thesis by (auto simp: builder_epilogue_step_def Let_def split: if_splits)
next
  case n: (Inr n)
  show ?thesis
  proof (cases "build_signed (epilogue_request floor chain_id be (ctx_block ctx) n) (be_signer be)")
    case (Inl e)
    with n assms(1) show ?thesis by (auto simp: builder_epilogue_step_def Let_def split: if_splits)
  next
    case tx: (Inr tx)
    obtain res w1 where ap: "apply_in heap (cp_iter payload) w payload (Transaction tx) = (res, w1)" by fastforce
    show ?thesis
    proof (cases res)
      case (Inl e)
      with n tx ap assms(1) show ?thesis by (auto simp: builder_epilogue_step_def Let_def split: if_splits)
    next
      case (Inr q)
      with n tx ap assms(1) have cf: "cf = Ok q" by (simp add: builder_epilogue_step_def Let_def)
      note ex = apply_in_Inr [OF ap [unfolded Inr] assms(2,3) subset_refl]
      then obtain r where r: "execute (cp_block payload) (checkpoint_db payload) (Transaction tx) = Inr r"
        "mutation q = Executable r" by blast
      then have "cp_transactions q = [tx]"
        "\<exists>res st. transact (evm_config (cp_block payload)) (evm_env_of (cp_block payload)) (checkpoint_db payload) [] (Plain tx) =
           Inr (res, st) \<and> gas_used q = result_gas res"
        by (auto simp: cp_transactions_def result_transactions_def execute_transaction_def result_simps gas_used_def
            cp_result_def result_gas_used_def)
      with cf n tx ex show ?thesis by (auto simp: payload_transactions_def span_transactions_def)
    qed
  qed
qed

text \<open>
  Claim C39: the builder's transaction fits: when the payload keeps within the limits that
  \<open>limits_minus_epilogue\<close> derives from the enclosing ones and those leave room for the estimated
  gas, the step appends at most one transaction, to the end, and the payload keeps within the
  enclosing gas limit. A step that is not required never fails.
\<close>

theorem builder_epilogue_fits:
  assumes "builder_epilogue_step heap floor chain_id build_signed show_error be payload ctx w = (cf, w')"
    and "fresh_heap heap" "coherent_cp payload" "within_tx_gas (evm_config (cp_block payload))"
    and "\<forall>rq a tx. build_signed rq a = Inr tx \<longrightarrow> tx_gas_limit tx = rq_gas_limit rq"
    and "ctx_block ctx = cp_block payload"
    and "cumulative_gas_used payload \<le> gas_limit (limits_minus_epilogue floor be payload enclosing)"
    and "estimate_gas_for_tx floor (be_message_fn be (cp_block payload)) \<le> gas_limit enclosing"
  shows "case cf of
      Fail e \<Rightarrow> be_required be
    | Break q \<Rightarrow> False
    | Ok q \<Rightarrow> cumulative_gas_used q \<le> gas_limit enclosing \<and>
        (q = payload \<or> (\<exists>tx. payload_transactions q = payload_transactions payload @ [tx]))"
proof -
  let ?g = "estimate_gas_for_tx floor (be_message_fn be (cp_block payload))"
  have lim: "gas_limit (limits_minus_epilogue floor be payload enclosing) = saturating_sub (gas_limit enclosing) ?g"
    by (simp add: limits_minus_epilogue_def scaled_from_def scaled_new_def Let_def)
  have sum: "unat (cumulative_gas_used payload) + unat ?g \<le> unat (gas_limit enclosing)"
    using assms(7,8) by (simp add: lim word_le_nat_alt unat_saturating_sub)
  have keep: "cumulative_gas_used payload \<le> gas_limit enclosing" using sum by (simp add: word_le_nat_alt)
  have new: "cumulative_gas_used q \<le> gas_limit enclosing"
    if q: "history q = history payload @ [q]" "gas_used q \<le> ?g" for q
  proof -
    have "cumulative_gas_used q = cumulative_gas_used payload + gas_used q"
      using q(1) by (simp add: cumulative_gas_used_def span_gas_used_def)
    moreover have "unat (cumulative_gas_used payload) + unat (gas_used q) \<le> unat (gas_limit enclosing)"
      using sum q(2) by (simp add: word_le_nat_alt)
    moreover have "unat (cumulative_gas_used payload + gas_used q) \<le> unat (cumulative_gas_used payload) + unat (gas_used q)"
      by (simp add: unat_word_ariths)
    ultimately show ?thesis by (simp add: word_le_nat_alt)
  qed
  consider "cf = Ok payload" | e where "cf = Fail (Other e)" "be_required be"
    | q n tx res st where "cf = Ok q" "history q = history payload @ [q]"
      "payload_transactions q = payload_transactions payload @ [tx]"
      "build_signed (epilogue_request floor chain_id be (ctx_block ctx) n) (be_signer be) = Inr tx"
      "transact (evm_config (cp_block payload)) (evm_env_of (cp_block payload)) (checkpoint_db payload) [] (Plain tx) = Inr (res, st)"
      "gas_used q = result_gas res"
    using builder_step_Ok [OF assms(1-3)] by (elim disjE conjE exE) blast+
  then show ?thesis
  proof cases
    case 3
    have "gas_used q \<le> tx_gas_limit tx" using assms(4) 3(5) unfolding within_tx_gas_def 3(6) by blast
    also have "tx_gas_limit tx = ?g" using assms(5,6) 3(4) by (simp add: epilogue_request_def Let_def)
    finally show ?thesis using new 3 by auto
  qed (use keep in auto)
qed

subsection \<open>Examples\<close>

definition op_ctx :: step_context where
  "op_ctx = \<lparr>ctx_block = sample_op_block, ctx_limits = limits_with_gas EthExt 30000, ctx_started_at = None\<rparr>"

lemma op_prologue_run:
  "\<exists>q w'. optimism_prologue bump_heap (\<lambda>bs. 10) (op_payload []) op_ctx 5 = (Ok q, w') \<and> depth q = 2"
proof -
  let ?root = "op_payload []"
  have root: "cp_iter ?root = [?root]" "cp_addr ?root = 1" "depth ?root = 0" "cp_block ?root = sample_op_block"
    by (simp_all add: op_payload_def new_with_context_def)
  let ?r = "\<lparr>source = Transaction (sample_tx 1 7 0), results = [Success 21000],
    er_state = take_bundle sample_evm (checkpoint_db ?root) [undefined]\<rparr>"
  let ?cp = "apply_with (Suc 1) 5 ?root (Executable ?r) (cp_context ?root)"
  have ap: "apply_in bump_heap [?root] 5 ?root (Transaction (sample_tx 1 7 0)) = (Inr ?cp, 6)"
    by (simp add: apply_in_def bump_heap_def root cp_apply_def execute_transaction_def)
      (simp add: sample_op_block_def sample_block_defs)
  have cp: "gas_used ?cp = 21000" "depth ?cp = 1"
    by (simp_all add: gas_used_def cp_result_def result_gas_used_def apply_with_def root(3))
  have "span_transactions (history ?root) = []" using op_payload_simps [of "[]"] by (simp add: payload_transactions_def)
  moreover have "attr_transactions (attributes sample_op_block) = [([1], Some (sample_tx 1 7 0), 1)]"
    by (simp add: sample_op_block_def)
  moreover have "prologue_loop bump_heap (\<lambda>bs. 10) (limits_with_gas EthExt 30000) [([1], Some (sample_tx 1 7 0), 1)] 0 0 ?root 5 =
      (Inr ?cp, 6)"
    using cp ap by (simp add: root(1) max_da_of_def limits_with_gas_def Let_def)
  ultimately have "optimism_prologue bump_heap (\<lambda>bs. 10) ?root op_ctx 5 =
      (case barrier_in bump_heap (cp_iter ?cp) 6 ?cp of (p, w) \<Rightarrow> (Ok p, w))"
    by (simp add: optimism_prologue_def op_ctx_def cp(2))
  then show ?thesis
    by (simp add: barrier_in_def bump_heap_def barrier_def split: prod.split) (simp add: apply_with_def root(3))
qed

theorem prologue_seals_sequencer_transactions_witness:
  "\<exists>q w'. optimism_prologue bump_heap (\<lambda>bs. 10) (op_payload []) op_ctx 5 = (Ok q, w') \<and> is_barrier q \<and>
     map tx_hash (payload_transactions q) = [1]"
proof -
  obtain q w' where q: "optimism_prologue bump_heap (\<lambda>bs. 10) (op_payload []) op_ctx 5 = (Ok q, w')" "depth q = 2"
    using op_prologue_run by blast
  have "coherent_cp (op_payload [])" using op_payload_simps by blast
  from prologue_seals_sequencer_transactions [OF q(1) fresh_bump_heap this] q(2)
  have "is_barrier q \<and> map tx_hash (payload_transactions q) = [1]"
    by (auto simp add: op_ctx_def sample_op_block_def)
  then show ?thesis using q(1) by (intro exI [of _ q] exI [of _ w']) simp
qed

definition free_evm :: evm where
  "free_evm = sample_evm\<lparr>transact := (\<lambda>env db cs i. Inr (Success 0, undefined))\<rparr>"

definition free_root :: "unit checkpoint" where
  "free_root = new_with_context 1 0 (sample_block\<lparr>evm_config := free_evm\<rparr>) ()"

theorem builder_epilogue_fits_witness:
  "\<exists>cf w'. builder_epilogue_step bump_heap 10 (\<lambda>spec. 1)
       (\<lambda>rq a. Inr ((sample_tx 5 a (rq_nonce rq))\<lparr>tx_gas_limit := rq_gas_limit rq\<rparr>)) (\<lambda>e. ''failed'')
       (builder_with_message (builder_with_signer 7) (\<lambda>block. [0, 1])) free_root
       \<lparr>ctx_block = cp_block free_root, ctx_limits = limits_with_gas EthExt 40000, ctx_started_at = None\<rparr> 3 = (cf, w') \<and>
     estimate_gas_for_tx 10 [0, 1] = 21050 \<and>
     (case cf of Fail e \<Rightarrow> False | Break q \<Rightarrow> False | Ok q \<Rightarrow> cumulative_gas_used q \<le> 40000)"
proof -
  let ?be = "builder_with_message (builder_with_signer 7) (\<lambda>block. [0, 1])"
  let ?ctx = "\<lparr>ctx_block = cp_block free_root, ctx_limits = limits_with_gas EthExt 40000, ctx_started_at = None\<rparr>"
  let ?sign = "\<lambda>rq a. Inr ((sample_tx 5 a (rq_nonce rq))\<lparr>tx_gas_limit := rq_gas_limit rq\<rparr>) :: string + recovered_tx"
  obtain cf w' where run: "builder_epilogue_step bump_heap 10 (\<lambda>spec. 1) ?sign (\<lambda>e. ''failed'') ?be free_root ?ctx 3 = (cf, w')"
    by fastforce
  have est: "estimate_gas_for_tx 10 [0, 1] = 21050" by (simp add: estimate_gas_for_tx_def)
  have be: "be_message_fn ?be block = [0, 1]" "\<not> be_required ?be" for block
    by (simp_all add: builder_with_message_def builder_with_signer_def)
  have gas: "within_tx_gas (evm_config (cp_block free_root))"
    by (simp add: within_tx_gas_def free_root_def new_with_context_def free_evm_def)
  have co: "coherent_cp free_root" unfolding free_root_def by (rule coherent_cp_new)
  have zero: "cumulative_gas_used free_root = 0"
    using history_eq [OF co]
    by (simp add: cumulative_gas_used_def span_gas_used_def gas_used_def cp_result_def free_root_def new_with_context_def)
  have "case cf of Fail e \<Rightarrow> be_required ?be | Break q \<Rightarrow> False
      | Ok q \<Rightarrow> cumulative_gas_used q \<le> gas_limit (limits_with_gas EthExt 40000) \<and>
          (q = free_root \<or> (\<exists>tx. payload_transactions q = payload_transactions free_root @ [tx]))"
    by (rule builder_epilogue_fits [OF run fresh_bump_heap co gas])
      (simp_all add: be est zero limits_with_gas_def)
  with run est be(2) show ?thesis by (cases cf) (auto simp: limits_with_gas_def)
qed

end
