(* ===== verification/Jobs.thy ===== *)
theory Jobs
  imports Executor
begin

section \<open>Payload jobs\<close>

text \<open>
  \<open>crates/pipeline/src/pipelines/job.rs\<close>: the future \<open>ExecutorFuture\<close> that wraps the pipeline
  executor and caches its result, and \<open>PayloadJob\<close>, which reth polls and asks for the payload.

  \<open>futures::future::Shared\<close> is a parameter: a record of its operations with \<open>shared_laws\<close>, what
  its documentation says of them. A \<open>Shared\<close> is a handle \<open>'h\<close> on a cell \<open>'s\<close> which all clones
  have in common; the cell holds the executor until that has completed, and its output from then
  on. A handle may be told to wait while another one is polling; after it has given the output it
  must not be polled again.

  The clock is an argument \<open>now\<close> of the polls. Panics are \<open>FPanic\<close>, or \<open>None\<close> for a sequence of
  actions.
\<close>

subsection \<open>Shared futures\<close>

datatype 'o fpoll = FPanic | FPending | FReady 'o

record ('c, 'w, 'p, 's, 'h) shared_ops =
  sh_shared :: "('c, 'w, 'p) executor \<Rightarrow> 's \<times> 'h"
  sh_clone :: "'h \<Rightarrow> 'h"
  sh_poll :: "(('c, 'w, 'p) executor \<Rightarrow> ('c, 'w, 'p) poll_result) \<Rightarrow> 'h \<Rightarrow> 's \<Rightarrow>
    's \<times> 'h \<times> 'p pipeline_output fpoll"
  sh_cell :: "'s \<Rightarrow> ('c, 'w, 'p) executor + 'p pipeline_output"
  sh_live :: "'h \<Rightarrow> bool"

text \<open>What a poll of a live handle does to the cell and what it gives.\<close>

definition shared_polled ::
    "(('c, 'w, 'p) executor \<Rightarrow> ('c, 'w, 'p) poll_result) \<Rightarrow> ('c, 'w, 'p) executor + 'p pipeline_output \<Rightarrow>
     ('c, 'w, 'p) executor + 'p pipeline_output \<Rightarrow> 'p pipeline_output fpoll \<Rightarrow> bool" where
  "shared_polled poll cell cell' r \<longleftrightarrow>
     (case cell of
        Inr out \<Rightarrow> cell' = Inr out \<and> r = FReady out
      | Inl ex \<Rightarrow>
          r = FPending \<and> cell' = Inl ex \<or>
          (case poll ex of
             PollPanic \<Rightarrow> r = FPanic
           | PollPending ex' \<Rightarrow> r = FPending \<and> cell' = Inl ex'
           | PollReady out ex' \<Rightarrow> r = FReady out \<and> cell' = Inr out))"

definition shared_laws :: "('c, 'w, 'p, 's, 'h) shared_ops \<Rightarrow> bool" where
  "shared_laws ops \<longleftrightarrow>
     (\<forall>ex s h. sh_shared ops ex = (s, h) \<longrightarrow> sh_cell ops s = Inl ex \<and> sh_live ops h) \<and>
     (\<forall>h. sh_live ops h \<longrightarrow> sh_live ops (sh_clone ops h)) \<and>
     (\<forall>poll h s s' h' r. sh_live ops h \<longrightarrow> sh_poll ops poll h s = (s', h', r) \<longrightarrow>
        shared_polled poll (sh_cell ops s) (sh_cell ops s') r \<and> (r = FPending \<longrightarrow> sh_live ops h'))"

subsection \<open>The executor future\<close>

datatype ('p, 'h) executor_future_state = EfReady "'p pipeline_output" | EfFuture 'h

record ('p, 'h) executor_future =
  ef_payload_id :: u64
  ef_started_at :: nat
  ef_state :: "('p, 'h) executor_future_state"

definition executor_future_new ::
    "('c, 'w, 'p, 's, 'h) shared_ops \<Rightarrow> ('c, 'w, 'p) exec_env \<Rightarrow> nat \<Rightarrow> ('c, 'w, 'p) executor \<Rightarrow>
     's \<times> ('p, 'h) executor_future" where
  "executor_future_new ops env now ex =
     (let (s, h) = sh_shared ops ex in
      (s, \<lparr>ef_payload_id = payload_id (env_block env), ef_started_at = now, ef_state = EfFuture h\<rparr>))"

text \<open>
  The report of a result: the payload's identifier, the duration and, for a payload, what its block
  says and the percentage of gas used. The division panics for a gas limit of zero.
\<close>

datatype job_report =
    ReportSuccess u64 nat built_info u64
  | ReportFailure u64 nat payload_builder_error

definition log_payload_job_result ::
    "('c, 'w, 'p) exec_env \<Rightarrow> nat \<Rightarrow> ('p, 'h) executor_future \<Rightarrow> 'p pipeline_output \<Rightarrow> job_report option" where
  "log_payload_job_result env now ef result =
     (case result of
        Inr p \<Rightarrow>
          (let block = env_payload env p in
           if bp_gas_limit block = 0 then None
           else Some (ReportSuccess (ef_payload_id ef) (now - ef_started_at ef) block
                        (bp_gas_used block * 100 div bp_gas_limit block)))
      | Inl e \<Rightarrow> Some (ReportFailure (ef_payload_id ef) (now - ef_started_at ef) e))"

definition ef_poll ::
    "('c, 'w, 'p, 's, 'h) shared_ops \<Rightarrow> ('c, 'w, 'p) exec_env \<Rightarrow> nat \<Rightarrow> ('p, 'h) executor_future \<Rightarrow> 's \<Rightarrow>
     's \<times> ('p, 'h) executor_future \<times> job_report list \<times> 'p pipeline_output fpoll" where
  "ef_poll ops env now ef s =
     (case ef_state ef of
        EfReady result \<Rightarrow> (s, ef, [], FReady (map_err clone_payload_error_lossy result))
      | EfFuture h \<Rightarrow>
          (case sh_poll ops (poll_executor env) h s of
             (s', h', FReady result) \<Rightarrow>
               (case log_payload_job_result env now ef result of
                  None \<Rightarrow> (s', ef, [], FPanic)
                | Some report \<Rightarrow>
                    (s', ef\<lparr>ef_state := EfReady result\<rparr>, [report],
                     FReady (map_err clone_payload_error_lossy result)))
           | (s', h', FPending) \<Rightarrow> (s', ef\<lparr>ef_state := EfFuture h'\<rparr>, [], FPending)
           | (s', h', FPanic) \<Rightarrow> (s', ef\<lparr>ef_state := EfFuture h'\<rparr>, [], FPanic)))"

definition ef_clone ::
    "('c, 'w, 'p, 's, 'h) shared_ops \<Rightarrow> ('p, 'h) executor_future \<Rightarrow> ('p, 'h) executor_future" where
  "ef_clone ops ef =
     \<lparr>ef_payload_id = ef_payload_id ef, ef_started_at = ef_started_at ef,
      ef_state = (case ef_state ef of
                    EfReady result \<Rightarrow> EfReady result
                  | EfFuture h \<Rightarrow> EfFuture (sh_clone ops h))\<rparr>"

subsection \<open>The payload job\<close>

record ('p, 'h) payload_job =
  pj_block :: block_context
  pj_fut :: "('p, 'h) executor_future"
  pj_deadline :: nat

definition payload_job_new ::
    "('c, 'w, 'p, 's, 'h) shared_ops \<Rightarrow> ('c, 'w, 'p) exec_env \<Rightarrow> nat \<Rightarrow> nat \<Rightarrow> 'w \<Rightarrow>
     's \<times> ('p, 'h) payload_job" where
  "payload_job_new ops env builder_deadline now w =
     (let (s, fut) = executor_future_new ops env now (executor_run env w) in
      (s, \<lparr>pj_block = env_block env, pj_fut = fut, pj_deadline = now + builder_deadline\<rparr>))"

text \<open>\<open>unimplemented!\<close> is a panic, \<open>None\<close>.\<close>

definition best_payload :: "('p, 'h) payload_job \<Rightarrow> 'p pipeline_output option" where
  "best_payload job = None"

definition job_payload_attributes ::
    "('p, 'h) payload_job \<Rightarrow> payload_builder_error + payload_attributes" where
  "job_payload_attributes job = Inr (attributes (pj_block job))"

datatype payload_kind = Earliest | WaitForPending

datatype keep_payload_job_alive = KeepAliveYes | KeepAliveNo

definition resolve_kind ::
    "('c, 'w, 'p, 's, 'h) shared_ops \<Rightarrow> payload_kind \<Rightarrow> ('p, 'h) payload_job \<Rightarrow>
     (('p, 'h) executor_future \<times> keep_payload_job_alive) option" where
  "resolve_kind ops kind job =
     (case kind of
        Earliest \<Rightarrow> Some (ef_clone ops (pj_fut job), KeepAliveNo)
      | WaitForPending \<Rightarrow> None)"

text \<open>A \<open>Sleep\<close> is ready from its deadline on.\<close>

definition poll_job ::
    "('c, 'w, 'p, 's, 'h) shared_ops \<Rightarrow> ('c, 'w, 'p) exec_env \<Rightarrow> nat \<Rightarrow> ('p, 'h) payload_job \<Rightarrow> 's \<Rightarrow>
     's \<times> ('p, 'h) payload_job \<times> job_report list \<times> (payload_builder_error + unit) fpoll" where
  "poll_job ops env now job s =
     (if pj_deadline job \<le> now then (s, job, [], FReady (Inr ()))
      else
        (case ef_poll ops env now (pj_fut job) s of
           (s', fut', reports, r) \<Rightarrow>
             (s', job\<lparr>pj_fut := fut'\<rparr>, reports,
              (case r of
                 FPanic \<Rightarrow> FPanic
               | FReady (Inl e) \<Rightarrow> FReady (Inl e)
               | _ \<Rightarrow> FPending))))"

subsection \<open>A job and the futures resolved from it\<close>

text \<open>
  reth polls the job, resolves it any number of times and polls the futures it got, in any order.
\<close>

record ('p, 's, 'h) job_system =
  js_cell :: 's
  js_job :: "('p, 'h) payload_job"
  js_copies :: "('p, 'h) executor_future list"
  js_results :: "'p pipeline_output list"
  js_job_results :: "(payload_builder_error + unit) list"
  js_reports :: "job_report list"

datatype job_action = PollJob nat | Resolve payload_kind | PollCopy nat nat

fun ready_list :: "'o fpoll \<Rightarrow> 'o list" where
  "ready_list (FReady r) = [r]"
| "ready_list _ = []"

fun job_act ::
    "('c, 'w, 'p, 's, 'h) shared_ops \<Rightarrow> ('c, 'w, 'p) exec_env \<Rightarrow> job_action \<Rightarrow>
     ('p, 's, 'h) job_system \<Rightarrow> ('p, 's, 'h) job_system option" where
  "job_act ops env (PollJob now) sys =
     (case poll_job ops env now (js_job sys) (js_cell sys) of
        (s, job, reports, r) \<Rightarrow>
          if r = FPanic then None
          else Some (sys\<lparr>js_cell := s, js_job := job, js_reports := js_reports sys @ reports,
                         js_job_results := js_job_results sys @ ready_list r\<rparr>))"
| "job_act ops env (Resolve kind) sys =
     map_option (\<lambda>(fut, alive). sys\<lparr>js_copies := js_copies sys @ [fut]\<rparr>)
       (resolve_kind ops kind (js_job sys))"
| "job_act ops env (PollCopy i now) sys =
     (if i < length (js_copies sys) then
        (case ef_poll ops env now (js_copies sys ! i) (js_cell sys) of
           (s, fut, reports, r) \<Rightarrow>
             if r = FPanic then None
             else Some (sys\<lparr>js_cell := s, js_copies := (js_copies sys)[i := fut],
                            js_reports := js_reports sys @ reports,
                            js_results := js_results sys @ ready_list r\<rparr>))
      else Some sys)"

definition job_acts ::
    "('c, 'w, 'p, 's, 'h) shared_ops \<Rightarrow> ('c, 'w, 'p) exec_env \<Rightarrow> job_action list \<Rightarrow>
     ('p, 's, 'h) job_system \<Rightarrow> ('p, 's, 'h) job_system option" where
  "job_acts ops env = run_acts (job_act ops env)"

definition job_system_new ::
    "('c, 'w, 'p, 's, 'h) shared_ops \<Rightarrow> ('c, 'w, 'p) exec_env \<Rightarrow> nat \<Rightarrow> nat \<Rightarrow> 'w \<Rightarrow>
     ('p, 's, 'h) job_system" where
  "job_system_new ops env builder_deadline now w =
     (let (s, job) = payload_job_new ops env builder_deadline now w in
      \<lparr>js_cell = s, js_job = job, js_copies = [], js_results = [], js_job_results = [],
       js_reports = []\<rparr>)"

subsection \<open>Invariant\<close>

definition executor_output :: "('c, 'w, 'p) exec_env \<Rightarrow> 'w \<Rightarrow> 'p pipeline_output \<Rightarrow> bool" where
  "executor_output env w out \<longleftrightarrow> (\<exists>ex ex'. exec_reach env w ex \<and> poll_executor env ex = PollReady out ex')"

definition cell_ok ::
    "('c, 'w, 'p) exec_env \<Rightarrow> 'w \<Rightarrow> ('c, 'w, 'p) executor + 'p pipeline_output \<Rightarrow> bool" where
  "cell_ok env w cell = (case cell of Inl ex \<Rightarrow> exec_reach env w ex | Inr out \<Rightarrow> executor_output env w out)"

definition fut_ok ::
    "('c, 'w, 'p, 's, 'h) shared_ops \<Rightarrow> ('c, 'w, 'p) executor + 'p pipeline_output \<Rightarrow>
     ('p, 'h) executor_future \<Rightarrow> bool" where
  "fut_ok ops cell ef =
     (case ef_state ef of EfFuture h \<Rightarrow> sh_live ops h | EfReady out \<Rightarrow> cell = Inr out)"

definition results_ok ::
    "('c, 'w, 'p) executor + 'p pipeline_output \<Rightarrow> 'p pipeline_output list \<Rightarrow> bool" where
  "results_ok cell rs \<longleftrightarrow>
     (\<forall>r \<in> set rs. \<exists>out. cell = Inr out \<and> r = map_err clone_payload_error_lossy out)"

definition job_results_ok ::
    "('c, 'w, 'p) executor + 'p pipeline_output \<Rightarrow> (payload_builder_error + unit) list \<Rightarrow> bool" where
  "job_results_ok cell rs \<longleftrightarrow>
     (\<forall>e. Inl e \<in> set rs \<longrightarrow> (\<exists>out. cell = Inr out \<and> map_err clone_payload_error_lossy out = Inl e))"

definition job_inv ::
    "('c, 'w, 'p, 's, 'h) shared_ops \<Rightarrow> ('c, 'w, 'p) exec_env \<Rightarrow> 'w \<Rightarrow> ('p, 's, 'h) job_system \<Rightarrow> bool" where
  "job_inv ops env w sys \<longleftrightarrow>
     (let cell = sh_cell ops (js_cell sys) in
      cell_ok env w cell \<and> fut_ok ops cell (pj_fut (js_job sys)) \<and>
      (\<forall>ef \<in> set (js_copies sys). fut_ok ops cell ef) \<and>
      results_ok cell (js_results sys) \<and> job_results_ok cell (js_job_results sys))"

text \<open>What the job relies on beside the executor: every payload's block has a gas limit.\<close>

definition gas_limits_ok :: "('c, 'w, 'p) exec_env \<Rightarrow> bool" where
  "gas_limits_ok env \<longleftrightarrow> (\<forall>cp p. env_build env cp = Inr p \<longrightarrow> bp_gas_limit (env_payload env p) \<noteq> 0)"

lemma output_logged:
  assumes "env_wf env" "gas_limits_ok env" "executor_output env w out"
  shows "\<exists>report. log_payload_job_result env now ef out = Some report"
proof -
  from assms(3) obtain ex ex' where "exec_reach env w ex" "poll_executor env ex = PollReady out ex'"
    by (auto simp: executor_output_def)
  with poll_executor_inv [OF assms(1)] exec_reach_inv [OF _ assms(1)] have "payload_ok env out" by blast
  with assms(2) show ?thesis
    by (auto simp: payload_ok_def gas_limits_ok_def log_payload_job_result_def Let_def split: sum.splits)
qed

text \<open>The output of a cell does not change once it is there.\<close>

definition cell_keeps :: "('e + 'o) \<Rightarrow> ('e + 'o) \<Rightarrow> bool" where
  "cell_keeps cell cell' \<longleftrightarrow> (\<forall>out. cell = Inr out \<longrightarrow> cell' = Inr out)"

lemma fut_ok_keeps: "fut_ok ops cell ef \<Longrightarrow> cell_keeps cell cell' \<Longrightarrow> fut_ok ops cell' ef"
  by (auto simp: fut_ok_def cell_keeps_def split: executor_future_state.splits)

lemma results_ok_keeps: "results_ok cell rs \<Longrightarrow> cell_keeps cell cell' \<Longrightarrow> results_ok cell' rs"
  by (auto simp: results_ok_def cell_keeps_def)

lemma job_results_ok_keeps:
  "job_results_ok cell rs \<Longrightarrow> cell_keeps cell cell' \<Longrightarrow> job_results_ok cell' rs"
  by (auto simp: job_results_ok_def cell_keeps_def)

lemma job_inv_keeps:
  assumes "job_inv ops env w sys" "cell_keeps (sh_cell ops (js_cell sys)) cell'"
  shows "fut_ok ops cell' (pj_fut (js_job sys))" "\<forall>ef \<in> set (js_copies sys). fut_ok ops cell' ef"
    "results_ok cell' (js_results sys)" "job_results_ok cell' (js_job_results sys)"
  using assms
  by (auto simp: job_inv_def Let_def intro: fut_ok_keeps results_ok_keeps job_results_ok_keeps)

lemma shared_polled_ok:
  assumes wf: "env_wf env" and ok: "cell_ok env w cell" and
    polled: "shared_polled (poll_executor env) cell cell' r"
  shows "r \<noteq> FPanic \<and> cell_ok env w cell' \<and> cell_keeps cell cell' \<and> (\<forall>out. r = FReady out \<longrightarrow> cell' = Inr out)"
proof (cases cell)
  case (Inl ex)
  with ok have reach: "exec_reach env w ex" by (simp add: cell_ok_def)
  then have np: "poll_executor env ex \<noteq> PollPanic"
    using poll_executor_inv [OF wf exec_reach_inv [OF reach wf]] by blast
  show ?thesis
  proof (cases "poll_executor env ex")
    case (PollPending ex')
    with reach have "exec_reach env w ex'" by (rule reach_poll)
    with polled Inl PollPending reach show ?thesis
      by (auto simp: shared_polled_def cell_ok_def cell_keeps_def)
  next
    case (PollReady out ex')
    with reach have "executor_output env w out" by (auto simp: executor_output_def)
    with polled Inl PollReady reach show ?thesis
      by (auto simp: shared_polled_def cell_ok_def cell_keeps_def)
  qed (use np in simp)
next
  case (Inr out)
  with polled ok show ?thesis by (auto simp: shared_polled_def cell_keeps_def)
qed

lemma ef_poll_ok:
  assumes laws: "shared_laws ops" and wf: "env_wf env" and gas: "gas_limits_ok env"
    and cell: "cell_ok env w (sh_cell ops s)" and fut: "fut_ok ops (sh_cell ops s) ef"
    and polled: "ef_poll ops env now ef s = (s', ef', reports, r)"
  shows "r \<noteq> FPanic \<and> cell_ok env w (sh_cell ops s') \<and> fut_ok ops (sh_cell ops s') ef' \<and>
    cell_keeps (sh_cell ops s) (sh_cell ops s') \<and>
    (\<forall>res. r = FReady res \<longrightarrow>
       (\<exists>out. sh_cell ops s' = Inr out \<and> res = map_err clone_payload_error_lossy out))"
proof (cases "ef_state ef")
  case (EfReady out)
  with cell fut polled show ?thesis by (auto simp: ef_poll_def fut_ok_def cell_keeps_def)
next
  case (EfFuture h)
  obtain s1 h1 r1 where p: "sh_poll ops (poll_executor env) h s = (s1, h1, r1)" by (metis prod_cases3)
  from fut EfFuture have "sh_live ops h" by (simp add: fut_ok_def)
  with laws p have sp: "shared_polled (poll_executor env) (sh_cell ops s) (sh_cell ops s1) r1"
    and live: "r1 = FPending \<Longrightarrow> sh_live ops h1"
    unfolding shared_laws_def by blast+
  note ok = shared_polled_ok [OF wf cell sp]
  show ?thesis
  proof (cases r1)
    case (FReady out)
    with ok have "executor_output env w out" by (auto simp: cell_ok_def)
    from output_logged [OF wf gas this, of now ef] EfFuture p FReady polled ok show ?thesis
      by (auto simp: ef_poll_def fut_ok_def)
  qed (use EfFuture p polled ok live in \<open>auto simp: ef_poll_def fut_ok_def\<close>)
qed

lemma poll_job_ok:
  assumes laws: "shared_laws ops" and wf: "env_wf env" and gas: "gas_limits_ok env"
    and sys: "job_inv ops env w sys"
  shows "\<exists>sys'. job_act ops env (PollJob now) sys = Some sys' \<and> job_inv ops env w sys'"
proof -
  obtain s fut reports r where p: "ef_poll ops env now (pj_fut (js_job sys)) (js_cell sys) = (s, fut, reports, r)"
    by (metis prod_cases4)
  from sys have ok: "cell_ok env w (sh_cell ops (js_cell sys))" "fut_ok ops (sh_cell ops (js_cell sys)) (pj_fut (js_job sys))"
    by (simp_all add: job_inv_def Let_def)
  note q = ef_poll_ok [OF laws wf gas ok p]
  show ?thesis
  proof (cases "pj_deadline (js_job sys) \<le> now")
    case True
    with sys show ?thesis by (auto simp: poll_job_def job_inv_def Let_def job_results_ok_def)
  next
    case False
    have "job_results_ok (sh_cell ops s)
        (js_job_results sys @ ready_list (case r of FPanic \<Rightarrow> FPanic | FReady (Inl e) \<Rightarrow> FReady (Inl e) | _ \<Rightarrow> FPending))"
      using q job_inv_keeps(4) [OF sys, of "sh_cell ops s"]
      by (cases r) (auto simp: job_results_ok_def split: sum.splits)
    with False p q job_inv_keeps(2,3) [OF sys, of "sh_cell ops s"] show ?thesis
      by (cases r) (auto simp: poll_job_def job_inv_def Let_def split: sum.splits)
  qed
qed

lemma poll_copy_ok:
  assumes laws: "shared_laws ops" and wf: "env_wf env" and gas: "gas_limits_ok env"
    and sys: "job_inv ops env w sys" and i: "i < length (js_copies sys)"
  shows "\<exists>sys'. job_act ops env (PollCopy i now) sys = Some sys' \<and> job_inv ops env w sys'"
proof -
  obtain s fut reports r where p: "ef_poll ops env now (js_copies sys ! i) (js_cell sys) = (s, fut, reports, r)"
    by (metis prod_cases4)
  from sys i have ok: "cell_ok env w (sh_cell ops (js_cell sys))" "fut_ok ops (sh_cell ops (js_cell sys)) (js_copies sys ! i)"
    by (simp_all add: job_inv_def Let_def)
  note q = ef_poll_ok [OF laws wf gas ok p]
  have "results_ok (sh_cell ops s) (js_results sys @ ready_list r)"
    using q job_inv_keeps(3) [OF sys, of "sh_cell ops s"] by (cases r) (auto simp: results_ok_def)
  moreover have "\<forall>ef \<in> set ((js_copies sys)[i := fut]). fut_ok ops (sh_cell ops s) ef"
    using q job_inv_keeps(2) [OF sys, of "sh_cell ops s"] set_update_subset_insert [of "js_copies sys" i fut]
    by auto
  ultimately show ?thesis
    using i p q job_inv_keeps(1,4) [OF sys, of "sh_cell ops s"]
    by (auto simp: job_inv_def Let_def)
qed

lemma job_act_ok:
  assumes laws: "shared_laws ops" and wf: "env_wf env" and gas: "gas_limits_ok env"
    and sys: "job_inv ops env w sys" and act: "a \<noteq> Resolve WaitForPending"
  shows "\<exists>sys'. job_act ops env a sys = Some sys' \<and> job_inv ops env w sys'"
proof (cases a)
  case (PollJob now)
  with poll_job_ok [OF laws wf gas sys] show ?thesis by simp
next
  case (Resolve kind)
  with act have "kind = Earliest" by (cases kind) simp_all
  moreover from laws have "sh_live ops h \<Longrightarrow> sh_live ops (sh_clone ops h)" for h
    unfolding shared_laws_def by blast
  ultimately show ?thesis
    using Resolve sys
    by (auto simp: resolve_kind_def job_inv_def Let_def fut_ok_def ef_clone_def
        split: executor_future_state.splits)
next
  case (PollCopy i now)
  show ?thesis
  proof (cases "i < length (js_copies sys)")
    case True
    with PollCopy poll_copy_ok [OF laws wf gas sys] show ?thesis by simp
  next
    case False
    with PollCopy sys show ?thesis by simp
  qed
qed

interpretation jobs: panic_free
  "job_act ops env" "\<lambda>a. a \<noteq> Resolve WaitForPending"
  "\<lambda>sys. shared_laws ops \<and> env_wf env \<and> gas_limits_ok env \<and> job_inv ops env w sys"
  for ops :: "('c, 'w, 'p, 's, 'h) shared_ops" and env w
proof (unfold_locales, elim conjE)
  fix sys a
  assume "shared_laws ops" "env_wf env" "gas_limits_ok env" "job_inv ops env w sys" "a \<noteq> Resolve WaitForPending"
  from job_act_ok [OF this] this(1-3) show "\<exists>sys'. job_act ops env a sys = Some sys' \<and>
      shared_laws ops \<and> env_wf env \<and> gas_limits_ok env \<and> job_inv ops env w sys'" by simp
qed

lemma job_acts_ok:
  assumes "shared_laws ops" "env_wf env" "gas_limits_ok env" "job_inv ops env w sys"
    and "Resolve WaitForPending \<notin> set as"
  shows "\<exists>sys'. job_acts ops env as sys = Some sys' \<and> job_inv ops env w sys'"
  using jobs.run_good [of ops env w sys as] assms by (auto simp: job_acts_def list_all_iff)

lemma job_system_new_inv:
  assumes "shared_laws ops"
  shows "job_inv ops env w (job_system_new ops env d now w)"
proof -
  obtain s h where sh: "sh_shared ops (executor_run env w) = (s, h)" by (metis surj_pair)
  with assms have "sh_cell ops s = Inl (executor_run env w)" "sh_live ops h"
    unfolding shared_laws_def by blast+
  with sh show ?thesis
    by (simp add: job_system_new_def payload_job_new_def executor_future_new_def job_inv_def cell_ok_def
        fut_ok_def results_ok_def job_results_ok_def reach_run)
qed

subsection \<open>Properties\<close>

text \<open>A plain implementation of shared futures.\<close>

definition sample_shared ::
    "('c, 'w, 'p, ('c, 'w, 'p) executor + 'p pipeline_output, unit) shared_ops" where
  "sample_shared =
     \<lparr>sh_shared = (\<lambda>ex. (Inl ex, ())), sh_clone = id,
      sh_poll = (\<lambda>poll h s. case s of
          Inr out \<Rightarrow> (s, h, FReady out)
        | Inl ex \<Rightarrow>
            (case poll ex of
               PollPanic \<Rightarrow> (s, h, FPanic)
             | PollPending ex' \<Rightarrow> (Inl ex', h, FPending)
             | PollReady out ex' \<Rightarrow> (Inr out, h, FReady out))),
      sh_cell = id, sh_live = (\<lambda>h. True)\<rparr>"

lemma sample_shared_laws: "shared_laws sample_shared"
  by (auto simp: shared_laws_def sample_shared_def shared_polled_def split: sum.splits poll_result.splits)

lemma sample_job_gas: "gas_limits_ok (sample_job init)"
  by (simp add: gas_limits_ok_def sample_job_def sample_env_def)

text \<open>
  Claim C4: a payload job never panics. In whatever order reth polls the job, resolves its earliest
  payload and polls the futures it got, also long after they have completed, no poll panics, given
  a well-formed job whose payloads have a gas limit.
\<close>

theorem payload_job_never_panics:
  assumes "shared_laws ops" "env_wf env" "gas_limits_ok env" "Resolve WaitForPending \<notin> set as"
  shows "\<exists>sys. job_acts ops env as (job_system_new ops env d now w) = Some sys"
  using job_acts_ok [OF assms(1-3) job_system_new_inv [OF assms(1)] assms(4)] by blast

theorem payload_job_never_panics_witness:
  "\<exists>sys. job_acts sample_shared (sample_job (Inr ())) [PollJob 1, Resolve Earliest, PollCopy 0 2, PollJob 3, PollCopy 0 4, PollCopy 0 5]
     (job_system_new sample_shared (sample_job (Inr ())) 12 0 ()) = Some sys"
  by (rule payload_job_never_panics [OF sample_shared_laws sample_job_wf sample_job_gas]) simp

text \<open>
  Claim C5: all futures resolved from a job agree. Whatever the interleaving, every future that has
  resolved gave the same result, which is the output of the one run of the pipeline, and when the
  job itself ended with an error it is that error.
\<close>

theorem resolved_futures_agree:
  assumes "shared_laws ops" "env_wf env" "gas_limits_ok env" "Resolve WaitForPending \<notin> set as"
    and "job_acts ops env as (job_system_new ops env d now w) = Some sys"
    and "res \<in> set (js_results sys)"
  shows "set (js_results sys) = {res} \<and>
    (\<exists>out. executor_output env w out \<and> res = map_err clone_payload_error_lossy out) \<and>
    (\<forall>e. Inl e \<in> set (js_job_results sys) \<longrightarrow> res = Inl e)"
proof -
  have inv: "job_inv ops env w sys"
    using job_acts_ok [OF assms(1-3) job_system_new_inv [OF assms(1)] assms(4), of d now w] assms(5) by auto
  let ?cell = "sh_cell ops (js_cell sys)"
  from inv assms(6) obtain out where out: "?cell = Inr out" "res = map_err clone_payload_error_lossy out"
    by (auto simp: job_inv_def Let_def results_ok_def)
  with inv have "executor_output env w out" by (simp add: job_inv_def Let_def cell_ok_def)
  moreover have "r = res" if "r \<in> set (js_results sys)" for r
    using inv that out by (auto simp: job_inv_def Let_def results_ok_def)
  moreover have "res = Inl e" if "Inl e \<in> set (js_job_results sys)" for e
    using inv that out by (auto simp: job_inv_def Let_def job_results_ok_def)
  ultimately show ?thesis using out assms(6) by blast
qed

text \<open>A job of an empty pipeline: its first poll gives the payload of the initial checkpoint.\<close>

definition empty_job :: "(unit, unit, nat) exec_env" where
  "empty_job = sample_env (pipeline_named ''empty'')"

lemma empty_job_wf: "env_wf empty_job" "gas_limits_ok empty_job"
  by (simp_all add: empty_job_def env_wf_def gas_limits_ok_def sample_env_def pipeline_named_def pipeline_is_empty_def)

lemma empty_job_poll: "\<exists>ex. poll_executor empty_job (executor_run empty_job ()) = PollReady (Inr 0) ex"
proof -
  let ?p = "env_pipeline empty_job"
  have p: "?p = pipeline_named ''empty''" "pipeline_is_empty ?p"
    by (simp_all add: empty_job_def sample_env_def pipeline_named_def pipeline_is_empty_def)
  have iter: "iter_steps ?p = []" by (simp add: iter_steps_all_paths p(1) pipeline_named_def)
  have ent: "entrypoint ?p = Some None" by (subst entrypoint.simps) (simp add: p(2))
  have idle: "\<not> root_is_active (root_scope_new (env_limits empty_job) ?p sample_root)"
    by (simp add: root_is_active_def scope_is_active_def root_scope_new_def rooted_at_def Let_def)
  have run: "executor_run empty_job () = \<lparr>ex_cursor = Initializing (NotPolled (run_before_jobs empty_job [] sample_root)),
      ex_shared = ((), root_scope_new (env_limits empty_job) ?p sample_root),
      ex_events = [PayloadJobStarted sample_block],
      ex_metrics = [JobsStarted, JobDeadline 12]\<rparr>"
    using iter
    by (simp add: executor_run_def record_payload_job_attributes_def saturating_sub_def)
      (simp add: empty_job_def sample_env_def sample_block_def)
  have sel: "env_start empty_job () = ((), sample_root)" "env_build empty_job sample_root = Inr 0"
    "env_retained empty_job () = False" "\<exists>ms. job_metrics empty_job (Inr 0) = Some ms"
    by (simp_all add: empty_job_def sample_env_def job_metrics_def record_payload_def to_u64_def)
  show ?thesis
    using sel iter ent idle
    by (auto simp: run poll_executor_def poll_initializing_def first_step_def poll_finalizing_def finalize_def)
qed

theorem resolved_futures_agree_witness:
  "\<exists>sys. job_acts sample_shared empty_job [Resolve Earliest, Resolve Earliest, PollJob 1, PollCopy 1 2, PollCopy 0 3]
       (job_system_new sample_shared empty_job 12 0 ()) = Some sys \<and>
     set (js_results sys) = {Inr 0} \<and> length (js_results sys) = 2"
proof -
  let ?as = "[Resolve Earliest, Resolve Earliest, PollJob 1, PollCopy 1 2, PollCopy 0 3]"
  obtain ex where ex: "poll_executor empty_job (executor_run empty_job ()) = PollReady (Inr 0) ex"
    using empty_job_poll by blast
  have gas: "log_payload_job_result empty_job now ef (Inr 0) =
      Some (ReportSuccess (ef_payload_id ef) (now - ef_started_at ef) (env_payload empty_job 0) 0)"
    for now and ef :: "(nat, unit) executor_future"
    by (simp add: log_payload_job_result_def empty_job_def sample_env_def)
  have "\<exists>sys. job_acts sample_shared empty_job ?as (job_system_new sample_shared empty_job 12 0 ()) = Some sys \<and>
      js_results sys = [Inr 0, Inr 0]"
    using ex gas
    by (simp add: job_acts_def job_system_new_def payload_job_new_def executor_future_new_def sample_shared_def
        resolve_kind_def ef_clone_def poll_job_def ef_poll_def)
  then obtain sys where sys: "job_acts sample_shared empty_job ?as (job_system_new sample_shared empty_job 12 0 ()) = Some sys"
      "js_results sys = [Inr 0, Inr 0]" by blast
  have "set (js_results sys) = {Inr 0}"
    using resolved_futures_agree [OF sample_shared_laws empty_job_wf _ sys(1), of "Inr 0"] sys(2) by simp
  with sys show ?thesis by auto
qed

end
