(* ===== verification/Cached_State.thy ===== *)
theory Cached_State
  imports Block_Context "HOL-Library.AList"
begin

section \<open>Cached state\<close>

text \<open>
  \<open>crates/core/src/payload/ext/cached_state.rs\<close>: a state provider behind a shared cache of
  accounts, storage slots and bytecodes, and the insertion of a block's state changes into the
  cache. The concurrent maps are association lists; the code never depends on their order. A
  read returns its result and the cache afterwards.

  Forwarded without the cache and not modelled: state roots, proofs, witnesses and hashed post
  states, which are methods of the provider itself.
\<close>

subsection \<open>The cache\<close>

record execution_cache =
  ec_code :: "(b256 \<times> bytes option) list"
  ec_storage :: "(address \<times> (u256 \<times> u256 option) list) list"
  ec_account :: "(address \<times> account_info option) list"

datatype slot_status = NotCached | Empty | Value u256

definition default_cache :: execution_cache where
  "default_cache = \<lparr>ec_code = [], ec_storage = [], ec_account = []\<rparr>"

definition account_cache_get_storage :: "(u256 \<times> u256 option) list \<Rightarrow> u256 \<Rightarrow> slot_status" where
  "account_cache_get_storage slots key =
     (case map_of slots key of None \<Rightarrow> NotCached | Some None \<Rightarrow> Empty | Some (Some v) \<Rightarrow> Value v)"

definition get_storage :: "execution_cache \<Rightarrow> address \<Rightarrow> u256 \<Rightarrow> slot_status" where
  "get_storage c a key =
     (case map_of (ec_storage c) a of
        None \<Rightarrow> NotCached
      | Some account_cache \<Rightarrow> account_cache_get_storage account_cache key)"

definition insert_storage_bulk ::
    "address \<Rightarrow> (u256 \<times> u256 option) list \<Rightarrow> execution_cache \<Rightarrow> execution_cache" where
  "insert_storage_bulk a entries c =
     (let account_cache = (case map_of (ec_storage c) a of Some slots \<Rightarrow> slots | None \<Rightarrow> []);
          account_cache = fold (\<lambda>(key, v). AList.update key v) entries account_cache
      in c\<lparr>ec_storage := AList.update a account_cache (ec_storage c)\<rparr>)"

definition insert_storage :: "address \<Rightarrow> u256 \<Rightarrow> u256 option \<Rightarrow> execution_cache \<Rightarrow> execution_cache" where
  "insert_storage a key v c = insert_storage_bulk a [(key, v)] c"

definition total_storage_slots :: "execution_cache \<Rightarrow> nat" where
  "total_storage_slots c = sum_list (map (\<lambda>(a, slots). length slots) (ec_storage c))"

text \<open>reth's \<open>Account\<close> has no code, only its hash.\<close>

definition account_from :: "account_info \<Rightarrow> account_info" where
  "account_from i = i\<lparr>ai_code := None\<rparr>"

text \<open>
  \<open>insert_state\<close>. The loop over the accounts stops at the first inconsistent one; what was
  inserted until then stays.
\<close>

fun insert_accounts ::
    "(address \<times> bundle_account) list \<Rightarrow> execution_cache \<Rightarrow> execution_cache \<times> (unit + unit)" where
  "insert_accounts [] c = (c, Inr ())"
| "insert_accounts ((a, acc) # rest) c =
     (if ba_not_modified acc then insert_accounts rest c
      else if ba_was_destroyed acc then
        insert_accounts rest
          (c\<lparr>ec_account := AList.delete a (ec_account c), ec_storage := AList.delete a (ec_storage c)\<rparr>)
      else
        (case ba_info acc of
           None \<Rightarrow> (c, Inl ())
         | Some info \<Rightarrow>
             let c = insert_storage_bulk a
                       (map (\<lambda>(key, slot). (key, Some (present_value slot))) (ba_storage acc)) c
             in insert_accounts rest
                  (c\<lparr>ec_account := AList.update a (Some (account_from info)) (ec_account c)\<rparr>)))"

definition insert_state :: "bundle_state \<Rightarrow> execution_cache \<Rightarrow> execution_cache \<times> (unit + unit)" where
  "insert_state s c =
     (let c = c\<lparr>ec_code := fold (\<lambda>(h, code). AList.update h (Some code)) (bs_contracts s) (ec_code c)\<rparr>
      in insert_accounts (bs_state s) c)"

subsection \<open>Reading through the cache\<close>

definition cached_basic_account ::
    "state_provider \<Rightarrow> address \<Rightarrow> execution_cache \<Rightarrow>
     (provider_error + account_info option) \<times> execution_cache" where
  "cached_basic_account sp a c =
     (case map_of (ec_account c) a of
        Some res \<Rightarrow> (Inr res, c)
      | None \<Rightarrow>
          (case basic_account sp a of
             Inl e \<Rightarrow> (Inl e, c)
           | Inr res \<Rightarrow> (Inr res, c\<lparr>ec_account := AList.update a res (ec_account c)\<rparr>)))"

definition cached_storage ::
    "state_provider \<Rightarrow> address \<Rightarrow> u256 \<Rightarrow> execution_cache \<Rightarrow>
     (provider_error + u256 option) \<times> execution_cache" where
  "cached_storage sp a key c =
     (case get_storage c a key of
        NotCached \<Rightarrow>
          (case sp_storage sp a key of
             Inl e \<Rightarrow> (Inl e, c)
           | Inr res \<Rightarrow> (Inr res, insert_storage a key res c))
      | Empty \<Rightarrow> (Inr None, c)
      | Value v \<Rightarrow> (Inr (Some v), c))"

definition cached_bytecode_by_hash ::
    "state_provider \<Rightarrow> b256 \<Rightarrow> execution_cache \<Rightarrow> (provider_error + bytes option) \<times> execution_cache" where
  "cached_bytecode_by_hash sp h c =
     (case map_of (ec_code c) h of
        Some res \<Rightarrow> (Inr res, c)
      | None \<Rightarrow>
          (case bytecode_by_hash sp h of
             Inl e \<Rightarrow> (Inl e, c)
           | Inr res \<Rightarrow> (Inr res, c\<lparr>ec_code := AList.update h res (ec_code c)\<rparr>)))"

definition cached_block_hash ::
    "state_provider \<Rightarrow> u64 \<Rightarrow> execution_cache \<Rightarrow> (provider_error + b256 option) \<times> execution_cache" where
  "cached_block_hash sp n c = (sp_block_hash sp n, c)"

subsection \<open>Agreement of a cache with a state\<close>

text \<open>
  A slot that holds zero may be cached as \<open>Some 0\<close> or as \<open>None\<close>; every reader takes the
  default, so slots are compared by their value.
\<close>

definition slot_value :: "u256 option \<Rightarrow> u256" where
  "slot_value v = (case v of Some x \<Rightarrow> x | None \<Rightarrow> 0)"

definition account_agrees :: "execution_cache \<Rightarrow> state_provider \<Rightarrow> address \<Rightarrow> bool" where
  "account_agrees c sp a \<longleftrightarrow>
     (\<forall>res. map_of (ec_account c) a = Some res \<longrightarrow> basic_account sp a = Inr res) \<and>
     (\<forall>slots key v. map_of (ec_storage c) a = Some slots \<longrightarrow> map_of slots key = Some v \<longrightarrow>
        map_ok slot_value (sp_storage sp a key) = Inr (slot_value v))"

definition code_agrees :: "execution_cache \<Rightarrow> state_provider \<Rightarrow> b256 \<Rightarrow> bool" where
  "code_agrees c sp h \<longleftrightarrow> (\<forall>res. map_of (ec_code c) h = Some res \<longrightarrow> bytecode_by_hash sp h = Inr res)"

definition cache_agrees :: "execution_cache \<Rightarrow> state_provider \<Rightarrow> bool" where
  "cache_agrees c sp \<longleftrightarrow> (\<forall>a. account_agrees c sp a) \<and> (\<forall>h. code_agrees c sp h)"

lemma default_cache_agrees: "cache_agrees default_cache sp"
  by (simp add: cache_agrees_def account_agrees_def code_agrees_def default_cache_def)

subsection \<open>A reader with a memory\<close>

text \<open>
  The contract of a memoized reader: in a good state a read gives what the specification says
  and leaves a good state. Then so does every sequence of reads.
\<close>

locale memoized_reader =
  fixes read :: "'q \<Rightarrow> 's \<Rightarrow> 'v \<times> 's"
    and answer :: "'q \<Rightarrow> 'v"
    and good :: "'s \<Rightarrow> bool"
  assumes read_answer: "good s \<Longrightarrow> fst (read q s) = answer q"
    and read_good: "good s \<Longrightarrow> good (snd (read q s))"
begin

fun read_list :: "'q list \<Rightarrow> 's \<Rightarrow> 'v list \<times> 's" where
  "read_list [] s = ([], s)"
| "read_list (q # qs) s = (let (v, s') = read q s; (vs, s'') = read_list qs s' in (v # vs, s''))"

lemma read_list_answers:
  "good s \<Longrightarrow> fst (read_list qs s) = map answer qs \<and> good (snd (read_list qs s))"
proof (induction qs arbitrary: s)
  case (Cons q qs)
  obtain v s' where "read q s = (v, s')" by fastforce
  with read_answer [OF Cons.prems, of q] read_good [OF Cons.prems, of q] Cons.IH [of s']
  show ?case by (auto split: prod.splits)
qed simp

end

datatype read_request = ReadAccount address | ReadStorage address u256 | ReadCode b256 | ReadBlockHash u64

datatype read_response =
  AccountIs "account_info option" | SlotIs u256 | CodeIs "bytes option" | BlockHashIs "b256 option"

fun cached_read ::
    "state_provider \<Rightarrow> read_request \<Rightarrow> execution_cache \<Rightarrow> (provider_error + read_response) \<times> execution_cache" where
  "cached_read sp (ReadAccount a) c = map_prod (map_ok AccountIs) id (cached_basic_account sp a c)"
| "cached_read sp (ReadStorage a key) c =
     map_prod (map_ok (\<lambda>v. SlotIs (slot_value v))) id (cached_storage sp a key c)"
| "cached_read sp (ReadCode h) c = map_prod (map_ok CodeIs) id (cached_bytecode_by_hash sp h c)"
| "cached_read sp (ReadBlockHash n) c = map_prod (map_ok BlockHashIs) id (cached_block_hash sp n c)"

fun direct_read :: "state_provider \<Rightarrow> read_request \<Rightarrow> provider_error + read_response" where
  "direct_read sp (ReadAccount a) = map_ok AccountIs (basic_account sp a)"
| "direct_read sp (ReadStorage a key) = map_ok (\<lambda>v. SlotIs (slot_value v)) (sp_storage sp a key)"
| "direct_read sp (ReadCode h) = map_ok CodeIs (bytecode_by_hash sp h)"
| "direct_read sp (ReadBlockHash n) = map_ok BlockHashIs (sp_block_hash sp n)"

lemma map_of_update: "map_of (AList.update k v m) = (map_of m)(k \<mapsto> v)"
  by (rule AList.update_conv')

lemma map_of_fold_update:
  "map_of (fold (\<lambda>(key, v). AList.update key v) entries m) = map_of m ++ map_of (rev entries)"
  by (induction entries arbitrary: m) (auto simp: map_of_update)

lemma cached_basic_account_agrees:
  assumes "cache_agrees c sp"
  shows "fst (cached_basic_account sp a c) = basic_account sp a"
    "cache_agrees (snd (cached_basic_account sp a c)) sp"
  using assms
  by (auto simp: cached_basic_account_def cache_agrees_def account_agrees_def code_agrees_def map_of_update
      split: option.splits sum.splits)

lemma cached_bytecode_agrees:
  assumes "cache_agrees c sp"
  shows "fst (cached_bytecode_by_hash sp h c) = bytecode_by_hash sp h"
    "cache_agrees (snd (cached_bytecode_by_hash sp h c)) sp"
  using assms
  by (auto simp: cached_bytecode_by_hash_def cache_agrees_def account_agrees_def code_agrees_def map_of_update
      split: option.splits sum.splits)

lemma cached_storage_agrees:
  assumes "cache_agrees c sp"
  shows "map_ok slot_value (fst (cached_storage sp a key c)) = map_ok slot_value (sp_storage sp a key)"
    "cache_agrees (snd (cached_storage sp a key c)) sp"
proof -
  have ag: "map_ok slot_value (sp_storage sp a' key') = Inr (slot_value v)"
    if "map_of (ec_storage c) a' = Some slots" "map_of slots key' = Some v" for a' key' slots v
    using assms that by (auto simp: cache_agrees_def account_agrees_def)
  show "map_ok slot_value (fst (cached_storage sp a key c)) = map_ok slot_value (sp_storage sp a key)"
    using ag by (auto simp: cached_storage_def get_storage_def account_cache_get_storage_def
        split: option.splits sum.splits)
  show "cache_agrees (snd (cached_storage sp a key c)) sp"
  proof (cases "get_storage c a key = NotCached \<and> (\<exists>res. sp_storage sp a key = Inr res)")
    case True
    then obtain res where res: "sp_storage sp a key = Inr res" by blast
    let ?c = "insert_storage a key res c"
    have "map_ok slot_value (sp_storage sp a' key') = Inr (slot_value v)"
      if "map_of (ec_storage ?c) a' = Some slots" "map_of slots key' = Some v" for a' key' slots v
      using that ag res
      by (auto simp: insert_storage_def insert_storage_bulk_def map_of_update split: if_splits option.splits)
    with assms True res show ?thesis
      by (auto simp: cached_storage_def cache_agrees_def account_agrees_def code_agrees_def
          insert_storage_def insert_storage_bulk_def)
  next
    case False
    with assms show ?thesis
      by (auto simp: cached_storage_def split: slot_status.splits sum.splits)
  qed
qed

interpretation cached: memoized_reader "cached_read sp" "direct_read sp" "\<lambda>c. cache_agrees c sp" for sp
proof
  fix c q assume ok: "cache_agrees c sp"
  show "fst (cached_read sp q c) = direct_read sp q"
  proof (cases q)
    case (ReadStorage a key)
    have "map_ok (\<lambda>v. SlotIs (slot_value v)) r = map_ok SlotIs (map_ok slot_value r)"
      for r :: "provider_error + u256 option" by (cases r) simp_all
    with ReadStorage cached_storage_agrees(1) [OF ok, of a key] show ?thesis by simp
  qed (simp_all add: cached_basic_account_agrees [OF ok] cached_bytecode_agrees [OF ok] cached_block_hash_def)
  show "cache_agrees (snd (cached_read sp q c)) sp"
    by (cases q) (simp_all add: cached_basic_account_agrees [OF ok] cached_bytecode_agrees [OF ok]
        cached_storage_agrees [OF ok] cached_block_hash_def ok)
qed

subsection \<open>Inserting the changes of a block\<close>

text \<open>
  What a commit of the state changes \<open>s\<close> makes of the state \<open>sp\<close>, as far as the code relies
  on it: changed bytecodes, accounts and slots have their new value, everything else stays.
  Nothing is said of destroyed accounts.
\<close>

definition account_commits ::
    "bundle_state \<Rightarrow> state_provider \<Rightarrow> state_provider \<Rightarrow> address \<Rightarrow> bool" where
  "account_commits s sp sp' a \<longleftrightarrow>
     (case bs_account s a of
        Some acc \<Rightarrow>
          if ba_not_modified acc then
            basic_account sp' a = basic_account sp a \<and> sp_storage sp' a = sp_storage sp a
          else if ba_was_destroyed acc then True
          else (\<forall>info. ba_info acc = Some info \<longrightarrow>
             basic_account sp' a = Inr (Some (account_from info)) \<and>
             (\<forall>key. case map_of (ba_storage acc) key of
                Some slot \<Rightarrow> map_ok slot_value (sp_storage sp' a key) = Inr (present_value slot)
              | None \<Rightarrow> sp_storage sp' a key = sp_storage sp a key))
      | None \<Rightarrow> basic_account sp' a = basic_account sp a \<and> sp_storage sp' a = sp_storage sp a)"

definition commits :: "bundle_state \<Rightarrow> state_provider \<Rightarrow> state_provider \<Rightarrow> bool" where
  "commits s sp sp' \<longleftrightarrow>
     (\<forall>h. bytecode_by_hash sp' h =
        (case bs_bytecode s h of Some code \<Rightarrow> Inr (Some code) | None \<Rightarrow> bytecode_by_hash sp h)) \<and>
     (\<forall>a. account_commits s sp sp' a)"

text \<open>The maps of a \<open>BundleState\<close> have distinct keys.\<close>

definition bundle_state_wf :: "bundle_state \<Rightarrow> bool" where
  "bundle_state_wf s \<longleftrightarrow>
     distinct (map fst (bs_state s)) \<and> distinct (map fst (bs_contracts s)) \<and>
     (\<forall>(a, acc) \<in> set (bs_state s). distinct (map fst (ba_storage acc)))"

lemma insert_bulk_agrees:
  assumes "account_agrees c sp a" "basic_account sp' a = Inr (Some (account_from info))"
    and "distinct (map fst changes)"
    and slots: "\<And>key. case map_of changes key of
        Some slot \<Rightarrow> map_ok slot_value (sp_storage sp' a key) = Inr (present_value slot)
      | None \<Rightarrow> sp_storage sp' a key = sp_storage sp a key"
    and c': "c' = insert_storage_bulk a (map (\<lambda>(key, slot). (key, Some (present_value slot))) changes) c"
  shows "account_agrees (c'\<lparr>ec_account := AList.update a (Some (account_from info)) (ec_account c')\<rparr>) sp' a"
proof -
  let ?entries = "map (\<lambda>(key, slot). (key, Some (present_value slot))) changes"
  have "distinct (map fst ?entries)" using assms(3) by (simp add: comp_def case_prod_unfold)
  then have "map_of (rev ?entries) = map_of ?entries" 
    by (subst map_of_inject_set) (simp_all flip: rev_map)
  moreover have "map_of ?entries key = map_option (\<lambda>slot. Some (present_value slot)) (map_of changes key)" for key
    by (simp add: map_of_map)
  ultimately have look: "map_of (fold (\<lambda>(key, v). AList.update key v) ?entries m) key =
      (case map_of changes key of Some slot \<Rightarrow> Some (Some (present_value slot)) | None \<Rightarrow> map_of m key)" for m key
    by (simp add: map_of_fold_update map_add_def split: option.split)
  have "map_ok slot_value (sp_storage sp' a key) = Inr (slot_value v)"
    if "map_of (ec_storage c') a = Some cached" "map_of cached key = Some v" for cached key v
  proof -
    let ?old = "case map_of (ec_storage c) a of Some m \<Rightarrow> m | None \<Rightarrow> []"
    from that(1) have "cached = fold (\<lambda>(key, v). AList.update key v) ?entries ?old"
      by (simp add: c' insert_storage_bulk_def Let_def map_of_update)
    with that(2) have new: "(case map_of changes key of
        Some slot \<Rightarrow> Some (Some (present_value slot)) | None \<Rightarrow> map_of ?old key) = Some v"
      by (simp only: look)
    show ?thesis
    proof (cases "map_of changes key")
      case None
      with new obtain m where "map_of (ec_storage c) a = Some m" "map_of m key = Some v"
        by (auto split: option.splits)
      with None slots [of key] assms(1) show ?thesis by (simp add: account_agrees_def)
    next
      case (Some slot)
      with new slots [of key] show ?thesis by (auto simp: slot_value_def)
    qed
  qed
  with assms(2) show ?thesis by (simp add: account_agrees_def map_of_update)
qed

text \<open>
  During the loop, the accounts that are still to come agree with the state before the block
  and all others with the state after it.
\<close>

definition loop_agrees ::
    "execution_cache \<Rightarrow> state_provider \<Rightarrow> state_provider \<Rightarrow> address set \<Rightarrow> bool" where
  "loop_agrees c sp sp' todo \<longleftrightarrow> (\<forall>a. account_agrees c (if a \<in> todo then sp else sp') a)"

lemma loop_agrees_at: "loop_agrees c sp sp' todo \<Longrightarrow> account_agrees c (if a \<in> todo then sp else sp') a"
  by (simp only: loop_agrees_def)

lemma account_agrees_local:
  assumes "map_of (ec_account c') a = map_of (ec_account c) a" "map_of (ec_storage c') a = map_of (ec_storage c) a"
  shows "account_agrees c' sp a = account_agrees c sp a"
  using assms by (simp add: account_agrees_def)

lemma insert_bulk_other:
  "b \<noteq> a \<Longrightarrow> map_of (ec_storage (insert_storage_bulk a es c)) b = map_of (ec_storage c) b"
  "ec_account (insert_storage_bulk a es c) = ec_account c"
  "ec_code (insert_storage_bulk a es c) = ec_code c"
  by (simp_all add: insert_storage_bulk_def Let_def map_of_update)

lemma loop_step:
  assumes "loop_agrees c sp sp' (insert a todo)" "account_agrees c' sp' a" "a \<notin> todo"
    and "\<And>b. b \<noteq> a \<Longrightarrow> map_of (ec_account c') b = map_of (ec_account c) b \<and>
      map_of (ec_storage c') b = map_of (ec_storage c) b"
  shows "loop_agrees c' sp sp' todo"
  unfolding loop_agrees_def
proof
  fix b
  show "account_agrees c' (if b \<in> todo then sp else sp') b"
    using assms account_agrees_local [of c' b c] loop_agrees_at [OF assms(1), of b]
    by (cases "b = a") auto
qed

lemma insert_accounts_agrees:
  assumes "insert_accounts accs c = (c', Inr ())" "loop_agrees c sp sp' (fst ` set accs)"
    and "distinct (map fst accs)" "\<forall>(a, acc) \<in> set accs. distinct (map fst (ba_storage acc))"
    and "\<And>a acc. (a, acc) \<in> set accs \<Longrightarrow> bs_account s a = Some acc \<and> account_commits s sp sp' a"
  shows "(\<forall>a. account_agrees c' sp' a) \<and> ec_code c' = ec_code c"
  using assms
proof (induction accs arbitrary: c)
  case Nil
  then show ?case by (simp add: loop_agrees_def)
next
  case (Cons p accs)
  obtain a acc where p: "p = (a, acc)" by (cases p)
  have new: "a \<notin> fst ` set accs" using Cons.prems(3) by (simp add: p)
  have ag: "account_agrees c sp a" using loop_agrees_at [OF Cons.prems(2), of a] by (simp add: p)
  have com: "account_commits s sp sp' a" "bs_account s a = Some acc" using Cons.prems(5) [of a acc] by (simp_all add: p)
  have IH: "(\<forall>a. account_agrees c' sp' a) \<and> ec_code c' = ec_code d"
    if "insert_accounts accs d = (c', Inr ())" "loop_agrees d sp sp' (fst ` set accs)" for d
  proof (rule Cons.IH [OF that])
    show "distinct (map fst accs)" using Cons.prems(3) by simp
    show "\<forall>(a, acc) \<in> set accs. distinct (map fst (ba_storage acc))" using Cons.prems(4) by simp
  qed (rule Cons.prems(5), simp)
  note step = loop_step [of c sp sp' a "fst ` set accs", OF _ _ new]
  have la: "loop_agrees c sp sp' (insert a (fst ` set accs))" using Cons.prems(2) by (simp add: p)
  show ?case
  proof (cases "ba_not_modified acc")
    case True
    with com ag have "account_agrees c sp' a" by (simp add: account_commits_def account_agrees_def)
    with step [OF la] have "loop_agrees c sp sp' (fst ` set accs)" by simp
    with IH [of c] Cons.prems(1) True show ?thesis by (simp add: p)
  next
    case modified: False
    show ?thesis
    proof (cases "ba_was_destroyed acc")
      case True
      let ?c = "c\<lparr>ec_account := AList.delete a (ec_account c), ec_storage := AList.delete a (ec_storage c)\<rparr>"
      have "account_agrees ?c sp' a" by (simp add: account_agrees_def delete_conv')
      with step [OF la] have "loop_agrees ?c sp sp' (fst ` set accs)" by (simp add: delete_conv')
      with IH [of ?c] Cons.prems(1) True modified show ?thesis by (simp add: p)
    next
      case False
      then obtain info where info: "ba_info acc = Some info"
        using Cons.prems(1) modified by (cases "ba_info acc") (auto simp: p)
      let ?d = "insert_storage_bulk a (map (\<lambda>(key, slot). (key, Some (present_value slot))) (ba_storage acc)) c"
      let ?c = "?d\<lparr>ec_account := AList.update a (Some (account_from info)) (ec_account ?d)\<rparr>"
      have "account_agrees ?c sp' a"
        using com modified False info Cons.prems(4)
        by (intro insert_bulk_agrees [OF ag]) (auto simp: account_commits_def p)
      with step [OF la] have "loop_agrees ?c sp sp' (fst ` set accs)"
        by (simp add: map_of_update insert_bulk_other)
      with IH [of ?c] Cons.prems(1) modified False info show ?thesis
        by (simp add: p Let_def insert_bulk_other)
    qed
  qed
qed

text \<open>The contracts of a bundle state, inserted one after the other.\<close>

lemma inserted_code:
  assumes "bundle_state_wf s"
  shows "map_of (fold (\<lambda>(h, code). AList.update h (Some code)) (bs_contracts s) (ec_code c)) h =
    (case bs_bytecode s h of Some code \<Rightarrow> Some (Some code) | None \<Rightarrow> map_of (ec_code c) h)"
proof -
  let ?cs = "map (\<lambda>(h, code). (h, Some code)) (bs_contracts s)"
  have fold_eq: "fold (\<lambda>(h, code). AList.update h (Some code)) cs m =
      fold (\<lambda>(key, v). AList.update key v) (map (\<lambda>(h, code). (h, Some code)) cs) m" for cs m
    by (induction cs arbitrary: m) auto
  have "map_of (rev ?cs) = map_of ?cs"
    using assms
    by (subst map_of_inject_set)
      (simp_all add: bundle_state_wf_def comp_def case_prod_unfold flip: rev_map)
  then show ?thesis
    by (simp add: fold_eq map_of_fold_update map_add_def map_of_map bs_bytecode_def split: option.split)
qed

text \<open>The whole insertion, with its error.\<close>

lemma insert_state_agrees:
  assumes "cache_agrees c sp" "commits s sp sp'" "bundle_state_wf s" "insert_state s c = (c', r)"
  shows "(r = Inr () \<longrightarrow> cache_agrees c' sp') \<and>
    (r = Inl () \<longleftrightarrow> (\<exists>(a, acc) \<in> set (bs_state s).
       \<not> ba_not_modified acc \<and> \<not> ba_was_destroyed acc \<and> ba_info acc = None))"
proof
  let ?c = "c\<lparr>ec_code := fold (\<lambda>(h, code). AList.update h (Some code)) (bs_contracts s) (ec_code c)\<rparr>"
  have ins: "insert_accounts (bs_state s) ?c = (c', r)" using assms(4) by (simp add: insert_state_def)
  show "r = Inr () \<longrightarrow> cache_agrees c' sp'"
  proof
    assume "r = Inr ()"
    have commits: "account_commits s sp sp' a" for a using assms(2) by (simp add: commits_def)
    have "account_agrees ?c (if a \<in> fst ` set (bs_state s) then sp else sp') a" for a
    proof -
      have old: "account_agrees ?c sp a"
        using assms(1) account_agrees_local [of ?c a c sp] by (simp add: cache_agrees_def)
      show ?thesis
      proof (cases "a \<in> fst ` set (bs_state s)")
        case False
        then have "bs_account s a = None" by (simp add: bs_account_def map_of_eq_None_iff)
        with old commits [of a] False show ?thesis by (simp add: account_agrees_def account_commits_def)
      qed (use old in simp)
    qed
    then have loop: "loop_agrees ?c sp sp' (fst ` set (bs_state s))" by (simp add: loop_agrees_def)
    have accounts: "(\<forall>a. account_agrees c' sp' a) \<and> ec_code c' = ec_code ?c"
      using insert_accounts_agrees [OF ins [unfolded \<open>r = _\<close>] loop, of s] assms(3) commits
      by (simp add: bundle_state_wf_def bs_account_def)
    have "code_agrees c' sp' h" for h
      using accounts assms(1,2) inserted_code [OF assms(3), of c h]
      by (auto simp: code_agrees_def cache_agrees_def commits_def split: option.splits)
    with accounts show "cache_agrees c' sp'" by (simp add: cache_agrees_def)
  qed
  have "snd (insert_accounts accs d) = Inl () \<longleftrightarrow> (\<exists>(a, acc) \<in> set accs.
       \<not> ba_not_modified acc \<and> \<not> ba_was_destroyed acc \<and> ba_info acc = None)" for accs d
    by (induction accs d rule: insert_accounts.induct) (auto simp: Let_def split: option.splits)
  from this [of "bs_state s" ?c] ins
  show "r = Inl () \<longleftrightarrow> (\<exists>(a, acc) \<in> set (bs_state s).
       \<not> ba_not_modified acc \<and> \<not> ba_was_destroyed acc \<and> ba_info acc = None)"
    by simp
qed

subsection \<open>Properties\<close>

text \<open>
  Claim C31: the cache is transparent. Starting from a cache that agrees with the state, every
  sequence of reads through the cache gives exactly the answers of the provider itself, errors
  included (slots compared by value), and the cache still agrees with the state afterwards; the
  empty cache agrees with every state.
\<close>

theorem cached_reads_transparent:
  assumes "cache_agrees c sp"
  shows "fst (cached.read_list sp qs c) = map (direct_read sp) qs \<and>
    cache_agrees (snd (cached.read_list sp qs c)) sp \<and> cache_agrees default_cache sp"
  using cached.read_list_answers [OF assms] default_cache_agrees by simp

theorem cached_reads_transparent_witness:
  "fst (cached.read_list sample_provider [ReadAccount 7, ReadStorage 7 1, ReadStorage 7 1] default_cache) =
     [Inr (AccountIs None), Inr (SlotIs 0), Inr (SlotIs 0)]"
  using cached_reads_transparent [OF default_cache_agrees [of sample_provider],
      of "[ReadAccount 7, ReadStorage 7 1, ReadStorage 7 1]"]
  by (simp add: sample_provider_def slot_value_def)

text \<open>
  Inserting the state changes of a block moves the cache to the state after the
  block. If the cache agreed with the state before and the insertion succeeds, it agrees with
  every state that results from committing the changes; it fails exactly when some modified
  account that was not destroyed has no information.
\<close>

theorem insert_state_moves_cache:
  assumes "cache_agrees c sp" "commits s sp sp'" "bundle_state_wf s" "insert_state s c = (c', r)"
  shows "(r = Inr () \<longrightarrow> cache_agrees c' sp') \<and>
    (r = Inl () \<longleftrightarrow> (\<exists>(a, acc) \<in> set (bs_state s).
       \<not> ba_not_modified acc \<and> \<not> ba_was_destroyed acc \<and> ba_info acc = None))"
  by (rule insert_state_agrees [OF assms])

theorem insert_state_moves_cache_witness:
  "\<exists>c'. insert_state \<lparr>bs_state = [(7, sample_account 1)], bs_contracts = [(3, [1, 2])]\<rparr> default_cache = (c', Inr ()) \<and>
     cache_agrees c' (sample_provider\<lparr>
       basic_account := (\<lambda>a. if a = 7 then Inr (map_option account_from (ba_info (sample_account 1))) else Inr None),
       sp_storage := (\<lambda>a k. if a = 7 \<and> k = 1 then Inr (Some 9) else Inr None),
       bytecode_by_hash := (\<lambda>h. if h = 3 then Inr (Some [1, 2]) else Inr None)\<rparr>)"
proof -
  let ?s = "\<lparr>bs_state = [(7, sample_account 1)], bs_contracts = [(3, [1, 2])]\<rparr>"
  let ?sp = "sample_provider\<lparr>
       basic_account := (\<lambda>a. if a = 7 then Inr (map_option account_from (ba_info (sample_account 1))) else Inr None),
       sp_storage := (\<lambda>a k. if a = 7 \<and> k = 1 then Inr (Some 9) else Inr None),
       bytecode_by_hash := (\<lambda>h. if h = 3 then Inr (Some [1, 2]) else Inr None)\<rparr>"
  have "commits ?s sample_provider ?sp"
    by (auto simp: commits_def account_commits_def bs_account_def bs_bytecode_def sample_account_def
        sample_provider_def slot_value_def fun_eq_iff)
  moreover have "bundle_state_wf ?s" by (simp add: bundle_state_wf_def sample_account_def)
  moreover obtain c' where c': "insert_state ?s default_cache = (c', Inr ())"
    by (simp add: insert_state_def sample_account_def Let_def)
  ultimately show ?thesis
    using insert_state_moves_cache [OF default_cache_agrees, of ?s sample_provider ?sp c' "Inr ()"] by blast
qed

end
