(* ===== verification/Service.thy ===== *)
theory Service
  imports Jobs Cached_State Step_Instances
begin

section \<open>The payload builder service\<close>

text \<open>
  \<open>crates/pipeline/src/pipelines/service.rs\<close>: the generator of payload jobs, which keeps the state
  changes of the latest block as a cache for the jobs that build on it. The setup of the steps is
  in Step_Instances.

  reth's provider is a parameter, a record of the two methods the code calls; so are the steps of
  \<open>BlockContext::new\<close> that belong to reth and to the platform. A job gets a clone of the generator's
  \<open>ExecutionCache\<close>. Its tables are copies, but the storage tables of the accounts that were in the
  cache are shared, so a job that reads a slot of such an account extends the cache of the
  generator: the event \<open>JobRead\<close>.
\<close>

subsection \<open>A provider with a cache\<close>

text \<open>
  \<open>CachedStateProvider::new_with_caches\<close>, as the provider the block context reads. Reading extends
  the cache, but no read changes the answer of another, so the answers are those of the cache at
  the beginning.
\<close>

definition cached_state_provider :: "state_provider \<Rightarrow> execution_cache \<Rightarrow> state_provider" where
  "cached_state_provider sp c =
     \<lparr>basic_account = (\<lambda>a. fst (cached_basic_account sp a c)),
      account_balance = (\<lambda>a. map_ok (map_option ai_balance) (fst (cached_basic_account sp a c))),
      sp_storage = (\<lambda>a key. fst (cached_storage sp a key c)),
      bytecode_by_hash = (\<lambda>h. fst (cached_bytecode_by_hash sp h c)),
      sp_block_hash = (\<lambda>n. fst (cached_block_hash sp n c))\<rparr>"


lemma get_storage_insert:
  "get_storage (insert_storage a key v c) a' key' =
     (if a' = a \<and> key' = key then (case v of None \<Rightarrow> Empty | Some x \<Rightarrow> Value x) else get_storage c a' key')"
  by (auto simp: get_storage_def insert_storage_def insert_storage_bulk_def account_cache_get_storage_def
      map_of_update split: option.splits)

lemma insert_storage_other [simp]:
  "ec_account (insert_storage a key v c) = ec_account c" "ec_code (insert_storage a key v c) = ec_code c"
  by (simp_all add: insert_storage_def insert_storage_bulk_def Let_def)

lemma get_storage_update [simp]:
  "get_storage (c\<lparr>ec_account := m\<rparr>) = get_storage c" "get_storage (c\<lparr>ec_code := n\<rparr>) = get_storage c"
  by (simp_all add: get_storage_def fun_eq_iff)

lemmas cached_read_defs =
  cached_basic_account_def cached_storage_def cached_bytecode_by_hash_def cached_block_hash_def map_of_update
  get_storage_insert

lemma cached_read_stable:
  "fst (cached_read sp q' (snd (cached_read sp q c))) = fst (cached_read sp q' c)"
  by (cases q; cases q')
    (auto simp: cached_read_defs split: option.splits sum.splits slot_status.splits)

subsection \<open>The generator\<close>

record service_context =
  sealed_header_by_hash :: "b256 \<Rightarrow> provider_error + header option"
  state_by_block_hash :: "b256 \<Rightarrow> provider_error + state_provider"
  sv_chain_spec :: chainspec
  sv_builder_deadline :: nat

record precached_state =
  pc_block :: b256
  pc_cached :: execution_cache

text \<open>The pipeline stands for what the executor depends on, which it is for every block.\<close>

record ('c, 'w, 'p) job_generator =
  jg_env :: "block_context \<Rightarrow> ('c, 'w, 'p) exec_env"
  jg_service :: service_context
  jg_pre_cached :: "precached_state option"


definition maybe_pre_cached :: "('c, 'w, 'p) job_generator \<Rightarrow> b256 \<Rightarrow> execution_cache option" where
  "maybe_pre_cached g par =
     (case jg_pre_cached g of
        Some cached \<Rightarrow> if pc_block cached = par then Some (pc_cached cached) else None
      | None \<Rightarrow> None)"

text \<open>What \<open>BlockContext::new\<close> takes from the platform and reth's EVM configuration.\<close>

record 'env block_builder =
  next_block_environment_context :: "chainspec \<Rightarrow> header \<Rightarrow> payload_attributes \<Rightarrow> string + 'env"
  next_evm_env :: "header \<Rightarrow> 'env \<Rightarrow> string + evm_env"
  builder_for_next_block :: "header \<Rightarrow> 'env \<Rightarrow> string + (state_provider \<Rightarrow> string + evm_state list)"
  evm_config_for :: "chainspec \<Rightarrow> evm"

definition block_context_cached ::
    "'env block_builder \<Rightarrow> service_context \<Rightarrow> nat \<Rightarrow> header \<Rightarrow> payload_attributes \<Rightarrow> execution_cache option \<Rightarrow>
     block_error + block_context" where
  "block_context_cached bb sv addr par attribs cached =
     (let execution_cached = (case cached of None \<Rightarrow> default_cache | Some c \<Rightarrow> c) in
      block_context_new (next_block_environment_context bb) (next_evm_env bb)
        (\<lambda>h. map_ok (\<lambda>sp. cached_state_provider sp execution_cached) (state_by_block_hash sv h))
        (builder_for_next_block bb) (evm_config_for bb) addr par attribs (sv_chain_spec sv))"

fun block_error_text :: "block_error \<Rightarrow> string" where
  "block_error_text (EvmEnv e) = e"
| "block_error_text (BlockExecution e) = e"
| "block_error_text (Provider e) = e"

definition new_payload_job ::
    "('c, 'w, 'p, 's, 'h) shared_ops \<Rightarrow> 'env block_builder \<Rightarrow> ('c, 'w, 'p) job_generator \<Rightarrow> nat \<Rightarrow> nat \<Rightarrow> 'w \<Rightarrow>
     payload_attributes \<Rightarrow> payload_builder_error + 's \<times> ('p, 'h) payload_job" where
  "new_payload_job ops bb g now addr w attribs =
     (let sv = jg_service g in
      and_then (map_err Internal (sealed_header_by_hash sv (attr_parent attribs))) (\<lambda>found.
      case found of
        None \<Rightarrow> Inl (MissingParentHeader (attr_parent attribs))
      | Some hdr \<Rightarrow>
          and_then (map_err (\<lambda>e. Other (block_error_text e))
            (block_context_cached bb sv addr hdr attribs (maybe_pre_cached g (hdr_hash hdr)))) (\<lambda>block_ctx.
          Inr (payload_job_new ops ((jg_env g block_ctx)\<lparr>env_block := block_ctx\<rparr>)
                 (sv_builder_deadline sv) now w))))"

text \<open>A notification: the state changes of the committed chain and the hash of its tip.\<close>

definition on_new_state :: "bundle_state \<Rightarrow> b256 \<Rightarrow> ('c, 'w, 'p) job_generator \<Rightarrow> ('c, 'w, 'p) job_generator" where
  "on_new_state committed tip g =
     (case insert_state committed default_cache of
        (cached, Inl u) \<Rightarrow> g
      | (cached, Inr u) \<Rightarrow> g\<lparr>jg_pre_cached := Some \<lparr>pc_block = tip, pc_cached = cached\<rparr>\<rparr>)"

subsection \<open>The cache of a generator agrees with the state of its block\<close>

datatype generator_event = NewState bundle_state b256 | JobRead read_request

text \<open>
  A read by a job that was created with the generator's present cache. Only a read of a slot of an
  account that has a storage table there reaches the generator.
\<close>

fun shares_table :: "execution_cache \<Rightarrow> read_request \<Rightarrow> bool" where
  "shares_table c (ReadStorage a key) \<longleftrightarrow> map_of (ec_storage c) a \<noteq> None"
| "shares_table c _ \<longleftrightarrow> False"

definition job_read :: "read_request \<Rightarrow> ('c, 'w, 'p) job_generator \<Rightarrow> ('c, 'w, 'p) job_generator" where
  "job_read q g =
     (case jg_pre_cached g of
        None \<Rightarrow> g
      | Some cached \<Rightarrow>
          (case state_by_block_hash (jg_service g) (pc_block cached) of
             Inl e \<Rightarrow> g
           | Inr sp \<Rightarrow>
               if shares_table (pc_cached cached) q
               then g\<lparr>jg_pre_cached := Some (cached\<lparr>pc_cached := snd (cached_read sp q (pc_cached cached))\<rparr>)\<rparr>
               else g))"

fun handle_event :: "generator_event \<Rightarrow> ('c, 'w, 'p) job_generator \<Rightarrow> ('c, 'w, 'p) job_generator" where
  "handle_event (NewState s tip) g = on_new_state s tip g"
| "handle_event (JobRead q) g = job_read q g"





lemma handle_event_service [simp]: "jg_service (handle_event ev g) = jg_service g"
  by (cases ev) (auto simp: on_new_state_def job_read_def split: prod.splits sum.splits option.splits)






subsection \<open>Properties\<close>


text \<open>The errors of \<open>new_payload_job\<close>, one for each way a job cannot start.\<close>

lemma new_payload_job_errors:
  "sealed_header_by_hash (jg_service g) (attr_parent attribs) = Inl e \<Longrightarrow>
     new_payload_job ops bb g now addr w attribs = Inl (Internal e)"
  "sealed_header_by_hash (jg_service g) (attr_parent attribs) = Inr None \<Longrightarrow>
     new_payload_job ops bb g now addr w attribs = Inl (MissingParentHeader (attr_parent attribs))"
  "sealed_header_by_hash (jg_service g) (attr_parent attribs) = Inr (Some hdr) \<Longrightarrow>
     block_context_cached bb (jg_service g) addr hdr attribs (maybe_pre_cached g (hdr_hash hdr)) = Inl err \<Longrightarrow>
     new_payload_job ops bb g now addr w attribs = Inl (Other (block_error_text err))"
  by (simp_all add: new_payload_job_def Let_def)








end
