(* ===== verification/Events.thy ===== *)
theory Events
  imports Append
begin

section \<open>Events of a pipeline\<close>

text \<open>
  \<open>EventsBus\<close> of \<open>crates/pipeline/src/pipelines/events.rs\<close>, through which steps and the executor
  publish events to subscribers, and its listener in the order pool
  (\<open>crates/pipeline/src/pool/maintain.rs\<close>).

  The broadcast channels of tokio are a parameter: a record of the operations with
  \<open>broadcast_laws\<close>, what their documentation says. A channel \<open>'ch\<close> has the messages sent so far
  and a capacity of at least the one asked for; a receiver \<open>'r\<close> has a position in the messages. A
  receiver that has fallen behind by more than the capacity is told so and goes on with the oldest
  message that is still there. An erased event is its type and its content.
\<close>

subsection \<open>Broadcast channels\<close>

datatype 'm received = Received 'm | Lagged nat | NoMessage

record ('m, 'ch, 'r) broadcast =
  bc_channel :: "nat \<Rightarrow> 'ch"
  bc_send :: "'m \<Rightarrow> 'ch \<Rightarrow> 'ch"
  bc_subscribe :: "'ch \<Rightarrow> 'r"
  bc_recv :: "'r \<Rightarrow> 'ch \<Rightarrow> 'm received \<times> 'r"
  bc_log :: "'ch \<Rightarrow> 'm list"
  bc_capacity :: "'ch \<Rightarrow> nat"
  bc_position :: "'r \<Rightarrow> nat"

definition recv_law :: "('m, 'ch, 'r) broadcast \<Rightarrow> 'r \<Rightarrow> 'ch \<Rightarrow> bool" where
  "recv_law bc r ch \<longleftrightarrow>
     (let i = bc_position bc r; n = length (bc_log bc ch) in
      case bc_recv bc r ch of
        (NoMessage, r') \<Rightarrow> n \<le> i \<and> bc_position bc r' = i
      | (Received m, r') \<Rightarrow>
          i < n \<and> n - i \<le> bc_capacity bc ch \<and> m = bc_log bc ch ! i \<and> bc_position bc r' = Suc i
      | (Lagged k, r') \<Rightarrow>
          bc_capacity bc ch < n - i \<and> k = n - i - bc_capacity bc ch \<and> bc_position bc r' = i + k)"

definition broadcast_laws :: "('m, 'ch, 'r) broadcast \<Rightarrow> bool" where
  "broadcast_laws bc \<longleftrightarrow>
     (\<forall>n. bc_log bc (bc_channel bc n) = [] \<and> n \<le> bc_capacity bc (bc_channel bc n)) \<and>
     (\<forall>m ch. bc_log bc (bc_send bc m ch) = bc_log bc ch @ [m] \<and>
        bc_capacity bc (bc_send bc m ch) = bc_capacity bc ch) \<and>
     (\<forall>ch. bc_position bc (bc_subscribe bc ch) = length (bc_log bc ch)) \<and>
     (\<forall>r ch. recv_law bc r ch)"

subsection \<open>The bus\<close>

type_synonym ('t, 'ch) events_bus = "'t \<rightharpoonup> 'ch"

definition bus_sender ::
    "('t \<times> 'e, 'ch, 'r) broadcast \<Rightarrow> 't \<Rightarrow> ('t, 'ch) events_bus \<Rightarrow> 'ch \<times> ('t, 'ch) events_bus" where
  "bus_sender bc ty bus =
     (case bus ty of
        Some ch \<Rightarrow> (ch, bus)
      | None \<Rightarrow> (let ch = bc_channel bc 100 in (ch, bus(ty \<mapsto> ch))))"

definition publish ::
    "('t \<times> 'e, 'ch, 'r) broadcast \<Rightarrow> 't \<Rightarrow> 'e \<Rightarrow> ('t, 'ch) events_bus \<Rightarrow> ('t, 'ch) events_bus" where
  "publish bc ty e bus = (let (ch, bus) = bus_sender bc ty bus in bus(ty \<mapsto> bc_send bc (ty, e) ch))"

definition subscribe ::
    "('t \<times> 'e, 'ch, 'r) broadcast \<Rightarrow> 't \<Rightarrow> ('t, 'ch) events_bus \<Rightarrow> ('t, 'ch) events_bus \<times> 'r" where
  "subscribe bc ty bus = (let (ch, bus) = bus_sender bc ty bus in (bus, bc_subscribe bc ch))"

text \<open>
  The next item of a subscription: an error and an event of another type are left out by
  \<open>filter_map\<close>, which polls again. \<open>None\<close> is a poll that does not return, \<open>Some (None, _)\<close> that
  nothing is there.
\<close>

partial_function (option) stream_next ::
    "('t \<times> 'e, 'ch, 'r) broadcast \<Rightarrow> 't \<Rightarrow> 'r \<Rightarrow> 'ch \<Rightarrow> ('e option \<times> 'r) option" where
  "stream_next bc ty r ch =
     (case bc_recv bc r ch of
        (NoMessage, r') \<Rightarrow> Some (None, r')
      | (Lagged k, r') \<Rightarrow> stream_next bc ty r' ch
      | (Received m, r') \<Rightarrow> if fst m = ty then Some (Some (snd m), r') else stream_next bc ty r' ch)"

subsection \<open>Bounded queues\<close>

text \<open>
  The contract of a source of items: what is put into it comes out in order, as long as no more
  than \<open>bound\<close> items wait. \<open>item x\<close> are the items that putting \<open>x\<close> adds, and \<open>holds s q\<close> says that
  \<open>q\<close> is waiting in the state \<open>s\<close>. Then a source does what a first-in first-out queue does.
\<close>

datatype 'x source_action = Put 'x | Next

fun run_source ::
    "('x \<Rightarrow> 's \<Rightarrow> 's) \<Rightarrow> ('s \<Rightarrow> ('e option \<times> 's) option) \<Rightarrow> 'x source_action list \<Rightarrow> 's \<Rightarrow> 'e option list option" where
  "run_source put get [] s = Some []"
| "run_source put get (Put x # as) s = run_source put get as (put x s)"
| "run_source put get (Next # as) s =
     (case get s of
        None \<Rightarrow> None
      | Some (i, s') \<Rightarrow> map_option (\<lambda>is. i # is) (run_source put get as s'))"

fun run_queue :: "('x \<Rightarrow> 'e list) \<Rightarrow> 'x source_action list \<Rightarrow> 'e list \<Rightarrow> 'e option list" where
  "run_queue item [] q = []"
| "run_queue item (Put x # as) q = run_queue item as (q @ item x)"
| "run_queue item (Next # as) [] = None # run_queue item as []"
| "run_queue item (Next # as) (e # q) = Some e # run_queue item as q"

fun backlog_within :: "nat \<Rightarrow> ('x \<Rightarrow> 'e list) \<Rightarrow> 'x source_action list \<Rightarrow> 'e list \<Rightarrow> bool" where
  "backlog_within n item [] q \<longleftrightarrow> length q \<le> n"
| "backlog_within n item (Put x # as) q \<longleftrightarrow> length q \<le> n \<and> backlog_within n item as (q @ item x)"
| "backlog_within n item (Next # as) q \<longleftrightarrow> length q \<le> n \<and> backlog_within n item as (tl q)"

locale bounded_queue =
  fixes put :: "'x \<Rightarrow> 's \<Rightarrow> 's"
    and get :: "'s \<Rightarrow> ('e option \<times> 's) option"
    and item :: "'x \<Rightarrow> 'e list"
    and holds :: "'s \<Rightarrow> 'e list \<Rightarrow> bool"
    and bound :: nat
  assumes put_holds: "holds s q \<Longrightarrow> holds (put x s) (q @ item x)"
    and get_holds: "holds s q \<Longrightarrow> length q \<le> bound \<Longrightarrow>
      \<exists>s'. get s = Some (case q of [] \<Rightarrow> None | e # _ \<Rightarrow> Some e, s') \<and> holds s' (tl q)"
begin

lemma run_is_queue:
  "holds s q \<Longrightarrow> backlog_within bound item as q \<Longrightarrow> run_source put get as s = Some (run_queue item as q)"
proof (induction as arbitrary: s q)
  case (Cons a as)
  show ?case
  proof (cases a)
    case (Put x)
    with Cons put_holds [OF Cons.prems(1), of x] show ?thesis by simp
  next
    case Next
    with get_holds [OF Cons.prems(1)] Cons.prems(2) obtain s' where
      "get s = Some (case q of [] \<Rightarrow> None | e # _ \<Rightarrow> Some e, s')" "holds s' (tl q)" by auto
    with Next Cons.IH [of s' "tl q"] Cons.prems(2) show ?thesis by (cases q) simp_all
  qed
qed simp

end

subsection \<open>A subscription is a queue\<close>

text \<open>A bus with one subscription: publishing any event, and the next item of the subscription.\<close>

definition bus_put ::
    "('t \<times> 'e, 'ch, 'r) broadcast \<Rightarrow> 't \<times> 'e \<Rightarrow> ('t, 'ch) events_bus \<times> 'r \<Rightarrow> ('t, 'ch) events_bus \<times> 'r" where
  "bus_put bc x s = (publish bc (fst x) (snd x) (fst s), snd s)"

definition bus_next ::
    "('t \<times> 'e, 'ch, 'r) broadcast \<Rightarrow> 't \<Rightarrow> ('t, 'ch) events_bus \<times> 'r \<Rightarrow>
     ('e option \<times> ('t, 'ch) events_bus \<times> 'r) option" where
  "bus_next bc ty s =
     map_option (\<lambda>(i, r). (i, fst s, r)) (stream_next bc ty (snd s) (fst (bus_sender bc ty (fst s))))"

definition of_type :: "'t \<Rightarrow> 't \<times> 'e \<Rightarrow> 'e list" where
  "of_type ty x = (if fst x = ty then [snd x] else [])"

text \<open>Every channel has the events of its type only, and at least the capacity asked for.\<close>

definition bus_ok :: "('t \<times> 'e, 'ch, 'r) broadcast \<Rightarrow> ('t, 'ch) events_bus \<Rightarrow> bool" where
  "bus_ok bc bus \<longleftrightarrow>
     (\<forall>ty ch. bus ty = Some ch \<longrightarrow> 100 \<le> bc_capacity bc ch \<and> (\<forall>m \<in> set (bc_log bc ch). fst m = ty))"

definition unread_is ::
    "('t \<times> 'e, 'ch, 'r) broadcast \<Rightarrow> 't \<Rightarrow> ('t, 'ch) events_bus \<Rightarrow> 'r \<Rightarrow> 'e list \<Rightarrow> bool" where
  "unread_is bc ty bus r q \<longleftrightarrow>
     (\<exists>ch. bus ty = Some ch \<and> bc_position bc r \<le> length (bc_log bc ch) \<and>
        map snd (drop (bc_position bc r) (bc_log bc ch)) = q)"

lemma bus_sender_ok:
  assumes "broadcast_laws bc" "bus_ok bc bus" "bus_sender bc ty bus = (ch, bus')"
  shows "bus' ty = Some ch" "bus_ok bc bus'" "bus ty = Some ch' \<Longrightarrow> ch = ch' \<and> bus' = bus"
    "ty' \<noteq> ty \<Longrightarrow> bus' ty' = bus ty'"
proof -
  show "bus' ty = Some ch" "bus ty = Some ch' \<Longrightarrow> ch = ch' \<and> bus' = bus" "ty' \<noteq> ty \<Longrightarrow> bus' ty' = bus ty'"
    using assms(3) by (auto simp: bus_sender_def Let_def split: option.splits)
  have "bc_log bc (bc_channel bc 100) = []" "100 \<le> bc_capacity bc (bc_channel bc 100)"
    using assms(1) by (simp_all add: broadcast_laws_def)
  with assms(2,3) show "bus_ok bc bus'"
    by (fastforce simp: bus_sender_def bus_ok_def Let_def split: option.splits if_splits)
qed

lemma publish_ok:
  assumes "broadcast_laws bc" "bus_ok bc bus"
  shows "bus_ok bc (publish bc ty e bus)"
proof -
  obtain ch bus' where s: "bus_sender bc ty bus = (ch, bus')" by (metis surj_pair)
  from bus_sender_ok(1,2) [OF assms s] assms(1) s show ?thesis
    by (auto simp: publish_def bus_ok_def broadcast_laws_def)
qed

lemma publish_unread:
  assumes "broadcast_laws bc" "bus_ok bc bus" "unread_is bc ty bus r q"
  shows "unread_is bc ty (publish bc ty' e bus) r (if ty' = ty then q @ [e] else q)"
proof -
  obtain ch bus' where s: "bus_sender bc ty' bus = (ch, bus')" by (metis surj_pair)
  note ok = bus_sender_ok [OF assms(1,2) s]
  show ?thesis
  proof (cases "ty' = ty")
    case True
    with assms(3) ok(3) s assms(1) show ?thesis
      by (auto simp: publish_def unread_is_def broadcast_laws_def)
  next
    case False
    with assms(3) ok(4) [of ty] s show ?thesis by (auto simp: publish_def unread_is_def)
  qed
qed

lemma stream_next_unread:
  assumes "broadcast_laws bc" "bus_ok bc bus" "unread_is bc ty bus r q" "length q \<le> 100"
  shows "\<exists>r'. stream_next bc ty r (fst (bus_sender bc ty bus)) =
      Some (case q of [] \<Rightarrow> None | e # _ \<Rightarrow> Some e, r') \<and> unread_is bc ty bus r' (tl q)"
proof -
  from assms(3) obtain ch where ch: "bus ty = Some ch" "bc_position bc r \<le> length (bc_log bc ch)"
    "map snd (drop (bc_position bc r) (bc_log bc ch)) = q" by (auto simp: unread_is_def)
  let ?i = "bc_position bc r" and ?log = "bc_log bc ch"
  have cap: "length ?log - ?i \<le> bc_capacity bc ch"
    using assms(2,4) ch(1) unfolding bus_ok_def ch(3) [symmetric] by fastforce
  obtain m r' where rc: "bc_recv bc r ch = (m, r')" by (metis surj_pair)
  have law: "recv_law bc r ch" using assms(1) by (simp add: broadcast_laws_def)
  have snd: "fst (bus_sender bc ty bus) = ch" by (simp add: bus_sender_def ch(1))
  show ?thesis
  proof (cases m)
    case (Received msg)
    with law rc have *: "?i < length ?log" "msg = ?log ! ?i" "bc_position bc r' = Suc ?i"
      by (auto simp: recv_law_def Let_def)
    from * ch(3) have q: "q = snd msg # map snd (drop (Suc ?i) ?log)"
      by (metis Cons_nth_drop_Suc list.simps(9))
    have "fst msg = ty" using assms(2) ch(1) * by (auto simp: bus_ok_def)
    with Received rc q ch(1) * show ?thesis
      by (subst stream_next.simps) (auto simp: snd unread_is_def)
  next
    case (Lagged k)
    with law rc cap show ?thesis by (auto simp: recv_law_def Let_def)
  next
    case NoMessage
    with law rc ch(2,3) have *: "q = []" "bc_position bc r' = ?i" by (auto simp: recv_law_def Let_def)
    with NoMessage rc ch show ?thesis
      by (subst stream_next.simps) (auto simp: snd unread_is_def)
  qed
qed

interpretation subscription: bounded_queue
  "bus_put bc" "bus_next bc ty" "of_type ty"
  "\<lambda>s q. broadcast_laws bc \<and> bus_ok bc (fst s) \<and> unread_is bc ty (fst s) (snd s) q" 100
  for bc ty
proof (unfold_locales, goal_cases)
  case (1 s q x)
  then show ?case
    using publish_ok [of bc "fst s"] publish_unread [of bc "fst s" ty "snd s" q "fst x" "snd x"]
    by (auto simp: bus_put_def of_type_def split: if_splits)
next
  case (2 s q)
  then show ?case
    using stream_next_unread [of bc "fst s" ty "snd s" q] by (fastforce simp: bus_next_def)
qed

text \<open>
  Claim C35: a subscription is a first-in first-out queue of the events of its type. Whatever is
  published on the bus, a subscriber that never has more than 100 events waiting gets each event of
  its type that is published after it has subscribed, once and in order, and no other.
\<close>

theorem subscription_is_queue:
  assumes "broadcast_laws bc" "bus_ok bc bus" "subscribe bc ty bus = (bus', r)"
    and "backlog_within 100 (of_type ty) as []"
  shows "bus_ok bc bus' \<and>
    run_source (bus_put bc) (bus_next bc ty) as (bus', r) = Some (run_queue (of_type ty) as [])"
proof -
  obtain ch b where s: "bus_sender bc ty bus = (ch, b)" by (metis surj_pair)
  with assms(3) have b: "bus' = b" "r = bc_subscribe bc ch" by (auto simp: subscribe_def)
  note ok = bus_sender_ok(1,2) [OF assms(1,2) s]
  have "unread_is bc ty bus' r []"
    using assms(1) ok(1) b by (simp add: unread_is_def broadcast_laws_def)
  with subscription.run_is_queue [of bc "(bus', r)" ty "[]" as] assms(1,4) ok(2) b show ?thesis by simp
qed

text \<open>A plain channel with twice the capacity asked for.\<close>

definition sample_broadcast :: "('m, 'm list \<times> nat, nat) broadcast" where
  "sample_broadcast =
     \<lparr>bc_channel = (\<lambda>n. ([], 2 * n)), bc_send = (\<lambda>m (log, c). (log @ [m], c)),
      bc_subscribe = (\<lambda>(log, c). length log),
      bc_recv = (\<lambda>i (log, c).
        if length log \<le> i then (NoMessage, i)
        else if c < length log - i then (Lagged (length log - i - c), length log - c)
        else (Received (log ! i), Suc i)),
      bc_log = fst, bc_capacity = snd, bc_position = id\<rparr>"

lemma sample_broadcast_laws: "broadcast_laws sample_broadcast"
  by (auto simp: broadcast_laws_def sample_broadcast_def recv_law_def Let_def split: if_splits)

theorem subscription_is_queue_witness:
  "\<exists>bus r. subscribe sample_broadcast ''attempt'' (publish sample_broadcast ''attempt'' (1 :: nat) Map.empty) = (bus, r) \<and>
     run_source (bus_put sample_broadcast) (bus_next sample_broadcast ''attempt'')
       [Put (''attempt'', 2), Put (''failure'', 3), Next, Next, Put (''attempt'', 4), Next] (bus, r) =
       Some [Some 2, None, Some 4]"
proof -
  let ?bc = "sample_broadcast :: (string \<times> nat, (string \<times> nat) list \<times> nat, nat) broadcast"
  let ?bus = "publish ?bc ''attempt'' (1 :: nat) Map.empty"
  let ?as = "[Put (''attempt'', 2), Put (''failure'', 3), Next, Next, Put (''attempt'', 4), Next] :: (string \<times> nat) source_action list"
  have ok: "bus_ok ?bc ?bus" by (rule publish_ok [OF sample_broadcast_laws]) (simp add: bus_ok_def)
  obtain bus r where s: "subscribe ?bc ''attempt'' ?bus = (bus, r)" by (metis surj_pair)
  have w: "backlog_within 100 (of_type ''attempt'') ?as []" by (simp add: of_type_def)
  have "run_queue (of_type ''attempt'') ?as [] = [Some 2, None, Some 4]" by (simp add: of_type_def)
  with subscription_is_queue [OF sample_broadcast_laws ok s w] s show ?thesis by simp
qed

text \<open>
  The bound is needed: a subscriber with more events waiting than the channel holds silently loses
  the oldest ones, as the error that tells so is left out of the stream.
\<close>

lemma lagging_subscriber_loses_events:
  assumes "broadcast_laws bc" "bus_ok bc bus" "unread_is bc ty bus r q" "bus ty = Some ch"
    and lag: "bc_capacity bc ch < length q"
  shows "\<exists>r'. stream_next bc ty r ch = Some (Some (q ! (length q - bc_capacity bc ch)), r')"
proof -
  let ?i = "bc_position bc r" and ?log = "bc_log bc ch" and ?c = "bc_capacity bc ch"
  from assms(3,4) have q: "map snd (drop ?i ?log) = q" "?i \<le> length ?log" by (auto simp: unread_is_def)
  then have len: "length q = length ?log - ?i" by (metis length_drop length_map)
  have cap: "100 \<le> ?c" and typed: "\<forall>m \<in> set ?log. fst m = ty" using assms(2,4) by (auto simp: bus_ok_def)
  have law: "recv_law bc r' ch" for r' using assms(1) by (simp add: broadcast_laws_def)
  obtain m1 r1 where r1: "bc_recv bc r ch = (m1, r1)" by (metis surj_pair)
  with law [of r] lag len q(2) cap have
    m1: "\<exists>k. m1 = Lagged k" and p1: "bc_position bc r1 = ?i + (length q - ?c)"
    by (auto simp: recv_law_def Let_def split: received.splits)
  obtain m2 r2 where r2: "bc_recv bc r1 ch = (m2, r2)" by (metis surj_pair)
  with law [of r1] p1 lag len q(2) cap have m2: "m2 = Received (?log ! (?i + (length q - ?c)))"
    by (auto simp: recv_law_def Let_def split: received.splits)
  have lt: "length q - ?c < length q" using cap lag by arith
  then have nth: "q ! (length q - ?c) = snd (?log ! (?i + (length q - ?c)))"
    using q(2) len unfolding q(1) [symmetric] by (simp add: nth_append)
  have "?log ! (?i + (length q - ?c)) \<in> set ?log" using lt len q(2) by simp
  with typed have "fst (?log ! (?i + (length q - ?c))) = ty" by blast
  with r2 m2 have "stream_next bc ty r1 ch = Some (Some (q ! (length q - ?c)), r2)"
    by (subst stream_next.simps) (simp add: nth)
  moreover from r1 m1 have "stream_next bc ty r ch = stream_next bc ty r1 ch"
    by (subst stream_next.simps) auto
  ultimately show ?thesis by simp
qed

subsection \<open>The listener of the order pool\<close>













end
