(* ===== verification/Native_Pool.thy ===== *)
theory Native_Pool
  imports Machines Order_Pool
begin

section \<open>The adapter of reth's transaction pool\<close>

text \<open>
  \<open>crates/pipeline/src/pool/native.rs\<close>: \<open>NativeTransactionPool\<close> hides the type of reth's pool behind
  a table of function pointers and a raw pointer to a boxed \<open>Arc\<close> of the pool. The memory has the
  boxes, each holding an \<open>Arc\<close>, and the shared pools with their strong counts. reth's pool is a
  parameter: a function from a pool and a call to the reply and the pool afterwards, with one
  constructor of \<open>pool_call\<close> for every method of reth's trait; the types of its arguments that are
  reth's own are opaque, and the replies of all methods are of one type. The future of an
  \<open>add_*\<close> method is its effect. \<open>retain_unknown\<close> and \<open>get_pending_transactions_with_predicate\<close> are
  \<open>unimplemented!\<close>, and neither uses its argument.

  \<open>Drop\<close> of the table frees the pointer as a box of the \<^emph>\<open>platform\<close> type. For a type of size 0, as
  \<open>Ethereum\<close> and \<open>Optimism\<close> are, that does nothing; for any other it frees memory under a layout
  it was not allocated with, which is undefined behaviour.
\<close>

subsection \<open>Memory\<close>

datatype 'a outcome = Returned 'a | Unimplemented | Undefined

record 'p pool_mem =
  pm_boxes :: "nat \<rightharpoonup> nat"
  pm_arcs :: "nat \<rightharpoonup> nat \<times> 'p"
  pm_next :: nat

definition box_into_raw :: "nat \<Rightarrow> 'p pool_mem \<Rightarrow> nat \<times> 'p pool_mem" where
  "box_into_raw arc m =
     (pm_next m, m\<lparr>pm_boxes := (pm_boxes m)(pm_next m \<mapsto> arc), pm_next := Suc (pm_next m)\<rparr>)"

definition arc_clone :: "nat \<Rightarrow> 'p pool_mem \<Rightarrow> 'p pool_mem" where
  "arc_clone arc m = m\<lparr>pm_arcs := (pm_arcs m)(arc := map_option (\<lambda>(n, p). (Suc n, p)) (pm_arcs m arc))\<rparr>"

subsection \<open>The table of methods\<close>

text \<open>Types of reth that only pass through.\<close>

typedecl transaction_origin

typedecl listener_kind

typedecl pooled_limit

typedecl best_attributes

typedecl propagated

datatype pool_call =
    AskPoolSize
  | AskBlockInfo
  | AskAddTransactionAndSubscribe transaction_origin recovered_tx
  | AskAddTransaction transaction_origin recovered_tx
  | AskAddTransactions transaction_origin "recovered_tx list"
  | AskTransactionEventListener b256
  | AskAllTransactionsEventListener
  | AskPendingTransactionsListenerFor listener_kind
  | AskBlobTransactionSidecarsListener
  | AskNewTransactionsListenerFor listener_kind
  | AskPooledTransactionHashes
  | AskPooledTransactionHashesMax nat
  | AskPooledTransactions
  | AskPooledTransactionsMax nat
  | AskGetPooledTransactionElements "b256 list" pooled_limit
  | AskGetPooledTransactionElement b256
  | AskBestTransactions
  | AskBestTransactionsWithAttributes best_attributes
  | AskPendingTransactions
  | AskPendingTransactionsMax nat
  | AskQueuedTransactions
  | AskAllTransactions
  | AskAllTransactionHashes
  | AskRemoveTransactions "b256 list"
  | AskRemoveTransactionsAndDescendants "b256 list"
  | AskRemoveTransactionsBySender address
  | AskRetainUnknown
  | AskContains b256
  | AskGet b256
  | AskGetAll "b256 list"
  | AskOnPropagated propagated
  | AskGetTransactionsBySender address
  | AskGetPendingTransactionsWithPredicate
  | AskGetPendingTransactionsBySender address
  | AskGetQueuedTransactionsBySender address
  | AskGetHighestTransactionBySender address
  | AskGetHighestConsecutiveTransactionBySender address u64
  | AskGetTransactionBySenderAndNonce address u64
  | AskGetTransactionsByOrigin transaction_origin
  | AskGetPendingTransactionsByOrigin transaction_origin
  | AskUniqueSenders
  | AskGetBlob b256
  | AskGetAllBlobs "b256 list"
  | AskGetAllBlobsExact "b256 list"
  | AskGetBlobsForVersionedHashesV1 "b256 list"
  | AskGetBlobsForVersionedHashesV2 "b256 list"
  | AskGetBlobsForVersionedHashesV3 "b256 list"
  | AskPendingAndQueuedTxnCount

type_synonym ('p, 'r) raw_method = "nat \<Rightarrow> 'p pool_mem \<Rightarrow> ('r \<times> 'p pool_mem) outcome"

record ('p, 'r) pool_vtable =
  self_ptr :: nat
  vt_clone :: "nat \<Rightarrow> 'p pool_mem \<Rightarrow> (nat \<times> 'p pool_mem) outcome"
  vt_pool_size :: "('p, 'r) raw_method"
  vt_block_info :: "('p, 'r) raw_method"
  vt_add_transaction_and_subscribe :: "transaction_origin \<Rightarrow> recovered_tx \<Rightarrow> ('p, 'r) raw_method"
  vt_add_transaction :: "transaction_origin \<Rightarrow> recovered_tx \<Rightarrow> ('p, 'r) raw_method"
  vt_add_transactions :: "transaction_origin \<Rightarrow> recovered_tx list \<Rightarrow> ('p, 'r) raw_method"
  vt_transaction_event_listener :: "b256 \<Rightarrow> ('p, 'r) raw_method"
  vt_all_transactions_event_listener :: "('p, 'r) raw_method"
  vt_pending_transactions_listener_for :: "listener_kind \<Rightarrow> ('p, 'r) raw_method"
  vt_blob_transaction_sidecars_listener :: "('p, 'r) raw_method"
  vt_new_transactions_listener_for :: "listener_kind \<Rightarrow> ('p, 'r) raw_method"
  vt_pooled_transaction_hashes :: "('p, 'r) raw_method"
  vt_pooled_transaction_hashes_max :: "nat \<Rightarrow> ('p, 'r) raw_method"
  vt_pooled_transactions :: "('p, 'r) raw_method"
  vt_pooled_transactions_max :: "nat \<Rightarrow> ('p, 'r) raw_method"
  vt_get_pooled_transaction_elements :: "b256 list \<Rightarrow> pooled_limit \<Rightarrow> ('p, 'r) raw_method"
  vt_get_pooled_transaction_element :: "b256 \<Rightarrow> ('p, 'r) raw_method"
  vt_best_transactions :: "('p, 'r) raw_method"
  vt_best_transactions_with_attributes :: "best_attributes \<Rightarrow> ('p, 'r) raw_method"
  vt_pending_transactions :: "('p, 'r) raw_method"
  vt_pending_transactions_max :: "nat \<Rightarrow> ('p, 'r) raw_method"
  vt_queued_transactions :: "('p, 'r) raw_method"
  vt_all_transactions :: "('p, 'r) raw_method"
  vt_all_transactions_hashes :: "('p, 'r) raw_method"
  vt_remove_transactions :: "b256 list \<Rightarrow> ('p, 'r) raw_method"
  vt_remove_transactions_and_descendants :: "b256 list \<Rightarrow> ('p, 'r) raw_method"
  vt_remove_transactions_by_sender :: "address \<Rightarrow> ('p, 'r) raw_method"
  vt_contains :: "b256 \<Rightarrow> ('p, 'r) raw_method"
  vt_get :: "b256 \<Rightarrow> ('p, 'r) raw_method"
  vt_get_all :: "b256 list \<Rightarrow> ('p, 'r) raw_method"
  vt_on_propagated :: "propagated \<Rightarrow> ('p, 'r) raw_method"
  vt_get_transactions_by_sender :: "address \<Rightarrow> ('p, 'r) raw_method"
  vt_get_pending_transactions_by_sender :: "address \<Rightarrow> ('p, 'r) raw_method"
  vt_get_queued_transactions_by_sender :: "address \<Rightarrow> ('p, 'r) raw_method"
  vt_get_highest_transaction_by_sender :: "address \<Rightarrow> ('p, 'r) raw_method"
  vt_get_highest_consecutive_transaction_by_sender :: "address \<Rightarrow> u64 \<Rightarrow> ('p, 'r) raw_method"
  vt_get_transaction_by_sender_and_nonce :: "address \<Rightarrow> u64 \<Rightarrow> ('p, 'r) raw_method"
  vt_get_transactions_by_origin :: "transaction_origin \<Rightarrow> ('p, 'r) raw_method"
  vt_get_pending_transactions_by_origin :: "transaction_origin \<Rightarrow> ('p, 'r) raw_method"
  vt_unique_senders :: "('p, 'r) raw_method"
  vt_get_blob :: "b256 \<Rightarrow> ('p, 'r) raw_method"
  vt_get_all_blobs :: "b256 list \<Rightarrow> ('p, 'r) raw_method"
  vt_get_all_blobs_exact :: "b256 list \<Rightarrow> ('p, 'r) raw_method"
  vt_get_blobs_for_versioned_hashes_v1 :: "b256 list \<Rightarrow> ('p, 'r) raw_method"
  vt_get_blobs_for_versioned_hashes_v2 :: "b256 list \<Rightarrow> ('p, 'r) raw_method"
  vt_get_blobs_for_versioned_hashes_v3 :: "b256 list \<Rightarrow> ('p, 'r) raw_method"
  vt_pending_and_queued_txn_count :: "('p, 'r) raw_method"

text \<open>\<open>unsafe { &*self_ptr.cast::<Pool>() }\<close> and a call of a method of the pool.\<close>

definition on_pool :: "('p \<Rightarrow> pool_call \<Rightarrow> 'r \<times> 'p) \<Rightarrow> pool_call \<Rightarrow> ('p, 'r) raw_method" where
  "on_pool reth c ptr m =
     (case pm_boxes m ptr of
        None \<Rightarrow> Undefined
      | Some arc \<Rightarrow>
          (case pm_arcs m arc of
             None \<Rightarrow> Undefined
           | Some (n, p) \<Rightarrow>
               (case reth p c of (r, p') \<Rightarrow> Returned (r, m\<lparr>pm_arcs := (pm_arcs m)(arc \<mapsto> (n, p'))\<rparr>))))"

text \<open>
  The first half of the entry \<open>clone\<close>: a new box with a clone of the \<open>Arc\<close>. The table it returns and
  the end of its argument are in \<open>vtable_clone\<close>.
\<close>

definition clone_box :: "nat \<Rightarrow> 'p pool_mem \<Rightarrow> (nat \<times> 'p pool_mem) outcome" where
  "clone_box ptr m =
     (case pm_boxes m ptr of
        None \<Rightarrow> Undefined
      | Some arc \<Rightarrow> if pm_arcs m arc = None then Undefined else Returned (box_into_raw arc (arc_clone arc m)))"

definition vtable_at :: "('p \<Rightarrow> pool_call \<Rightarrow> 'r \<times> 'p) \<Rightarrow> nat \<Rightarrow> ('p, 'r) pool_vtable" where
  "vtable_at reth ptr =
     \<lparr>self_ptr = ptr, vt_clone = clone_box,
       vt_pool_size = on_pool reth AskPoolSize,
       vt_block_info = on_pool reth AskBlockInfo,
       vt_add_transaction_and_subscribe = (\<lambda>origin tx. on_pool reth (AskAddTransactionAndSubscribe origin tx)),
       vt_add_transaction = (\<lambda>origin tx. on_pool reth (AskAddTransaction origin tx)),
       vt_add_transactions = (\<lambda>origin ts. on_pool reth (AskAddTransactions origin ts)),
       vt_transaction_event_listener = (\<lambda>h. on_pool reth (AskTransactionEventListener h)),
       vt_all_transactions_event_listener = on_pool reth AskAllTransactionsEventListener,
       vt_pending_transactions_listener_for = (\<lambda>kind. on_pool reth (AskPendingTransactionsListenerFor kind)),
       vt_blob_transaction_sidecars_listener = on_pool reth AskBlobTransactionSidecarsListener,
       vt_new_transactions_listener_for = (\<lambda>kind. on_pool reth (AskNewTransactionsListenerFor kind)),
       vt_pooled_transaction_hashes = on_pool reth AskPooledTransactionHashes,
       vt_pooled_transaction_hashes_max = (\<lambda>m. on_pool reth (AskPooledTransactionHashesMax m)),
       vt_pooled_transactions = on_pool reth AskPooledTransactions,
       vt_pooled_transactions_max = (\<lambda>m. on_pool reth (AskPooledTransactionsMax m)),
       vt_get_pooled_transaction_elements = (\<lambda>hs lim. on_pool reth (AskGetPooledTransactionElements hs lim)),
       vt_get_pooled_transaction_element = (\<lambda>h. on_pool reth (AskGetPooledTransactionElement h)),
       vt_best_transactions = on_pool reth AskBestTransactions,
       vt_best_transactions_with_attributes = (\<lambda>attrs. on_pool reth (AskBestTransactionsWithAttributes attrs)),
       vt_pending_transactions = on_pool reth AskPendingTransactions,
       vt_pending_transactions_max = (\<lambda>m. on_pool reth (AskPendingTransactionsMax m)),
       vt_queued_transactions = on_pool reth AskQueuedTransactions,
       vt_all_transactions = on_pool reth AskAllTransactions,
       vt_all_transactions_hashes = on_pool reth AskAllTransactionHashes,
       vt_remove_transactions = (\<lambda>hs. on_pool reth (AskRemoveTransactions hs)),
       vt_remove_transactions_and_descendants = (\<lambda>hs. on_pool reth (AskRemoveTransactionsAndDescendants hs)),
       vt_remove_transactions_by_sender = (\<lambda>sender. on_pool reth (AskRemoveTransactionsBySender sender)),
       vt_contains = (\<lambda>h. on_pool reth (AskContains h)),
       vt_get = (\<lambda>h. on_pool reth (AskGet h)),
       vt_get_all = (\<lambda>hs. on_pool reth (AskGetAll hs)),
       vt_on_propagated = (\<lambda>ts. on_pool reth (AskOnPropagated ts)),
       vt_get_transactions_by_sender = (\<lambda>sender. on_pool reth (AskGetTransactionsBySender sender)),
       vt_get_pending_transactions_by_sender = (\<lambda>sender. on_pool reth (AskGetPendingTransactionsBySender sender)),
       vt_get_queued_transactions_by_sender = (\<lambda>sender. on_pool reth (AskGetQueuedTransactionsBySender sender)),
       vt_get_highest_transaction_by_sender = (\<lambda>sender. on_pool reth (AskGetHighestTransactionBySender sender)),
       vt_get_highest_consecutive_transaction_by_sender = (\<lambda>sender nonce. on_pool reth (AskGetHighestConsecutiveTransactionBySender sender nonce)),
       vt_get_transaction_by_sender_and_nonce = (\<lambda>sender nonce. on_pool reth (AskGetTransactionBySenderAndNonce sender nonce)),
       vt_get_transactions_by_origin = (\<lambda>origin. on_pool reth (AskGetTransactionsByOrigin origin)),
       vt_get_pending_transactions_by_origin = (\<lambda>origin. on_pool reth (AskGetPendingTransactionsByOrigin origin)),
       vt_unique_senders = on_pool reth AskUniqueSenders,
       vt_get_blob = (\<lambda>h. on_pool reth (AskGetBlob h)),
       vt_get_all_blobs = (\<lambda>hs. on_pool reth (AskGetAllBlobs hs)),
       vt_get_all_blobs_exact = (\<lambda>hs. on_pool reth (AskGetAllBlobsExact hs)),
       vt_get_blobs_for_versioned_hashes_v1 = (\<lambda>hs. on_pool reth (AskGetBlobsForVersionedHashesV1 hs)),
       vt_get_blobs_for_versioned_hashes_v2 = (\<lambda>hs. on_pool reth (AskGetBlobsForVersionedHashesV2 hs)),
       vt_get_blobs_for_versioned_hashes_v3 = (\<lambda>hs. on_pool reth (AskGetBlobsForVersionedHashesV3 hs)),
       vt_pending_and_queued_txn_count = on_pool reth AskPendingAndQueuedTxnCount\<rparr>"

definition vtable_new ::
    "('p \<Rightarrow> pool_call \<Rightarrow> 'r \<times> 'p) \<Rightarrow> nat \<Rightarrow> 'p pool_mem \<Rightarrow> ('p, 'r) pool_vtable \<times> 'p pool_mem" where
  "vtable_new reth arc m = (case box_into_raw arc m of (ptr, m') \<Rightarrow> (vtable_at reth ptr, m'))"

text \<open>\<open>Box::from_raw(self_ptr as *mut P)\<close>, dropped at once, for a platform \<open>P\<close> of the given size.\<close>

definition vtable_drop :: "nat \<Rightarrow> ('p, 'r) pool_vtable \<Rightarrow> 'p pool_mem \<Rightarrow> 'p pool_mem outcome" where
  "vtable_drop platform_size v m = (if platform_size = 0 then Returned m else Undefined)"

text \<open>
  The entry \<open>clone\<close>, called with a copy of the table: \<open>Self { self_ptr: .., ..other }\<close> copies the
  function pointers, and the copy, which has the pointer of the original, is dropped.
\<close>

definition vtable_clone ::
    "nat \<Rightarrow> ('p, 'r) pool_vtable \<Rightarrow> ('p, 'r) pool_vtable \<Rightarrow> 'p pool_mem \<Rightarrow>
     (('p, 'r) pool_vtable \<times> 'p pool_mem) outcome" where
  "vtable_clone platform_size v other m =
     (case vt_clone v (self_ptr v) m of
        Returned (ptr, m') \<Rightarrow>
          (case vtable_drop platform_size other m' of
             Returned m'' \<Rightarrow> Returned (other\<lparr>self_ptr := ptr\<rparr>, m'')
           | Unimplemented \<Rightarrow> Unimplemented
           | Undefined \<Rightarrow> Undefined)
      | Unimplemented \<Rightarrow> Unimplemented
      | Undefined \<Rightarrow> Undefined)"

subsection \<open>The adapter\<close>

record ('p, 'r) native_pool =
  vtable :: "('p, 'r) pool_vtable"

definition native_new ::
    "('p \<Rightarrow> pool_call \<Rightarrow> 'r \<times> 'p) \<Rightarrow> nat \<Rightarrow> 'p pool_mem \<Rightarrow> ('p, 'r) native_pool \<times> 'p pool_mem" where
  "native_new reth arc m = (case vtable_new reth arc m of (v, m') \<Rightarrow> (\<lparr>vtable = v\<rparr>, m'))"

definition native_clone ::
    "nat \<Rightarrow> ('p, 'r) native_pool \<Rightarrow> 'p pool_mem \<Rightarrow> (('p, 'r) native_pool \<times> 'p pool_mem) outcome" where
  "native_clone platform_size n m =
     (let vtable_clone' = vtable n in
      case vtable_clone platform_size (vtable n) vtable_clone' m of
        Returned (v, m') \<Rightarrow> Returned (\<lparr>vtable = v\<rparr>, m')
      | Unimplemented \<Rightarrow> Unimplemented
      | Undefined \<Rightarrow> Undefined)"

definition native_drop :: "nat \<Rightarrow> ('p, 'r) native_pool \<Rightarrow> 'p pool_mem \<Rightarrow> 'p pool_mem outcome" where
  "native_drop platform_size n m = vtable_drop platform_size (vtable n) m"

definition native_pool_size ::
    "('p, 'r) native_pool \<Rightarrow> 'p pool_mem \<Rightarrow> ('r \<times> 'p pool_mem) outcome" where
  "native_pool_size n = vt_pool_size (vtable n) (self_ptr (vtable n))"

definition native_block_info ::
    "('p, 'r) native_pool \<Rightarrow> 'p pool_mem \<Rightarrow> ('r \<times> 'p pool_mem) outcome" where
  "native_block_info n = vt_block_info (vtable n) (self_ptr (vtable n))"

definition native_add_transaction_and_subscribe ::
    "('p, 'r) native_pool \<Rightarrow> transaction_origin \<Rightarrow> recovered_tx \<Rightarrow> 'p pool_mem \<Rightarrow> ('r \<times> 'p pool_mem) outcome" where
  "native_add_transaction_and_subscribe n origin tx = vt_add_transaction_and_subscribe (vtable n) origin tx (self_ptr (vtable n))"

definition native_add_transaction ::
    "('p, 'r) native_pool \<Rightarrow> transaction_origin \<Rightarrow> recovered_tx \<Rightarrow> 'p pool_mem \<Rightarrow> ('r \<times> 'p pool_mem) outcome" where
  "native_add_transaction n origin tx = vt_add_transaction (vtable n) origin tx (self_ptr (vtable n))"

definition native_add_transactions ::
    "('p, 'r) native_pool \<Rightarrow> transaction_origin \<Rightarrow> recovered_tx list \<Rightarrow> 'p pool_mem \<Rightarrow> ('r \<times> 'p pool_mem) outcome" where
  "native_add_transactions n origin ts = vt_add_transactions (vtable n) origin ts (self_ptr (vtable n))"

definition native_transaction_event_listener ::
    "('p, 'r) native_pool \<Rightarrow> b256 \<Rightarrow> 'p pool_mem \<Rightarrow> ('r \<times> 'p pool_mem) outcome" where
  "native_transaction_event_listener n h = vt_transaction_event_listener (vtable n) h (self_ptr (vtable n))"

definition native_all_transactions_event_listener ::
    "('p, 'r) native_pool \<Rightarrow> 'p pool_mem \<Rightarrow> ('r \<times> 'p pool_mem) outcome" where
  "native_all_transactions_event_listener n = vt_all_transactions_event_listener (vtable n) (self_ptr (vtable n))"

definition native_pending_transactions_listener_for ::
    "('p, 'r) native_pool \<Rightarrow> listener_kind \<Rightarrow> 'p pool_mem \<Rightarrow> ('r \<times> 'p pool_mem) outcome" where
  "native_pending_transactions_listener_for n kind = vt_pending_transactions_listener_for (vtable n) kind (self_ptr (vtable n))"

definition native_blob_transaction_sidecars_listener ::
    "('p, 'r) native_pool \<Rightarrow> 'p pool_mem \<Rightarrow> ('r \<times> 'p pool_mem) outcome" where
  "native_blob_transaction_sidecars_listener n = vt_blob_transaction_sidecars_listener (vtable n) (self_ptr (vtable n))"

definition native_new_transactions_listener_for ::
    "('p, 'r) native_pool \<Rightarrow> listener_kind \<Rightarrow> 'p pool_mem \<Rightarrow> ('r \<times> 'p pool_mem) outcome" where
  "native_new_transactions_listener_for n kind = vt_new_transactions_listener_for (vtable n) kind (self_ptr (vtable n))"

definition native_pooled_transaction_hashes ::
    "('p, 'r) native_pool \<Rightarrow> 'p pool_mem \<Rightarrow> ('r \<times> 'p pool_mem) outcome" where
  "native_pooled_transaction_hashes n = vt_pooled_transaction_hashes (vtable n) (self_ptr (vtable n))"

definition native_pooled_transaction_hashes_max ::
    "('p, 'r) native_pool \<Rightarrow> nat \<Rightarrow> 'p pool_mem \<Rightarrow> ('r \<times> 'p pool_mem) outcome" where
  "native_pooled_transaction_hashes_max n m = vt_pooled_transaction_hashes_max (vtable n) m (self_ptr (vtable n))"

definition native_pooled_transactions ::
    "('p, 'r) native_pool \<Rightarrow> 'p pool_mem \<Rightarrow> ('r \<times> 'p pool_mem) outcome" where
  "native_pooled_transactions n = vt_pooled_transactions (vtable n) (self_ptr (vtable n))"

definition native_pooled_transactions_max ::
    "('p, 'r) native_pool \<Rightarrow> nat \<Rightarrow> 'p pool_mem \<Rightarrow> ('r \<times> 'p pool_mem) outcome" where
  "native_pooled_transactions_max n m = vt_pooled_transactions_max (vtable n) m (self_ptr (vtable n))"

definition native_get_pooled_transaction_elements ::
    "('p, 'r) native_pool \<Rightarrow> b256 list \<Rightarrow> pooled_limit \<Rightarrow> 'p pool_mem \<Rightarrow> ('r \<times> 'p pool_mem) outcome" where
  "native_get_pooled_transaction_elements n hs lim = vt_get_pooled_transaction_elements (vtable n) hs lim (self_ptr (vtable n))"

definition native_get_pooled_transaction_element ::
    "('p, 'r) native_pool \<Rightarrow> b256 \<Rightarrow> 'p pool_mem \<Rightarrow> ('r \<times> 'p pool_mem) outcome" where
  "native_get_pooled_transaction_element n h = vt_get_pooled_transaction_element (vtable n) h (self_ptr (vtable n))"

definition native_best_transactions ::
    "('p, 'r) native_pool \<Rightarrow> 'p pool_mem \<Rightarrow> ('r \<times> 'p pool_mem) outcome" where
  "native_best_transactions n = vt_best_transactions (vtable n) (self_ptr (vtable n))"

definition native_best_transactions_with_attributes ::
    "('p, 'r) native_pool \<Rightarrow> best_attributes \<Rightarrow> 'p pool_mem \<Rightarrow> ('r \<times> 'p pool_mem) outcome" where
  "native_best_transactions_with_attributes n attrs = vt_best_transactions_with_attributes (vtable n) attrs (self_ptr (vtable n))"

definition native_pending_transactions ::
    "('p, 'r) native_pool \<Rightarrow> 'p pool_mem \<Rightarrow> ('r \<times> 'p pool_mem) outcome" where
  "native_pending_transactions n = vt_pending_transactions (vtable n) (self_ptr (vtable n))"

definition native_pending_transactions_max ::
    "('p, 'r) native_pool \<Rightarrow> nat \<Rightarrow> 'p pool_mem \<Rightarrow> ('r \<times> 'p pool_mem) outcome" where
  "native_pending_transactions_max n m = vt_pending_transactions_max (vtable n) m (self_ptr (vtable n))"

definition native_queued_transactions ::
    "('p, 'r) native_pool \<Rightarrow> 'p pool_mem \<Rightarrow> ('r \<times> 'p pool_mem) outcome" where
  "native_queued_transactions n = vt_queued_transactions (vtable n) (self_ptr (vtable n))"

definition native_all_transactions ::
    "('p, 'r) native_pool \<Rightarrow> 'p pool_mem \<Rightarrow> ('r \<times> 'p pool_mem) outcome" where
  "native_all_transactions n = vt_all_transactions (vtable n) (self_ptr (vtable n))"

definition native_all_transaction_hashes ::
    "('p, 'r) native_pool \<Rightarrow> 'p pool_mem \<Rightarrow> ('r \<times> 'p pool_mem) outcome" where
  "native_all_transaction_hashes n = vt_all_transactions_hashes (vtable n) (self_ptr (vtable n))"

definition native_remove_transactions ::
    "('p, 'r) native_pool \<Rightarrow> b256 list \<Rightarrow> 'p pool_mem \<Rightarrow> ('r \<times> 'p pool_mem) outcome" where
  "native_remove_transactions n hs = vt_remove_transactions (vtable n) hs (self_ptr (vtable n))"

definition native_remove_transactions_and_descendants ::
    "('p, 'r) native_pool \<Rightarrow> b256 list \<Rightarrow> 'p pool_mem \<Rightarrow> ('r \<times> 'p pool_mem) outcome" where
  "native_remove_transactions_and_descendants n hs = vt_remove_transactions_and_descendants (vtable n) hs (self_ptr (vtable n))"

definition native_remove_transactions_by_sender ::
    "('p, 'r) native_pool \<Rightarrow> address \<Rightarrow> 'p pool_mem \<Rightarrow> ('r \<times> 'p pool_mem) outcome" where
  "native_remove_transactions_by_sender n sender = vt_remove_transactions_by_sender (vtable n) sender (self_ptr (vtable n))"

definition native_retain_unknown :: "('p, 'r) native_pool \<Rightarrow> 'p pool_mem \<Rightarrow> ('r \<times> 'p pool_mem) outcome" where
  "native_retain_unknown n = (\<lambda>m. Unimplemented)"

definition native_contains ::
    "('p, 'r) native_pool \<Rightarrow> b256 \<Rightarrow> 'p pool_mem \<Rightarrow> ('r \<times> 'p pool_mem) outcome" where
  "native_contains n h = vt_contains (vtable n) h (self_ptr (vtable n))"

definition native_get ::
    "('p, 'r) native_pool \<Rightarrow> b256 \<Rightarrow> 'p pool_mem \<Rightarrow> ('r \<times> 'p pool_mem) outcome" where
  "native_get n h = vt_get (vtable n) h (self_ptr (vtable n))"

definition native_get_all ::
    "('p, 'r) native_pool \<Rightarrow> b256 list \<Rightarrow> 'p pool_mem \<Rightarrow> ('r \<times> 'p pool_mem) outcome" where
  "native_get_all n hs = vt_get_all (vtable n) hs (self_ptr (vtable n))"

definition native_on_propagated ::
    "('p, 'r) native_pool \<Rightarrow> propagated \<Rightarrow> 'p pool_mem \<Rightarrow> ('r \<times> 'p pool_mem) outcome" where
  "native_on_propagated n ts = vt_on_propagated (vtable n) ts (self_ptr (vtable n))"

definition native_get_transactions_by_sender ::
    "('p, 'r) native_pool \<Rightarrow> address \<Rightarrow> 'p pool_mem \<Rightarrow> ('r \<times> 'p pool_mem) outcome" where
  "native_get_transactions_by_sender n sender = vt_get_transactions_by_sender (vtable n) sender (self_ptr (vtable n))"

definition native_get_pending_transactions_with_predicate :: "('p, 'r) native_pool \<Rightarrow> 'p pool_mem \<Rightarrow> ('r \<times> 'p pool_mem) outcome" where
  "native_get_pending_transactions_with_predicate n = (\<lambda>m. Unimplemented)"

definition native_get_pending_transactions_by_sender ::
    "('p, 'r) native_pool \<Rightarrow> address \<Rightarrow> 'p pool_mem \<Rightarrow> ('r \<times> 'p pool_mem) outcome" where
  "native_get_pending_transactions_by_sender n sender = vt_get_pending_transactions_by_sender (vtable n) sender (self_ptr (vtable n))"

definition native_get_queued_transactions_by_sender ::
    "('p, 'r) native_pool \<Rightarrow> address \<Rightarrow> 'p pool_mem \<Rightarrow> ('r \<times> 'p pool_mem) outcome" where
  "native_get_queued_transactions_by_sender n sender = vt_get_queued_transactions_by_sender (vtable n) sender (self_ptr (vtable n))"

definition native_get_highest_transaction_by_sender ::
    "('p, 'r) native_pool \<Rightarrow> address \<Rightarrow> 'p pool_mem \<Rightarrow> ('r \<times> 'p pool_mem) outcome" where
  "native_get_highest_transaction_by_sender n sender = vt_get_highest_transaction_by_sender (vtable n) sender (self_ptr (vtable n))"

definition native_get_highest_consecutive_transaction_by_sender ::
    "('p, 'r) native_pool \<Rightarrow> address \<Rightarrow> u64 \<Rightarrow> 'p pool_mem \<Rightarrow> ('r \<times> 'p pool_mem) outcome" where
  "native_get_highest_consecutive_transaction_by_sender n sender nonce = vt_get_highest_consecutive_transaction_by_sender (vtable n) sender nonce (self_ptr (vtable n))"

definition native_get_transaction_by_sender_and_nonce ::
    "('p, 'r) native_pool \<Rightarrow> address \<Rightarrow> u64 \<Rightarrow> 'p pool_mem \<Rightarrow> ('r \<times> 'p pool_mem) outcome" where
  "native_get_transaction_by_sender_and_nonce n sender nonce = vt_get_transaction_by_sender_and_nonce (vtable n) sender nonce (self_ptr (vtable n))"

definition native_get_transactions_by_origin ::
    "('p, 'r) native_pool \<Rightarrow> transaction_origin \<Rightarrow> 'p pool_mem \<Rightarrow> ('r \<times> 'p pool_mem) outcome" where
  "native_get_transactions_by_origin n origin = vt_get_transactions_by_origin (vtable n) origin (self_ptr (vtable n))"

definition native_get_pending_transactions_by_origin ::
    "('p, 'r) native_pool \<Rightarrow> transaction_origin \<Rightarrow> 'p pool_mem \<Rightarrow> ('r \<times> 'p pool_mem) outcome" where
  "native_get_pending_transactions_by_origin n origin = vt_get_pending_transactions_by_origin (vtable n) origin (self_ptr (vtable n))"

definition native_unique_senders ::
    "('p, 'r) native_pool \<Rightarrow> 'p pool_mem \<Rightarrow> ('r \<times> 'p pool_mem) outcome" where
  "native_unique_senders n = vt_unique_senders (vtable n) (self_ptr (vtable n))"

definition native_get_blob ::
    "('p, 'r) native_pool \<Rightarrow> b256 \<Rightarrow> 'p pool_mem \<Rightarrow> ('r \<times> 'p pool_mem) outcome" where
  "native_get_blob n h = vt_get_blob (vtable n) h (self_ptr (vtable n))"

definition native_get_all_blobs ::
    "('p, 'r) native_pool \<Rightarrow> b256 list \<Rightarrow> 'p pool_mem \<Rightarrow> ('r \<times> 'p pool_mem) outcome" where
  "native_get_all_blobs n hs = vt_get_all_blobs (vtable n) hs (self_ptr (vtable n))"

definition native_get_all_blobs_exact ::
    "('p, 'r) native_pool \<Rightarrow> b256 list \<Rightarrow> 'p pool_mem \<Rightarrow> ('r \<times> 'p pool_mem) outcome" where
  "native_get_all_blobs_exact n hs = vt_get_all_blobs_exact (vtable n) hs (self_ptr (vtable n))"

definition native_get_blobs_for_versioned_hashes_v1 ::
    "('p, 'r) native_pool \<Rightarrow> b256 list \<Rightarrow> 'p pool_mem \<Rightarrow> ('r \<times> 'p pool_mem) outcome" where
  "native_get_blobs_for_versioned_hashes_v1 n hs = vt_get_blobs_for_versioned_hashes_v1 (vtable n) hs (self_ptr (vtable n))"

definition native_get_blobs_for_versioned_hashes_v2 ::
    "('p, 'r) native_pool \<Rightarrow> b256 list \<Rightarrow> 'p pool_mem \<Rightarrow> ('r \<times> 'p pool_mem) outcome" where
  "native_get_blobs_for_versioned_hashes_v2 n hs = vt_get_blobs_for_versioned_hashes_v2 (vtable n) hs (self_ptr (vtable n))"

definition native_get_blobs_for_versioned_hashes_v3 ::
    "('p, 'r) native_pool \<Rightarrow> b256 list \<Rightarrow> 'p pool_mem \<Rightarrow> ('r \<times> 'p pool_mem) outcome" where
  "native_get_blobs_for_versioned_hashes_v3 n hs = vt_get_blobs_for_versioned_hashes_v3 (vtable n) hs (self_ptr (vtable n))"

definition native_pending_and_queued_txn_count ::
    "('p, 'r) native_pool \<Rightarrow> 'p pool_mem \<Rightarrow> ('r \<times> 'p pool_mem) outcome" where
  "native_pending_and_queued_txn_count n = vt_pending_and_queued_txn_count (vtable n) (self_ptr (vtable n))"

text \<open>The method of a call.\<close>

fun native_call ::
    "('p, 'r) native_pool \<Rightarrow> pool_call \<Rightarrow> 'p pool_mem \<Rightarrow> ('r \<times> 'p pool_mem) outcome" where
  "native_call n AskPoolSize = native_pool_size n"
| "native_call n AskBlockInfo = native_block_info n"
| "native_call n (AskAddTransactionAndSubscribe origin tx) = native_add_transaction_and_subscribe n origin tx"
| "native_call n (AskAddTransaction origin tx) = native_add_transaction n origin tx"
| "native_call n (AskAddTransactions origin ts) = native_add_transactions n origin ts"
| "native_call n (AskTransactionEventListener h) = native_transaction_event_listener n h"
| "native_call n AskAllTransactionsEventListener = native_all_transactions_event_listener n"
| "native_call n (AskPendingTransactionsListenerFor kind) = native_pending_transactions_listener_for n kind"
| "native_call n AskBlobTransactionSidecarsListener = native_blob_transaction_sidecars_listener n"
| "native_call n (AskNewTransactionsListenerFor kind) = native_new_transactions_listener_for n kind"
| "native_call n AskPooledTransactionHashes = native_pooled_transaction_hashes n"
| "native_call n (AskPooledTransactionHashesMax m) = native_pooled_transaction_hashes_max n m"
| "native_call n AskPooledTransactions = native_pooled_transactions n"
| "native_call n (AskPooledTransactionsMax m) = native_pooled_transactions_max n m"
| "native_call n (AskGetPooledTransactionElements hs lim) = native_get_pooled_transaction_elements n hs lim"
| "native_call n (AskGetPooledTransactionElement h) = native_get_pooled_transaction_element n h"
| "native_call n AskBestTransactions = native_best_transactions n"
| "native_call n (AskBestTransactionsWithAttributes attrs) = native_best_transactions_with_attributes n attrs"
| "native_call n AskPendingTransactions = native_pending_transactions n"
| "native_call n (AskPendingTransactionsMax m) = native_pending_transactions_max n m"
| "native_call n AskQueuedTransactions = native_queued_transactions n"
| "native_call n AskAllTransactions = native_all_transactions n"
| "native_call n AskAllTransactionHashes = native_all_transaction_hashes n"
| "native_call n (AskRemoveTransactions hs) = native_remove_transactions n hs"
| "native_call n (AskRemoveTransactionsAndDescendants hs) = native_remove_transactions_and_descendants n hs"
| "native_call n (AskRemoveTransactionsBySender sender) = native_remove_transactions_by_sender n sender"
| "native_call n AskRetainUnknown = native_retain_unknown n"
| "native_call n (AskContains h) = native_contains n h"
| "native_call n (AskGet h) = native_get n h"
| "native_call n (AskGetAll hs) = native_get_all n hs"
| "native_call n (AskOnPropagated ts) = native_on_propagated n ts"
| "native_call n (AskGetTransactionsBySender sender) = native_get_transactions_by_sender n sender"
| "native_call n AskGetPendingTransactionsWithPredicate = native_get_pending_transactions_with_predicate n"
| "native_call n (AskGetPendingTransactionsBySender sender) = native_get_pending_transactions_by_sender n sender"
| "native_call n (AskGetQueuedTransactionsBySender sender) = native_get_queued_transactions_by_sender n sender"
| "native_call n (AskGetHighestTransactionBySender sender) = native_get_highest_transaction_by_sender n sender"
| "native_call n (AskGetHighestConsecutiveTransactionBySender sender nonce) = native_get_highest_consecutive_transaction_by_sender n sender nonce"
| "native_call n (AskGetTransactionBySenderAndNonce sender nonce) = native_get_transaction_by_sender_and_nonce n sender nonce"
| "native_call n (AskGetTransactionsByOrigin origin) = native_get_transactions_by_origin n origin"
| "native_call n (AskGetPendingTransactionsByOrigin origin) = native_get_pending_transactions_by_origin n origin"
| "native_call n AskUniqueSenders = native_unique_senders n"
| "native_call n (AskGetBlob h) = native_get_blob n h"
| "native_call n (AskGetAllBlobs hs) = native_get_all_blobs n hs"
| "native_call n (AskGetAllBlobsExact hs) = native_get_all_blobs_exact n hs"
| "native_call n (AskGetBlobsForVersionedHashesV1 hs) = native_get_blobs_for_versioned_hashes_v1 n hs"
| "native_call n (AskGetBlobsForVersionedHashesV2 hs) = native_get_blobs_for_versioned_hashes_v2 n hs"
| "native_call n (AskGetBlobsForVersionedHashesV3 hs) = native_get_blobs_for_versioned_hashes_v3 n hs"
| "native_call n AskPendingAndQueuedTxnCount = native_pending_and_queued_txn_count n"

lemmas native_defs =
  native_pool_size_def native_block_info_def native_add_transaction_and_subscribe_def 
  native_add_transaction_def native_add_transactions_def native_transaction_event_listener_def 
  native_all_transactions_event_listener_def native_pending_transactions_listener_for_def 
  native_blob_transaction_sidecars_listener_def native_new_transactions_listener_for_def 
  native_pooled_transaction_hashes_def native_pooled_transaction_hashes_max_def 
  native_pooled_transactions_def native_pooled_transactions_max_def 
  native_get_pooled_transaction_elements_def native_get_pooled_transaction_element_def 
  native_best_transactions_def native_best_transactions_with_attributes_def 
  native_pending_transactions_def native_pending_transactions_max_def native_queued_transactions_def 
  native_all_transactions_def native_all_transaction_hashes_def native_remove_transactions_def 
  native_remove_transactions_and_descendants_def native_remove_transactions_by_sender_def 
  native_retain_unknown_def native_contains_def native_get_def native_get_all_def 
  native_on_propagated_def native_get_transactions_by_sender_def 
  native_get_pending_transactions_with_predicate_def native_get_pending_transactions_by_sender_def 
  native_get_queued_transactions_by_sender_def native_get_highest_transaction_by_sender_def 
  native_get_highest_consecutive_transaction_by_sender_def 
  native_get_transaction_by_sender_and_nonce_def native_get_transactions_by_origin_def 
  native_get_pending_transactions_by_origin_def native_unique_senders_def native_get_blob_def 
  native_get_all_blobs_def native_get_all_blobs_exact_def native_get_blobs_for_versioned_hashes_v1_def 
  native_get_blobs_for_versioned_hashes_v2_def native_get_blobs_for_versioned_hashes_v3_def 
  native_pending_and_queued_txn_count_def

subsection \<open>Handles\<close>

text \<open>
  The adapters of a program: live handles on one pool. A handle is cloned, dropped or called;
  an action on a handle that does not exist cannot be written. A panic or undefined behaviour is
  \<open>None\<close>. The replies are kept.
\<close>

record ('p, 'r) handles =
  hs_live :: "('p, 'r) native_pool list"
  hs_mem :: "'p pool_mem"
  hs_replies :: "'r list"

datatype handle_act = HandleClone nat | HandleDrop nat | HandleCall nat pool_call

fun act_handle :: "handle_act \<Rightarrow> nat" where
  "act_handle (HandleClone i) = i"
| "act_handle (HandleDrop i) = i"
| "act_handle (HandleCall i c) = i"

fun on_handle ::
    "nat \<Rightarrow> handle_act \<Rightarrow> ('p, 'r) native_pool \<Rightarrow> ('p, 'r) handles \<Rightarrow> ('p, 'r) handles outcome" where
  "on_handle psize (HandleClone i) n s =
     (case native_clone psize n (hs_mem s) of
        Returned (n', m) \<Rightarrow> Returned (s\<lparr>hs_live := hs_live s @ [n'], hs_mem := m\<rparr>)
      | Unimplemented \<Rightarrow> Unimplemented | Undefined \<Rightarrow> Undefined)"
| "on_handle psize (HandleDrop i) n s =
     (case native_drop psize n (hs_mem s) of
        Returned m \<Rightarrow> Returned (s\<lparr>hs_live := list_remove i (hs_live s), hs_mem := m\<rparr>)
      | Unimplemented \<Rightarrow> Unimplemented | Undefined \<Rightarrow> Undefined)"
| "on_handle psize (HandleCall i c) n s =
     (case native_call n c (hs_mem s) of
        Returned (r, m) \<Rightarrow> Returned (s\<lparr>hs_mem := m, hs_replies := hs_replies s @ [r]\<rparr>)
      | Unimplemented \<Rightarrow> Unimplemented | Undefined \<Rightarrow> Undefined)"

definition handle_step :: "nat \<Rightarrow> handle_act \<Rightarrow> ('p, 'r) handles \<Rightarrow> ('p, 'r) handles option" where
  "handle_step psize a s =
     (if act_handle a < length (hs_live s)
      then (case on_handle psize a (hs_live s ! act_handle a) s of Returned s' \<Rightarrow> Some s' | _ \<Rightarrow> None)
      else Some s)"

text \<open>The first handle, on a pool that is in the memory behind an \<open>Arc\<close>.\<close>

definition handles_start ::
    "('p \<Rightarrow> pool_call \<Rightarrow> 'r \<times> 'p) \<Rightarrow> nat \<Rightarrow> 'p pool_mem \<Rightarrow> ('p, 'r) handles" where
  "handles_start reth arc m =
     (case native_new reth arc m of (n, m') \<Rightarrow> \<lparr>hs_live = [n], hs_mem = m', hs_replies = []\<rparr>)"

text \<open>The specification: some number of handles on one pool.\<close>

fun pool_step :: "('p \<Rightarrow> pool_call \<Rightarrow> 'r \<times> 'p) \<Rightarrow> handle_act \<Rightarrow> nat \<times> 'p \<times> 'r list \<Rightarrow> nat \<times> 'p \<times> 'r list" where
  "pool_step reth (HandleClone i) (k, p, rs) = (if i < k then (Suc k, p, rs) else (k, p, rs))"
| "pool_step reth (HandleDrop i) (k, p, rs) = (if i < k then (k - 1, p, rs) else (k, p, rs))"
| "pool_step reth (HandleCall i c) (k, p, rs) =
     (if i < k then (case reth p c of (r, p') \<Rightarrow> (k, p', rs @ [r])) else (k, p, rs))"

fun implemented :: "handle_act \<Rightarrow> bool" where
  "implemented (HandleCall i c) \<longleftrightarrow> c \<noteq> AskRetainUnknown \<and> c \<noteq> AskGetPendingTransactionsWithPredicate"
| "implemented _ \<longleftrightarrow> True"

definition handle_ok :: "('p \<Rightarrow> pool_call \<Rightarrow> 'r \<times> 'p) \<Rightarrow> nat \<Rightarrow> 'p pool_mem \<Rightarrow> ('p, 'r) native_pool \<Rightarrow> bool" where
  "handle_ok reth arc m n \<longleftrightarrow> (\<exists>ptr < pm_next m. vtable n = vtable_at reth ptr \<and> pm_boxes m ptr = Some arc)"

definition handles_ok :: "('p \<Rightarrow> pool_call \<Rightarrow> 'r \<times> 'p) \<Rightarrow> nat \<Rightarrow> ('p, 'r) handles \<Rightarrow> bool" where
  "handles_ok reth arc s \<longleftrightarrow>
     list_all (handle_ok reth arc (hs_mem s)) (hs_live s) \<and> pm_arcs (hs_mem s) arc \<noteq> None"

definition handles_abs :: "nat \<Rightarrow> ('p, 'r) handles \<Rightarrow> nat \<times> 'p \<times> 'r list" where
  "handles_abs arc s = (length (hs_live s), snd (the (pm_arcs (hs_mem s) arc)), hs_replies s)"

definition strong_count :: "nat \<Rightarrow> 'p pool_mem \<Rightarrow> nat" where
  "strong_count arc m = (case pm_arcs m arc of Some (n, p) \<Rightarrow> n | None \<Rightarrow> 0)"

lemma native_call_at:
  assumes "vtable n = vtable_at reth ptr"
  shows "native_call n c m =
    (if c = AskRetainUnknown \<or> c = AskGetPendingTransactionsWithPredicate then Unimplemented else on_pool reth c ptr m)"
  by (cases c) (simp_all add: native_defs assms, simp_all add: vtable_at_def)

lemma native_clone_at:
  assumes "vtable n = vtable_at reth ptr" "pm_boxes m ptr = Some arc" "pm_arcs m arc = Some (k, p)"
  shows "native_clone 0 n m =
    Returned (\<lparr>vtable = vtable_at reth (pm_next m)\<rparr>,
      m\<lparr>pm_boxes := (pm_boxes m)(pm_next m \<mapsto> arc), pm_arcs := (pm_arcs m)(arc \<mapsto> (Suc k, p)), pm_next := Suc (pm_next m)\<rparr>)"
proof -
  have "(vtable_at reth ptr)\<lparr>self_ptr := q\<rparr> = vtable_at reth q" "self_ptr (vtable_at reth ptr) = ptr"
    "vt_clone (vtable_at reth ptr) = clone_box" for q
    by (simp_all add: vtable_at_def)
  then show ?thesis
    using assms(2,3)
    by (simp add: native_clone_def vtable_clone_def clone_box_def vtable_drop_def box_into_raw_def arc_clone_def assms(1))
qed

lemma handle_ok_at:
  "ptr < pm_next m \<Longrightarrow> pm_boxes m ptr = Some arc \<Longrightarrow> handle_ok reth arc m \<lparr>vtable = vtable_at reth ptr\<rparr>"
  by (auto simp: handle_ok_def)

lemma handle_ok_mono:
  assumes "handle_ok reth arc m n" "pm_next m \<le> pm_next m'" "\<And>ptr. ptr < pm_next m \<Longrightarrow> pm_boxes m' ptr = pm_boxes m ptr"
  shows "handle_ok reth arc m' n"
  using assms unfolding handle_ok_def by (metis order_less_le_trans)

text \<open>The counts of the machine's strong references: one more for a clone, never one less.\<close>

fun clones_of :: "handle_act \<Rightarrow> ('p, 'r) handles \<Rightarrow> nat" where
  "clones_of (HandleClone i) s = (if i < length (hs_live s) then 1 else 0)"
| "clones_of _ s = 0"

lemma handle_step_ok:
  assumes "handles_ok reth arc s" "implemented a"
  shows "\<exists>s'. handle_step 0 a s = Some s' \<and> handles_ok reth arc s' \<and>
    handles_abs arc s' = pool_step reth a (handles_abs arc s) \<and>
    strong_count arc (hs_mem s') = strong_count arc (hs_mem s) + clones_of a s"
proof (cases "act_handle a < length (hs_live s)")
  case False
  with assms show ?thesis by (cases a) (simp_all add: handle_step_def handles_abs_def)
next
  case True
  obtain k p where kp: "pm_arcs (hs_mem s) arc = Some (k, p)" using assms(1) by (auto simp: handles_ok_def)
  from assms(1) True have "handle_ok reth arc (hs_mem s) (hs_live s ! act_handle a)"
    by (simp add: handles_ok_def list_all_length)
  then obtain ptr where ptr: "vtable (hs_live s ! act_handle a) = vtable_at reth ptr"
    "pm_boxes (hs_mem s) ptr = Some arc" by (auto simp: handle_ok_def)
  show ?thesis
  proof (cases a)
    case (HandleClone i)
    have "handle_ok reth arc m' n" if "n \<in> set (hs_live s)" "pm_next (hs_mem s) \<le> pm_next m'"
      "\<And>ptr. ptr < pm_next (hs_mem s) \<Longrightarrow> pm_boxes m' ptr = pm_boxes (hs_mem s) ptr" for m' n
      using handle_ok_mono [OF _ that(2,3)] assms(1) that(1) by (auto simp: handles_ok_def list_all_iff)
    with HandleClone True kp native_clone_at [OF ptr kp] show ?thesis
      by (auto simp: handle_step_def handles_ok_def handles_abs_def strong_count_def list_all_iff intro: handle_ok_at)
  next
    case (HandleDrop i)
    have "list_all P (list_remove i xs)" if "list_all P xs" for P and xs :: "('a, 'b) native_pool list"
      using that by (auto simp: list_remove_def list_all_iff dest: in_set_takeD in_set_dropD)
    with HandleDrop True kp assms(1) show ?thesis
      by (auto simp: handle_step_def native_drop_def vtable_drop_def handles_ok_def handles_abs_def list_remove_def)
  next
    case (HandleCall i c)
    have "handle_ok reth arc (m\<lparr>pm_arcs := x\<rparr>) = handle_ok reth arc m" for m x
      by (auto simp: handle_ok_def)
    with HandleCall True kp assms ptr native_call_at [OF ptr(1), of c "hs_mem s"] show ?thesis
      by (cases "reth p c") (auto simp: handle_step_def on_pool_def handles_ok_def handles_abs_def strong_count_def)
  qed
qed

interpretation native: panic_free "handle_step 0" implemented "handles_ok reth arc" for reth arc
  by unfold_locales (use handle_step_ok in blast)

lemma handles_start_ok:
  assumes "pm_arcs m arc = Some (k, p)"
  shows "handles_ok reth arc (handles_start reth arc m)" "handles_abs arc (handles_start reth arc m) = (1, p, [])"
    and "strong_count arc (hs_mem (handles_start reth arc m)) = k"
  using assms
  by (simp_all add: handles_start_def native_new_def vtable_new_def box_into_raw_def handles_ok_def handle_ok_at
      handles_abs_def strong_count_def)

lemma handles_run:
  assumes "handles_ok reth arc s" "list_all implemented as"
  shows "\<exists>s'. run_acts (handle_step 0) as s = Some s' \<and> handles_ok reth arc s' \<and>
    handles_abs arc s' = fold (pool_step reth) as (handles_abs arc s) \<and>
    strong_count arc (hs_mem s) \<le> strong_count arc (hs_mem s')"
  using assms
proof (induction as arbitrary: s)
  case (Cons a as)
  from handle_step_ok [OF Cons.prems(1), of a] Cons.prems(2) obtain s1 where
    s1: "handle_step 0 a s = Some s1" "handles_ok reth arc s1" "handles_abs arc s1 = pool_step reth a (handles_abs arc s)"
    "strong_count arc (hs_mem s) \<le> strong_count arc (hs_mem s1)" by auto
  with Cons.IH [OF s1(2)] Cons.prems(2) show ?case by (fastforce intro: order_trans)
qed simp

subsection \<open>Properties\<close>

text \<open>
  Claim C30: on a platform of size 0, the adapters are one pool. However handles are cloned, dropped
  and called, no call but the two unimplemented ones panics and no memory is misused; each call
  has the reply, and the pool the state, that calling reth's pool directly gives, whichever handle
  it goes through.
\<close>

theorem native_pool_forwards:
  assumes "pm_arcs m arc = Some (k, p)" "list_all implemented as"
  shows "\<exists>s. run_acts (handle_step 0) as (handles_start reth arc m) = Some s \<and>
    handles_abs arc s = fold (pool_step reth) as (1, p, [])"
  using handles_run [OF handles_start_ok(1) [OF assms(1)] assms(2)] handles_start_ok(2) [OF assms(1)] by metis

definition sample_reth :: "b256 list \<Rightarrow> pool_call \<Rightarrow> nat \<times> b256 list" where
  "sample_reth p c =
     (case c of
        AskRemoveTransactions hs \<Rightarrow> (length (filter (\<lambda>h. h \<in> set hs) p), filter (\<lambda>h. h \<notin> set hs) p)
      | _ \<Rightarrow> (length p, p))"

theorem native_pool_forwards_witness:
  "\<exists>s. run_acts (handle_step 0)
       [HandleClone 0, HandleCall 1 (AskRemoveTransactions [7]), HandleDrop 1, HandleCall 0 AskPoolSize]
       (handles_start sample_reth 3 \<lparr>pm_boxes = Map.empty, pm_arcs = [3 \<mapsto> (1, [7, 8, 9])], pm_next = 0\<rparr>) = Some s \<and>
     handles_abs 3 s = (1, [8, 9], [1, 2])"
  using native_pool_forwards [of "\<lparr>pm_boxes = Map.empty, pm_arcs = [3 \<mapsto> (1, [7, 8, 9])], pm_next = 0\<rparr>" 3 1 "[7, 8, 9]"
      "[HandleClone 0, HandleCall 1 (AskRemoveTransactions [7]), HandleDrop 1, HandleCall 0 AskPoolSize]" sample_reth]
  by (simp add: sample_reth_def numeral_2_eq_2)

text \<open>
  Dropping a handle frees nothing: the strong count of the pool never falls, so the pool outlives
  all its handles.
\<close>

theorem dropped_handles_leak:
  assumes "pm_arcs m arc = Some (k, p)" "list_all implemented as"
    and "run_acts (handle_step 0) as (handles_start reth arc m) = Some s"
  shows "k \<le> strong_count arc (hs_mem s)"
  using handles_run [OF handles_start_ok(1) [OF assms(1), of reth] assms(2)] handles_start_ok(3) [OF assms(1), of reth]
    assms(3) by auto

text \<open>On a platform with fields, neither a clone nor the end of a handle is defined.\<close>

theorem sized_platform_undefined:
  assumes "0 < psize" "handles_ok reth arc s" "i < length (hs_live s)"
  shows "handle_step psize (HandleClone i) s = None \<and> handle_step psize (HandleDrop i) s = None"
proof -
  have "handle_ok reth arc (hs_mem s) (hs_live s ! i)" using assms(2,3) by (simp add: handles_ok_def list_all_length)
  then obtain ptr where ptr: "vtable (hs_live s ! i) = vtable_at reth ptr" by (auto simp: handle_ok_def)
  then have "native_clone psize (hs_live s ! i) (hs_mem s) = Undefined"
    using assms(1)
    by (simp add: native_clone_def vtable_clone_def vtable_drop_def Let_def clone_box_def vtable_at_def split: option.splits)
  with assms(1,3) show ?thesis by (simp add: handle_step_def native_drop_def vtable_drop_def)
qed

subsection \<open>The adapter as the system pool of the order pool\<close>

text \<open>
  What the order pool uses of the system pool, once through an adapter and once on reth's pool.
  The function \<open>txs_of\<close> reads the transactions of a reply.
\<close>

definition native_ops :: "('r \<Rightarrow> recovered_tx list) \<Rightarrow> (('p, 'r) native_pool \<times> 'p pool_mem) pool_ops" where
  "native_ops txs_of =
     \<lparr>remove_transactions = (\<lambda>hs (n, m). case native_remove_transactions n hs m of Returned (r, m') \<Rightarrow> (n, m') | _ \<Rightarrow> (n, m)),
      best_transactions = (\<lambda>(n, m). case native_best_transactions n m of Returned (r, m') \<Rightarrow> txs_of r | _ \<Rightarrow> [])\<rparr>"

definition reth_ops :: "('r \<Rightarrow> recovered_tx list) \<Rightarrow> ('p \<Rightarrow> pool_call \<Rightarrow> 'r \<times> 'p) \<Rightarrow> 'p pool_ops" where
  "reth_ops txs_of reth =
     \<lparr>remove_transactions = (\<lambda>hs p. snd (reth p (AskRemoveTransactions hs))),
      best_transactions = (\<lambda>p. txs_of (fst (reth p AskBestTransactions)))\<rparr>"

lemma adapter_ops:
  assumes "handle_ok reth arc m n" "pm_arcs m arc = Some (k, p)"
  shows "best_transactions (native_ops txs_of) (n, m) = best_transactions (reth_ops txs_of reth) p"
    and "\<exists>m'. remove_transactions (native_ops txs_of) hs (n, m) = (n, m') \<and> handle_ok reth arc m' n \<and>
      pm_arcs m' arc = Some (k, remove_transactions (reth_ops txs_of reth) hs p)"
proof -
  obtain ptr where ptr: "vtable n = vtable_at reth ptr" "pm_boxes m ptr = Some arc"
    using assms(1) by (auto simp: handle_ok_def)
  note call = native_call_at [OF ptr(1), of AskBestTransactions] native_call_at [OF ptr(1), of "AskRemoveTransactions hs"]
  have run: "native_best_transactions n m = on_pool reth AskBestTransactions ptr m"
    "native_remove_transactions n hs m = on_pool reth (AskRemoveTransactions hs) ptr m"
    using call by simp_all
  show "best_transactions (native_ops txs_of) (n, m) = best_transactions (reth_ops txs_of reth) p"
    by (simp add: native_ops_def reth_ops_def run on_pool_def ptr(2) assms(2) split: prod.split)
  have "handle_ok reth arc (m\<lparr>pm_arcs := x\<rparr>) n" for x using assms(1) by (auto simp: handle_ok_def)
  then show "\<exists>m'. remove_transactions (native_ops txs_of) hs (n, m) = (n, m') \<and> handle_ok reth arc m' n \<and>
      pm_arcs m' arc = Some (k, remove_transactions (reth_ops txs_of reth) hs p)"
    by (cases "reth p (AskRemoveTransactions hs)")
      (simp add: native_ops_def reth_ops_def run on_pool_def ptr(2) assms(2))
qed

text \<open>The orders offered for a block are those offered with reth's pool itself.\<close>

lemma adapter_offers_same_orders:
  assumes "handle_ok reth arc m n" "pm_arcs m arc = Some (k, p)"
  shows "best_orders_for_block (native_ops txs_of) block
      \<lparr>orders = os, tx_map = tm, host = Some \<lparr>system_pool = (n, m), tip_header = tip\<rparr>\<rparr> =
    best_orders_for_block (reth_ops txs_of reth) block
      \<lparr>orders = os, tx_map = tm, host = Some \<lparr>system_pool = p, tip_header = tip\<rparr>\<rparr>"
  using adapter_ops(1) [OF assms] by (simp add: best_orders_eq)

end
