(* ===== verification/Metrics_Set.thy ===== *)
theory Metrics_Set
  imports Step_Instances Combinators
begin

section \<open>Generated code: metrics sets and tuples of steps\<close>

text \<open>
  The procedural macros of \<open>crates/pipeline-macros\<close> as functions from the syntax they are given to
  what the generated code does: the derivation of \<open>MetricsSet\<close> (\<open>metrics/set.rs\<close>) and the
  implementations of \<open>IntoPipeline\<close> for tuples (\<open>variants.rs\<close>). The parser of Rust is external: an
  attribute comes as its path, the tokens of its arguments and the literal of its value. The
  structs of the repository that derive \<open>MetricsSet\<close> are given as syntax, and it is shown when the
  names of all metrics of a pipeline are different.
\<close>

subsection \<open>Syntax\<close>

datatype lit = LitStr string | LitOther

text \<open>The arguments of an attribute: a path has one or more segments.\<close>

datatype attr_token = TokPath "string list" | TokEq | TokLit lit | TokComma | TokOther

record attribute =
  at_path :: "string list"
  at_args :: "attr_token list option"
  at_value :: "lit option"

text \<open>A type: the segments of a path, each with whether it has arguments, or something else.\<close>

datatype field_type = TypePath "(string \<times> bool) list" | TypeOther

record struct_field =
  sf_ident :: string
  sf_type :: field_type
  sf_attrs :: "attribute list"

datatype struct_fields = Named "struct_field list" | NotNamed

datatype derive_data = Struct struct_fields | NotStruct

datatype derive_error =
    OnlyForStructs | OnlyNamedFields | UnsupportedFieldType
  | NoArguments | ExpectedPath | ExpectedIdentifier | ExpectedEq | ExpectedLiteral
  | RenameNotString | DescribeNotString | UnsupportedKey

subsection \<open>Derivation of \<open>MetricsSet\<close>\<close>

datatype metric_kind = CounterKind | GaugeKind | HistogramKind | OtherKind

definition classify :: "field_type \<Rightarrow> metric_kind" where
  "classify ty =
     (case ty of
        TypePath segs \<Rightarrow>
          (if segs = [] then OtherKind
           else case last segs of (ident, has_args) \<Rightarrow>
             if has_args then OtherKind
             else if ident = ''Counter'' then CounterKind
             else if ident = ''Gauge'' then GaugeKind
             else if ident = ''Histogram'' then HistogramKind
             else OtherKind)
      | TypeOther \<Rightarrow> OtherKind)"

text \<open>The loop over the arguments; a comma is optional after each pair.\<close>

definition skip_comma :: "attr_token list \<Rightarrow> attr_token list" where
  "skip_comma ts = (case ts of TokComma # rest \<Rightarrow> rest | _ \<Rightarrow> ts)"

lemma skip_comma_length: "length (skip_comma ts) \<le> length ts"
  by (simp add: skip_comma_def split: list.split attr_token.split)

function parse_metric_args ::
    "attr_token list \<Rightarrow> string option \<times> string option \<Rightarrow> derive_error + string option \<times> string option" where
  "parse_metric_args ts (rename, describe) =
     (case ts of
        [] \<Rightarrow> Inr (rename, describe)
      | TokPath path # ts1 \<Rightarrow>
          (case path of
             [ident] \<Rightarrow>
               (case ts1 of
                  TokEq # ts2 \<Rightarrow>
                    (case ts2 of
                       TokLit l # ts3 \<Rightarrow>
                         if ident = ''rename'' then
                           (case l of
                              LitStr s \<Rightarrow> parse_metric_args (skip_comma ts3) (Some s, describe)
                            | LitOther \<Rightarrow> Inl RenameNotString)
                         else if ident = ''describe'' then
                           (case l of
                              LitStr s \<Rightarrow> parse_metric_args (skip_comma ts3) (rename, Some s)
                            | LitOther \<Rightarrow> Inl DescribeNotString)
                         else Inl UnsupportedKey
                     | _ \<Rightarrow> Inl ExpectedLiteral)
                | _ \<Rightarrow> Inl ExpectedEq)
           | _ \<Rightarrow> Inl ExpectedIdentifier)
      | _ \<Rightarrow> Inl ExpectedPath)"
  by pat_completeness auto
termination
  by (relation "measure (\<lambda>(ts, _). length ts)") (use skip_comma_length le_imp_less_Suc in \<open>auto simp: less_Suc_eq_le intro: le_SucI\<close>)

declare parse_metric_args.simps [simp del]

definition parse_metric_attr ::
    "attribute \<Rightarrow> string option \<times> string option \<Rightarrow> derive_error + string option \<times> string option" where
  "parse_metric_attr attr acc =
     (case at_args attr of None \<Rightarrow> Inl NoArguments | Some ts \<Rightarrow> parse_metric_args ts acc)"

text \<open>\<open>str::trim\<close>, on the white space of ASCII.\<close>

definition white :: "char \<Rightarrow> bool" where
  "white c \<longleftrightarrow> c \<in> {CHR '' '', CHR 0x09, CHR 0x0A, CHR 0x0B, CHR 0x0C, CHR 0x0D}"

definition trim :: "string \<Rightarrow> string" where
  "trim s = rev (dropWhile white (rev (dropWhile white s)))"

definition extract_doc :: "attribute \<Rightarrow> string option" where
  "extract_doc attr =
     (if at_path attr \<noteq> [''doc''] then None
      else case at_value attr of
        Some (LitStr s) \<Rightarrow> (let line = trim s in if line = [] then None else Some line)
      | _ \<Rightarrow> None)"

fun join :: "string \<Rightarrow> string list \<Rightarrow> string" where
  "join sep [] = []"
| "join sep [w] = w"
| "join sep (w # w' # ws) = w @ sep @ join sep (w' # ws)"

record field_meta =
  fm_field :: string
  fm_kind :: metric_kind
  fm_name :: string
  fm_description :: string

text \<open>One turn of the loop over the fields: all attributes are parsed before the type is looked at.\<close>

fun metric_attrs ::
    "attribute list \<Rightarrow> string option \<times> string option \<Rightarrow> derive_error + string option \<times> string option" where
  "metric_attrs [] acc = Inr acc"
| "metric_attrs (attr # rest) acc =
     (if at_path attr = [''metric'']
      then and_then (parse_metric_attr attr acc) (metric_attrs rest)
      else metric_attrs rest acc)"

definition field_meta_of :: "struct_field \<Rightarrow> derive_error + field_meta" where
  "field_meta_of field =
     and_then (metric_attrs (sf_attrs field) (None, None)) (\<lambda>(rename, describe).
       let doc_joined = join '' '' (List.map_filter extract_doc (sf_attrs field));
           kind = classify (sf_type field)
       in if kind = OtherKind then Inl UnsupportedFieldType
          else Inr \<lparr>fm_field = sf_ident field, fm_kind = kind,
                    fm_name = (case rename of Some n \<Rightarrow> n | None \<Rightarrow> sf_ident field),
                    fm_description = (case describe of Some d \<Rightarrow> d | None \<Rightarrow> doc_joined)\<rparr>)"

fun field_metas :: "struct_field list \<Rightarrow> derive_error + field_meta list" where
  "field_metas [] = Inr []"
| "field_metas (f # fs) = and_then (field_meta_of f) (\<lambda>m. and_then (field_metas fs) (\<lambda>ms. Inr (m # ms)))"

definition metrics_set_derive :: "derive_data \<Rightarrow> derive_error + field_meta list" where
  "metrics_set_derive input =
     (case input of
        NotStruct \<Rightarrow> Inl OnlyForStructs
      | Struct NotNamed \<Rightarrow> Inl OnlyNamedFields
      | Struct (Named fs) \<Rightarrow> field_metas fs)"

text \<open>
  The generated code: \<open>default\<close> gives handles that record nothing, \<open>with_scope\<close> describes and
  registers the metrics with the recorder, field by field.
\<close>

datatype recorder_call = Describe metric_kind string string | Register metric_kind string

definition default_set :: "field_meta list \<Rightarrow> (string \<times> metric_kind) list" where
  "default_set metas = map (\<lambda>m. (fm_field m, fm_kind m)) metas"

definition full_name :: "string \<Rightarrow> string \<Rightarrow> string" where
  "full_name scope short_name = scope @ ''_'' @ short_name"

definition init_field :: "string \<Rightarrow> field_meta \<Rightarrow> recorder_call list" where
  "init_field scope m =
     (let name = full_name scope (fm_name m) in
      (if fm_description m = [] then [] else [Describe (fm_kind m) name (fm_description m)]) @
      [Register (fm_kind m) name])"

definition with_scope :: "string \<Rightarrow> field_meta list \<Rightarrow> recorder_call list" where
  "with_scope scope metas = concat (map (init_field scope) metas)"

subsection \<open>Tuples of steps\<close>

datatype generated = DefaultPipeline | WithStep generated string

record tuple_impl =
  ti_params :: "string list"
  ti_vars :: "string list"
  ti_body :: generated

definition generate_tuple_impl :: "nat \<Rightarrow> tuple_impl" where
  "generate_tuple_impl n =
     (let step_params = map (\<lambda>i. CHR ''S'' # decimal i) [0..<n];
          step_vars = map (\<lambda>i. ''step'' @ decimal i) [0..<n]
      in \<lparr>ti_params = step_params, ti_vars = step_vars,
          ti_body = foldl WithStep DefaultPipeline step_vars\<rparr>)"

definition impl_into_pipeline_steps :: "nat \<Rightarrow> tuple_impl list" where
  "impl_into_pipeline_steps count_value = map generate_tuple_impl [2..<Suc count_value]"

text \<open>Running a generated \<open>into_pipeline\<close> on a tuple: the variables are bound to its components.\<close>

fun run_generated :: "('s, 'l) pipeline option \<Rightarrow> (string \<rightharpoonup> 's) \<Rightarrow> generated \<Rightarrow> ('s, 'l) pipeline option" where
  "run_generated dflt env DefaultPipeline = dflt"
| "run_generated dflt env (WithStep g v) =
     (case (run_generated dflt env g, env v) of (Some p, Some s) \<Rightarrow> Some (with_step p s) | _ \<Rightarrow> None)"

definition run_tuple_impl :: "string \<Rightarrow> u32 \<Rightarrow> tuple_impl \<Rightarrow> 's list \<Rightarrow> ('s, 'l) pipeline option" where
  "run_tuple_impl caller_file caller_line t steps_of =
     (if length steps_of = length (ti_vars t)
      then run_generated (pipeline_default caller_file caller_line) (map_of (zip (ti_vars t) steps_of)) (ti_body t)
      else None)"

subsection \<open>The metrics sets of the repository\<close>

text \<open>A field with its documentation, one attribute for each line.\<close>

definition metric_field :: "string \<Rightarrow> string \<Rightarrow> string list \<Rightarrow> struct_field" where
  "metric_field ident ty docs =
     \<lparr>sf_ident = ident, sf_type = TypePath [(ty, False)],
      sf_attrs = map (\<lambda>d. \<lparr>at_path = [''doc''], at_args = None, at_value = Some (LitStr d)\<rparr>) docs\<rparr>"

definition payload_metrics_struct :: "struct_field list" where
  "payload_metrics_struct =
     [metric_field ''jobs_started'' ''Counter''
         ['' Number of new payload jobs that have started.''],
      metric_field ''jobs_completed'' ''Counter''
         ['' Number of payload jobs that have produced a block payload successfully.''],
      metric_field ''jobs_failed'' ''Counter''
         ['' Number of payload jobs that have started and failed to produce a block'',
          '' payload.''],
      metric_field ''tx_count_histogram'' ''Histogram''
         ['' Number of transactions in a produced payload.''],
      metric_field ''tx_count_total'' ''Counter''
         ['' Total number of transactions in all produced payloads.''],
      metric_field ''gas_used_histogram'' ''Histogram''
         ['' Amount of gas used by transactions in a produced payload.''],
      metric_field ''gas_used_total'' ''Counter''
         ['' Total gas used by all produced payloads.''],
      metric_field ''gas_utilized'' ''Histogram''
         ['' The percentage of gas utilized by transactions in a produced payload.''],
      metric_field ''blob_gas_histogram'' ''Histogram''
         ['' Amount of gas used by blob transactions in a produced payload.''],
      metric_field ''blob_gas_total'' ''Counter''
         ['' Total blob gas used by all blob transactions in all produced payloads.''],
      metric_field ''blob_gas_utilized'' ''Histogram''
         ['' The percentage of gas utilized by blob transactions in a produced'',
          '' payload.''],
      metric_field ''fees_histogram'' ''Histogram''
         ['' Fees paid by transactions in a produced payload.''],
      metric_field ''fees_total'' ''Counter''
         ['' Total fees accumulated by all produced payloads.''],
      metric_field ''job_deadline'' ''Gauge''
         ['' The time given by the EL for the payload job to complete.'',
          '' This can be also interpreted as the block time.''],
      metric_field ''block_number'' ''Counter''
         ['' The latest block number produced by the payload builder.'',
          '' This is not a `Gauge` because `Gauge` does not support `u64`.'']]"

definition step_metrics_struct :: "struct_field list" where
  "step_metrics_struct =
     [metric_field ''invoked_total'' ''Counter''
         ['' The total number of times this step's `step` method has been invoked.''],
      metric_field ''invoked_per_job'' ''Histogram''
         ['' The total number of times this step's `step` method has been invoked per'',
          '' payload job.''],
      metric_field ''before_job_invoked_total'' ''Counter''
         ['' The total number of times this step's `before_job` method has been'',
          '' invoked.''],
      metric_field ''before_job_failed_total'' ''Counter''
         ['' The number of times `before_job` has failed.''],
      metric_field ''before_job_exec_duration_histogram'' ''Histogram''
         ['' The duration of time spent executing this step's `before_job` method.''],
      metric_field ''before_job_exec_duration_total_millis'' ''Counter''
         ['' The cumulative number of milliseconds spent executing this step's'',
          '' `before_job` method across all runs.''],
      metric_field ''after_job_invoked_total'' ''Counter''
         ['' The total number of times this step's `after_job` method has been'',
          '' invoked.''],
      metric_field ''after_job_failed_total'' ''Counter''
         ['' The number of times `after_job` has failed.''],
      metric_field ''after_job_exec_duration_histogram'' ''Histogram''
         ['' The duration of time spent executing this step's `after_job` method.''],
      metric_field ''after_job_exec_duration_total_millis'' ''Counter''
         ['' The cumulative number of milliseconds spent executing this step's'',
          '' `after_job` method across all runs.''],
      metric_field ''ok_total'' ''Counter''
         ['' The total number of times this step's `step` method has returned'',
          '' `ControlFlow::Ok`.''],
      metric_field ''break_total'' ''Counter''
         ['' The total number of times this step's `step` method has returned'',
          '' `ControlFlow::Break`.''],
      metric_field ''fail_total'' ''Counter''
         ['' The total number of times this step's `step` method has returned'',
          '' `ControlFlow::Fail`.''],
      metric_field ''exec_duration_histogram'' ''Histogram''
         ['' The duration of time spent executing this step's `step` method.''],
      metric_field ''exec_duration_total_millis'' ''Counter''
         ['' The cumulative number of milliseconds spent executing this step's `step`'',
          '' method across all runs.''],
      metric_field ''exec_duration_per_job'' ''Histogram''
         ['' The duration of time spent executing this step's `step` method per'',
          '' payload job.'']]"

definition scope_metrics_struct :: "struct_field list" where
  "scope_metrics_struct =
     [metric_field ''iter_count_histogram'' ''Histogram''
         ['' Histogram of the number of iterations.''],
      metric_field ''iter_count_total'' ''Counter''
         ['' Total number of iterations across all payload jobs.''],
      metric_field ''exec_duration_histogram'' ''Histogram''
         ['' Histogram of the execution duration.''],
      metric_field ''exec_duration_total_millis'' ''Counter''
         ['' Total execution duration across all payload jobs.'']]"

definition append_metrics_struct :: "struct_field list" where
  "append_metrics_struct =
     [metric_field ''txs_considered'' ''Counter''
         ['' The number of transactions considered for inclusion either bundled or'',
          '' unbundled.''],
      metric_field ''bundles_considered'' ''Counter''
         ['' The number of bundles considered for inclusion.''],
      metric_field ''considered_bundle_size_histogram'' ''Histogram''
         ['' The number of transactions in considered bundles.''],
      metric_field ''orders_considered'' ''Counter''
         ['' The number of orders considered for inclusion.''],
      metric_field ''txs_skipped'' ''Counter''
         ['' The number of transactions considered for inclusion but not included.''],
      metric_field ''bundles_skipped'' ''Counter''
         ['' The number of bundles considered for inclusion but not included.''],
      metric_field ''orders_skipped'' ''Counter''
         ['' The number of orders considered for inclusion but not included.''],
      metric_field ''orders_inclusion_failed'' ''Counter''
         ['' The number of orders that failed to be included because they failed to'',
          '' create a valid payload checkpoint.''],
      metric_field ''txs_included'' ''Counter''
         ['' The number of transactions included across all payloads either'',
          '' bundled or unbundled.''],
      metric_field ''bundled_txs_included'' ''Counter''
         ['' The number of bundled transactions included in the payload.''],
      metric_field ''unbundled_txs_included'' ''Counter''
         ['' The number of unbundled transactions included in the payload.''],
      metric_field ''orders_included'' ''Counter''
         ['' The number of orders included in the payload.''],
      metric_field ''bundles_included'' ''Counter''
         ['' The number of bundles included in the payload.''],
      metric_field ''included_bundle_size_histogram'' ''Histogram''
         ['' A histogram of the number of transactions in included bundles.''],
      metric_field ''per_job_orders_considered'' ''Histogram''
         ['' Histogram of the number of orders considered for inclusion.''],
      metric_field ''per_job_txs_considered'' ''Histogram''
         ['' Histogram of the number of transactions considered for inclusion either'',
          '' bundled or unbundled.''],
      metric_field ''per_job_bundles_considered'' ''Histogram''
         ['' Histogram of the number of bundles considered for inclusion.''],
      metric_field ''per_job_orders_included'' ''Histogram''
         ['' Histogram of the number of orders included in the payload.''],
      metric_field ''per_job_txs_included'' ''Histogram''
         ['' Histogram of the number of transactions included in the payload either'',
          '' bundled or unbundled.''],
      metric_field ''per_job_bundles_included'' ''Histogram''
         ['' Histogram of the number of bundles included in the payload.'']]"

definition revert_metrics_struct :: "struct_field list" where
  "revert_metrics_struct =
     [metric_field ''txs_dropped_total'' ''Counter''
         ['' Total number of all transactions dropped across all payloads.'',
          '' This includes loose transactions and bundled transactions.''],
      metric_field ''gas_dropped_total'' ''Counter''
         ['' Total amount of gas consumed by dropped transactions across all payloads.''],
      metric_field ''txs_dropped_per_job'' ''Histogram''
         ['' Number of transactions dropped per payload job.''],
      metric_field ''gas_dropped_per_job'' ''Histogram''
         ['' The amount of gas consumed by dropped transactions per payload job.'']]"

subsection \<open>What the derivation gives\<close>

lemma field_metas_Inr:
  "field_metas fs = Inr ms \<longleftrightarrow> list_all2 (\<lambda>f m. field_meta_of f = Inr m) fs ms"
proof (induction fs arbitrary: ms)
  case (Cons f fs)
  then show ?case by (cases ms) (auto simp: result_simps)
qed (auto simp: result_simps)

text \<open>A field without attributes of its own keeps its name.\<close>

lemma metric_field_meta:
  assumes "classify (TypePath [(ty, False)]) \<noteq> OtherKind"
  shows "\<exists>d. field_meta_of (metric_field ident ty docs) =
    Inr \<lparr>fm_field = ident, fm_kind = classify (TypePath [(ty, False)]), fm_name = ident, fm_description = d\<rparr>"
proof -
  have "metric_attrs (map (\<lambda>d. \<lparr>at_path = [''doc''], at_args = None, at_value = Some (LitStr d)\<rparr>) docs) acc = Inr acc" for acc
    by (induction docs) simp_all
  with assms show ?thesis by (simp add: field_meta_of_def metric_field_def result_simps)
qed

definition registered :: "recorder_call list \<Rightarrow> string list" where
  "registered cs = List.map_filter (\<lambda>c. case c of Register k n \<Rightarrow> Some n | Describe k n d \<Rightarrow> None) cs"

text \<open>
  For every field, in order, one metric of the field's kind is registered, under the scope and
  the field's name; a description comes just before it.
\<close>

lemma registered_with_scope: "registered (with_scope scope ms) = map (\<lambda>m. full_name scope (fm_name m)) ms"
  by (induction ms)
    (simp_all add: with_scope_def registered_def init_field_def Let_def map_filter_def)

lemma described_before_registered:
  assumes "with_scope scope ms = pre @ Describe k n d # rest"
  shows "\<exists>rest'. rest = Register k n # rest'"
  using assms
proof (induction ms arbitrary: pre)
  case (Cons m ms)
  have rec: "with_scope scope (m # ms) = init_field scope m @ with_scope scope ms" by (simp add: with_scope_def)
  show ?case
  proof (cases "length pre < length (init_field scope m)")
    case True
    with Cons.prems rec show ?thesis
      by (cases pre; cases "tl pre") (auto simp: init_field_def Let_def split: if_splits)
  next
    case False
    then obtain pre' where "pre = init_field scope m @ pre'"
      using Cons.prems rec by (metis append_eq_append_conv_if append_take_drop_id not_less)
    with Cons.prems rec show ?thesis by (intro Cons.IH) simp
  qed
qed (simp add: with_scope_def)

text \<open>The key \<open>skip\<close> of the documentation is rejected, with or without a value.\<close>

lemma skip_is_rejected:
  "parse_metric_args [TokPath [''skip'']] acc = Inl ExpectedEq"
  "parse_metric_args (TokPath [''skip''] # TokEq # TokLit l # ts) acc = Inl UnsupportedKey"
  by (cases acc; simp add: parse_metric_args.simps)+

text \<open>Arguments as they are written: pairs of a key and a string, with or without commas.\<close>

fun pair_tokens :: "(bool \<times> string \<times> bool) list \<Rightarrow> attr_token list" where
  "pair_tokens [] = []"
| "pair_tokens ((is_rename, v, comma) # ps) =
     TokPath [if is_rename then ''rename'' else ''describe''] # TokEq # TokLit (LitStr v) #
     (if comma then [TokComma] else []) @ pair_tokens ps"

fun pair_values :: "(bool \<times> string \<times> bool) list \<Rightarrow> string option \<times> string option \<Rightarrow> string option \<times> string option" where
  "pair_values [] acc = acc"
| "pair_values ((is_rename, v, comma) # ps) (r, d) = pair_values ps (if is_rename then (Some v, d) else (r, Some v))"

lemma parse_written_args: "parse_metric_args (pair_tokens ps) acc = Inr (pair_values ps acc)"
proof (induction ps arbitrary: acc)
  case Nil
  then show ?case by (cases acc) (simp add: parse_metric_args.simps)
next
  case (Cons p ps)
  have "skip_comma (pair_tokens ps) = pair_tokens ps"
    by (cases ps rule: pair_tokens.cases) (simp_all add: skip_comma_def)
  moreover obtain b v c r d where "p = (b, v, c)" "acc = (r, d)" by (metis prod_cases3 surj_pair)
  moreover have "skip_comma (TokComma # ts) = ts" for ts by (simp add: skip_comma_def)
  ultimately show ?case
    using Cons by (simp add: parse_metric_args.simps [of "_ # _"])
qed

subsection \<open>Tuples\<close>

lemma decimal_inject [simp]: "decimal i = decimal j \<longleftrightarrow> i = j"
  using read_decimal_decimal by metis

lemma run_generated_fold:
  assumes "list_all (\<lambda>v. env v \<noteq> None) vs"
  shows "run_generated dflt env (foldl WithStep g vs) =
    map_option (fold (\<lambda>s p. with_step p s) (map (\<lambda>v. the (env v)) vs)) (run_generated dflt env g)"
  using assms
proof (induction vs arbitrary: g)
  case (Cons v vs)
  then show ?case by (cases "run_generated dflt env g") (auto simp: Cons.IH)
qed (simp add: option.map_id)

text \<open>The generated conversion of a tuple is the conversion of its steps in order.\<close>

lemma generated_tuple:
  assumes "length ss = n"
  shows "run_tuple_impl caller_file caller_line (generate_tuple_impl n) ss =
    into_pipeline caller_file caller_line (FromSteps ss)"
proof -
  let ?vars = "map (\<lambda>i. ''step'' @ decimal i) [0..<n]"
  let ?env = "map_of (zip ?vars ss)"
  have dist: "distinct ?vars" by (simp add: distinct_map inj_on_def)
  have env: "?env (?vars ! i) = Some (ss ! i)" if "i < n" for i
    using map_of_zip_nth [of ?vars ss i] dist assms that by simp
  have all: "list_all (\<lambda>v. ?env v \<noteq> None) ?vars" using env by (simp add: list_all_length)
  have "map (\<lambda>v. the (?env v)) ?vars = ss"
    using env assms by (intro nth_equalityI) simp_all
  with run_generated_fold [OF all, of "pipeline_default caller_file caller_line" DefaultPipeline] show ?thesis
    using assms by (simp add: run_tuple_impl_def generate_tuple_impl_def Let_def into_pipeline_def comp_def)
qed

subsection \<open>Names of metrics\<close>

text \<open>
  The scopes of the metrics of a pipeline: of its payloads (\<open>service.rs\<close>), of its steps, whose own
  metrics have the scope of their \<open>StepInstance\<close>, and of the pipelines on its paths (\<open>scope.rs\<close>).
\<close>

datatype metrics_owner = PayloadsOwner | StepOwner step_path | PipelineOwner step_path

definition payloads_scope :: "string \<Rightarrow> string" where
  "payloads_scope name = name @ ''_payloads''"

definition pipeline_scope :: "string \<Rightarrow> step_path \<Rightarrow> string" where
  "pipeline_scope name path =
     (if path = [] then name @ ''_pipeline'' else name @ ''_pipeline_'' @ path_text path)"

fun owner_scope :: "string \<Rightarrow> metrics_owner \<Rightarrow> string" where
  "owner_scope name PayloadsOwner = payloads_scope name"
| "owner_scope name (StepOwner path) = metrics_scope_of name path"
| "owner_scope name (PipelineOwner path) = pipeline_scope name path"

text \<open>
  Setting the sets up, with the calls to the recorder as the world. \<open>AppendOrders\<close> and
  \<open>RemoveRevertedTransactions\<close> initialize a set of their own in \<open>Step::setup\<close>; \<open>Chain\<close> and \<open>Atomic\<close> hand
  their context to the \<open>setup\<close> of the steps they hold, whose instances have no metrics otherwise. The
  other steps of the repository have no set of their own.
\<close>

datatype step_type =
    AppendOrdersType | RemoveRevertedType | OtherType | ChainType "step_type list" | AtomicType "step_type list"

definition derived :: "struct_field list \<Rightarrow> field_meta list" where
  "derived fs = (case metrics_set_derive (Struct (Named fs)) of Inr metas \<Rightarrow> metas | Inl e \<Rightarrow> [])"

definition init_set ::
    "struct_field list \<Rightarrow> string \<Rightarrow> (recorder_call list, payload_builder_error + unit) async" where
  "init_set fs scope calls = (0, calls @ with_scope scope (derived fs), Inr ())"

primrec step_setup :: "step_type \<Rightarrow> init_context \<Rightarrow> (recorder_call list, payload_builder_error + unit) async" where
  "step_setup AppendOrdersType = (\<lambda>init. init_set append_metrics_struct (ic_metrics_scope init))"
| "step_setup RemoveRevertedType = (\<lambda>init. init_set revert_metrics_struct (ic_metrics_scope init))"
| "step_setup OtherType = (\<lambda>init. async_return (Inr ()))"
| "step_setup (ChainType ss) = chain_setup (map step_setup ss)"
| "step_setup (AtomicType ss) = atomic_setup (map step_setup ss)"

text \<open>
  The sets of an owner. For a step, the service first initializes the set of its instance and then
  calls its \<open>setup\<close> with the same scope.
\<close>

fun owner_setup ::
    "(b256 \<Rightarrow> provider_error + state_provider) \<Rightarrow> string \<Rightarrow> (step_path \<Rightarrow> step_type) \<Rightarrow> metrics_owner \<Rightarrow>
     (recorder_call list, payload_builder_error + unit) async"
where
  "owner_setup provider name step_of PayloadsOwner = init_set payload_metrics_struct (owner_scope name PayloadsOwner)"
| "owner_setup provider name step_of (StepOwner path) =
     async_bind (init_set step_metrics_struct (owner_scope name (StepOwner path))) (\<lambda>_.
       step_setup (step_of path) \<lparr>ic_provider = provider, ic_metrics_scope = owner_scope name (StepOwner path)\<rparr>)"
| "owner_setup provider name step_of (PipelineOwner path) =
     init_set scope_metrics_struct (owner_scope name (PipelineOwner path))"

text \<open>The sets that the \<open>setup\<close> of a step initializes, and those of an owner.\<close>

fun own_sets :: "step_type \<Rightarrow> struct_field list list" where
  "own_sets AppendOrdersType = [append_metrics_struct]"
| "own_sets RemoveRevertedType = [revert_metrics_struct]"
| "own_sets OtherType = []"
| "own_sets (ChainType ss) = concat (map own_sets ss)"
| "own_sets (AtomicType ss) = concat (map own_sets ss)"

fun owner_sets :: "(step_path \<Rightarrow> step_type) \<Rightarrow> metrics_owner \<Rightarrow> struct_field list list" where
  "owner_sets step_of PayloadsOwner = [payload_metrics_struct]"
| "owner_sets step_of (StepOwner path) = step_metrics_struct # own_sets (step_of path)"
| "owner_sets step_of (PipelineOwner path) = [scope_metrics_struct]"

definition index_word :: "string \<Rightarrow> bool" where
  "index_word w \<longleftrightarrow> w = ''p'' \<or> w = ''e'' \<or> list_all digit w"

definition plain_name :: "string \<Rightarrow> bool" where
  "plain_name m \<longleftrightarrow> \<not> index_word (takeWhile (\<lambda>c. c \<noteq> CHR ''_'') m)"

lemmas repository_structs = payload_metrics_struct_def step_metrics_struct_def scope_metrics_struct_def
  append_metrics_struct_def revert_metrics_struct_def

lemma struct_names:
  "map sf_ident (metric_field i t d # fs) = i # map sf_ident fs" "map sf_ident [] = []"
  by (simp_all add: metric_field_def)

lemma plain_struct_names:
  "list_all (\<lambda>f. plain_name (sf_ident f)) payload_metrics_struct"
  "list_all (\<lambda>f. plain_name (sf_ident f)) step_metrics_struct"
  "list_all (\<lambda>f. plain_name (sf_ident f)) scope_metrics_struct"
  "list_all (\<lambda>f. plain_name (sf_ident f)) append_metrics_struct"
  "list_all (\<lambda>f. plain_name (sf_ident f)) revert_metrics_struct"
  by (simp_all add: repository_structs metric_field_def plain_name_def index_word_def digit_def)

lemma distinct_struct_names:
  "distinct (map sf_ident payload_metrics_struct)" "distinct (map sf_ident scope_metrics_struct)"
  "distinct (map sf_ident (step_metrics_struct @ append_metrics_struct @ revert_metrics_struct))"
  by (simp_all add: repository_structs metric_field_def)

lemma supported_struct_types:
  "list_all (\<lambda>f. classify (sf_type f) \<noteq> OtherKind) payload_metrics_struct"
  "list_all (\<lambda>f. classify (sf_type f) \<noteq> OtherKind) step_metrics_struct"
  "list_all (\<lambda>f. classify (sf_type f) \<noteq> OtherKind) scope_metrics_struct"
  "list_all (\<lambda>f. classify (sf_type f) \<noteq> OtherKind) append_metrics_struct"
  "list_all (\<lambda>f. classify (sf_type f) \<noteq> OtherKind) revert_metrics_struct"
  by (simp_all add: repository_structs metric_field_def classify_def)

text \<open>Where a path ends in a name: the words of a path are indices, the first word of a metric is not.\<close>

lemma index_text_word: "index_word (index_text i)"
  using digits_decimal by (auto simp: index_text_def index_word_def list_all_iff)

lemma split_first: "hd (split_on d m) = takeWhile (\<lambda>c. c \<noteq> d) m"
  by (induction m) (auto split: list.split)

lemma split_path_name:
  "path \<noteq> [] \<Longrightarrow> split_on (CHR ''_'') (path_text path @ CHR ''_'' # m) = map index_text path @ split_on (CHR ''_'') m"
proof (induction path)
  case (Cons i path)
  show ?case
  proof (cases path)
    case Nil
    then show ?thesis by (simp add: split_on_word(1) index_text_plain)
  next
    case (Cons j rest)
    then have "path_text (i # path) @ CHR ''_'' # m = index_text i @ CHR ''_'' # (path_text path @ CHR ''_'' # m)"
      by simp
    with Cons.IH Cons show ?thesis by (simp only: split_on_word(1) [OF index_text_plain]) simp
  qed
qed simp

definition named :: "step_path \<Rightarrow> string \<Rightarrow> string" where
  "named path m = (if path = [] then m else path_text path @ CHR ''_'' # m)"

lemma named_inject:
  assumes "plain_name a" "plain_name b" "named p a = named q b"
  shows "p = q \<and> a = b"
proof -
  have words: "takeWhile index_word (split_on (CHR ''_'') (named p m)) = map index_text p" if "plain_name m" for p m
  proof -
    have "split_on (CHR ''_'') (named p m) = map index_text p @ split_on (CHR ''_'') m"
      by (simp add: named_def split_path_name)
    moreover have "takeWhile index_word (split_on (CHR ''_'') m) = []"
      using that split_first [of "CHR ''_''" m] by (cases "split_on (CHR ''_'') m") (auto simp: plain_name_def)
    ultimately show ?thesis by (simp add: takeWhile_append index_text_word)
  qed
  have "inj index_text" using read_index_text by (metis injI)
  moreover have "map index_text p = map index_text q" using words [OF assms(1)] words [OF assms(2)] assms(3) by metis
  ultimately have "p = q" by (simp add: inj_map_eq_map)
  with assms(3) show ?thesis by (simp add: named_def split: if_splits)
qed

lemma owner_full_name:
  "full_name (owner_scope name PayloadsOwner) m = name @ ''_payloads_'' @ named [] m"
  "path \<noteq> [] \<Longrightarrow> full_name (owner_scope name (StepOwner path)) m = name @ ''_step_'' @ named path m"
  "full_name (owner_scope name (PipelineOwner path)) m = name @ ''_pipeline_'' @ named path m"
  by (simp_all add: full_name_def payloads_scope_def metrics_scope_of_def pipeline_scope_def named_def)

declare owner_scope.simps [simp del]

definition repository_sets :: "struct_field list set" where
  "repository_sets =
     {payload_metrics_struct, step_metrics_struct, scope_metrics_struct, append_metrics_struct, revert_metrics_struct}"

lemma own_sets_cases: "set (own_sets st) \<subseteq> {append_metrics_struct, revert_metrics_struct}"
  by (induction st rule: own_sets.induct) auto

lemma owner_sets_repository: "set (owner_sets step_of ow) \<subseteq> repository_sets"
  using own_sets_cases by (cases ow) (fastforce simp: repository_sets_def)+

lemma repository_names_plain: "fs \<in> repository_sets \<Longrightarrow> f \<in> set fs \<Longrightarrow> plain_name (sf_ident f)"
  using plain_struct_names by (auto simp: repository_sets_def list_all_iff)

lemma owner_names_plain: "fs \<in> set (owner_sets step_of ow) \<Longrightarrow> f \<in> set fs \<Longrightarrow> plain_name (sf_ident f)"
  using owner_sets_repository repository_names_plain by blast

text \<open>The names of sets that are different are different, so names repeat only where a set does.\<close>

lemma distinct_concat_map:
  assumes "\<forall>x \<in> set xs. f x \<noteq> [] \<and> distinct (f x)" "\<forall>x \<in> set xs. \<forall>y \<in> set xs. x \<noteq> y \<longrightarrow> set (f x) \<inter> set (f y) = {}"
  shows "distinct (concat (map f xs)) \<longleftrightarrow> distinct xs"
  using assms
proof (induction xs)
  case (Cons x xs)
  have "set (f x) \<inter> (\<Union>y \<in> set xs. set (f y)) = {} \<longleftrightarrow> x \<notin> set xs"
  proof
    assume disj: "set (f x) \<inter> (\<Union>y \<in> set xs. set (f y)) = {}"
    show "x \<notin> set xs"
    proof
      assume "x \<in> set xs"
      then have "set (f x) \<subseteq> (\<Union>y \<in> set xs. set (f y))" by blast
      with disj have "set (f x) = {}" by (simp only: Int_absorb2)
      with Cons.prems(1) show False by simp
    qed
  next
    assume "x \<notin> set xs"
    have "set (f x) \<inter> set (f y) = {}" if "y \<in> set xs" for y
    proof -
      have "x \<noteq> y" using \<open>x \<notin> set xs\<close> that by blast
      with Cons.prems(2) [rule_format, of x y] that show ?thesis by simp
    qed
    then show "set (f x) \<inter> (\<Union>y \<in> set xs. set (f y)) = {}" by blast
  qed
  moreover have "distinct (concat (map f xs)) \<longleftrightarrow> distinct xs"
  proof (rule Cons.IH)
    show "\<forall>x \<in> set xs. f x \<noteq> [] \<and> distinct (f x)" using Cons.prems(1) by simp
    show "\<forall>x \<in> set xs. \<forall>y \<in> set xs. x \<noteq> y \<longrightarrow> set (f x) \<inter> set (f y) = {}"
      using Cons.prems(2) by (meson list.set_intros(2))
  qed
  moreover have "distinct (f x)" using Cons.prems(1) by simp
  ultimately show ?case by auto
qed simp

abbreviation set_names :: "struct_field list \<Rightarrow> string list" where
  "set_names fs \<equiv> map sf_ident fs"

lemma owner_sets_distinct:
  "distinct (concat (map set_names (owner_sets step_of ow))) \<longleftrightarrow>
     (case ow of StepOwner path \<Rightarrow> distinct (own_sets (step_of path)) | _ \<Rightarrow> True)"
proof (cases ow)
  case (StepOwner path)
  let ?sets = "{step_metrics_struct, append_metrics_struct, revert_metrics_struct}"
  have nonempty: "\<forall>fs \<in> ?sets. set_names fs \<noteq> []" by (simp add: repository_structs)
  have dist: "\<forall>fs \<in> ?sets. distinct (set_names fs)"
    "\<forall>fs \<in> ?sets. \<forall>gs \<in> ?sets. fs \<noteq> gs \<longrightarrow> set (set_names fs) \<inter> set (set_names gs) = {}"
    using distinct_struct_names(3) by auto
  have "step_metrics_struct \<noteq> append_metrics_struct" "step_metrics_struct \<noteq> revert_metrics_struct"
    using distinct_struct_names(3) nonempty by auto
  then have new: "step_metrics_struct \<notin> set (own_sets (step_of path))" using own_sets_cases by blast
  have sub: "set (owner_sets step_of ow) \<subseteq> ?sets" using StepOwner own_sets_cases by auto
  have "distinct (concat (map set_names (owner_sets step_of ow))) \<longleftrightarrow> distinct (owner_sets step_of ow)"
    by (rule distinct_concat_map) (use nonempty dist sub in blast)+
  with new StepOwner show ?thesis by simp
qed (use distinct_struct_names in auto)

lemma owner_name_inject:
  assumes "full_name (owner_scope name ow) a = full_name (owner_scope name ow') b"
    and "plain_name a" "plain_name b" "ow \<noteq> StepOwner []" "ow' \<noteq> StepOwner []"
  shows "ow = ow' \<and> a = b"
proof (cases ow; cases ow')
  fix p q assume "ow = StepOwner p" "ow' = StepOwner q"
  with assms named_inject [OF assms(2,3)] show ?thesis by (auto simp: owner_full_name)
next
  fix p q assume "ow = PipelineOwner p" "ow' = PipelineOwner q"
  with assms named_inject [OF assms(2,3)] show ?thesis by (auto simp: owner_full_name)
next
  assume "ow = PayloadsOwner" "ow' = PayloadsOwner"
  with assms named_inject [OF assms(2,3)] show ?thesis by (auto simp: owner_full_name)
qed (use assms in \<open>auto simp: owner_full_name\<close>)

text \<open>The derivation succeeds on the structs of the repository and keeps the names of their fields.\<close>

definition is_metric_field :: "struct_field \<Rightarrow> bool" where
  "is_metric_field f \<longleftrightarrow> (\<exists>i t d. f = metric_field i t d) \<and> classify (sf_type f) \<noteq> OtherKind"

lemma metric_fields_derived:
  "list_all is_metric_field fs \<Longrightarrow> \<exists>ms. field_metas fs = Inr ms \<and> map fm_name ms = map sf_ident fs"
proof (induction fs)
  case (Cons f fs)
  then obtain i t d where f: "f = metric_field i t d" "classify (TypePath [(t, False)]) \<noteq> OtherKind"
    by (auto simp: is_metric_field_def metric_field_def)
  from metric_field_meta [OF f(2), of i d] Cons f(1) show ?case
    by (auto simp: result_simps metric_field_def)
qed simp

lemma repository_fields:
  "list_all is_metric_field payload_metrics_struct" "list_all is_metric_field step_metrics_struct"
  "list_all is_metric_field scope_metrics_struct" "list_all is_metric_field append_metrics_struct"
  "list_all is_metric_field revert_metrics_struct"
proof -
  have metric: "is_metric_field (metric_field i t d)" if "t = ''Counter'' \<or> t = ''Gauge'' \<or> t = ''Histogram''" for i t d
    using that unfolding is_metric_field_def by (auto simp: metric_field_def classify_def)
  show "list_all is_metric_field payload_metrics_struct" "list_all is_metric_field step_metrics_struct"
    "list_all is_metric_field scope_metrics_struct" "list_all is_metric_field append_metrics_struct"
    "list_all is_metric_field revert_metrics_struct"
    by (simp_all add: repository_structs metric)
qed

lemma repository_derived:
  assumes "fs \<in> repository_sets"
  shows "metrics_set_derive (Struct (Named fs)) = Inr (derived fs) \<and> map fm_name (derived fs) = set_names fs"
proof -
  have "list_all is_metric_field fs" using assms repository_fields by (auto simp: repository_sets_def)
  from metric_fields_derived [OF this] show ?thesis by (auto simp: derived_def metrics_set_derive_def)
qed

text \<open>What the hooks register.\<close>

lemma run_hooks_log:
  assumes "\<And>x calls. x \<in> set xs \<Longrightarrow> hook (g x) calls = (0, calls @ f x, Inr ())"
  shows "run_hooks hook (map g xs) calls = (0, calls @ concat (map f xs), Inr ())"
  using assms
  by (induction xs arbitrary: calls) (simp_all add: async_return_def async_bind_def)

lemma concat_map_concat: "concat (map f (concat xss)) = concat (map (\<lambda>xs. concat (map f xs)) xss)"
  by (induction xss) simp_all

lemma step_setup_log:
  "step_setup st init calls =
     (0, calls @ concat (map (\<lambda>fs. with_scope (ic_metrics_scope init) (derived fs)) (own_sets st)), Inr ())"
proof (induction st arbitrary: calls)
  case (ChainType ss)
  then show ?case
    by (simp add: chain_setup_def concat_map_concat
        run_hooks_log [where f = "\<lambda>st. concat (map (\<lambda>fs. with_scope (ic_metrics_scope init) (derived fs)) (own_sets st))"] comp_def)
next
  case (AtomicType ss)
  then show ?case
    by (simp add: atomic_setup_def concat_map_concat
        run_hooks_log [where f = "\<lambda>st. concat (map (\<lambda>fs. with_scope (ic_metrics_scope init) (derived fs)) (own_sets st))"] comp_def)
qed (simp_all add: init_set_def async_return_def)

lemma owner_setup_log:
  "owner_setup provider name step_of ow calls =
     (0, calls @ concat (map (\<lambda>fs. with_scope (owner_scope name ow) (derived fs)) (owner_sets step_of ow)), Inr ())"
  by (cases ow) (simp_all add: init_set_def async_bind_def step_setup_log)

lemma registered_append: "registered (a @ b) = registered a @ registered b"
  by (simp add: registered_def map_filter_def)

lemma registered_concat: "registered (concat cs) = concat (map registered cs)"
  by (induction cs) (simp_all add: registered_append, simp add: registered_def map_filter_def)

definition owner_names :: "string \<Rightarrow> (step_path \<Rightarrow> step_type) \<Rightarrow> metrics_owner \<Rightarrow> string list" where
  "owner_names name step_of ow = map (full_name (owner_scope name ow)) (concat (map set_names (owner_sets step_of ow)))"

lemma owner_name_member:
  assumes "n \<in> set (owner_names name step_of ow)"
  obtains a where "plain_name a" "n = full_name (owner_scope name ow) a"
  using assms owner_names_plain [of _ step_of ow] unfolding owner_names_def by auto

lemma registered_owner:
  "registered (concat (map (\<lambda>fs. with_scope (owner_scope name ow) (derived fs)) (owner_sets step_of ow))) =
     owner_names name step_of ow"
proof -
  have "registered (with_scope scope (derived fs)) = map (full_name scope) (set_names fs)"
    if "fs \<in> set (owner_sets step_of ow)" for scope fs
    using repository_derived [of fs] that owner_sets_repository
    by (metis (no_types, lifting) comp_apply list.map_comp map_eq_conv registered_with_scope subsetD)
  then show ?thesis by (simp add: owner_names_def registered_concat map_concat comp_def cong: map_cong)
qed

lemma owners_distinct:
  assumes "distinct owners" "StepOwner [] \<notin> set owners"
  shows "distinct (concat (map (owner_names name step_of) owners)) \<longleftrightarrow>
    (\<forall>path. StepOwner path \<in> set owners \<longrightarrow> distinct (own_sets (step_of path)))"
  using assms
proof (induction owners)
  case (Cons ow owners)
  have "distinct (owner_names name step_of ow) \<longleftrightarrow> distinct (concat (map set_names (owner_sets step_of ow)))"
    unfolding owner_names_def by (subst distinct_map) (simp add: inj_on_def full_name_def)
  moreover have "n \<notin> set (owner_names name step_of ow')" if "n \<in> set (owner_names name step_of ow)" "ow' \<in> set owners" for n ow'
  proof -
    have "ow \<noteq> ow'" "ow \<noteq> StepOwner []" "ow' \<noteq> StepOwner []" using Cons.prems that(2) by auto
    show ?thesis
    proof
      assume "n \<in> set (owner_names name step_of ow')"
      with that(1) obtain a b where "plain_name a" "plain_name b"
        "full_name (owner_scope name ow) a = full_name (owner_scope name ow') b"
        using owner_name_member by metis
      with \<open>ow \<noteq> ow'\<close> \<open>ow \<noteq> StepOwner []\<close> \<open>ow' \<noteq> StepOwner []\<close> show False using owner_name_inject by blast
    qed
  qed
  then have "set (owner_names name step_of ow) \<inter> set (concat (map (owner_names name step_of) owners)) = {}" by auto
  ultimately have "distinct (concat (map (owner_names name step_of) (ow # owners))) \<longleftrightarrow>
      (case ow of StepOwner path \<Rightarrow> distinct (own_sets (step_of path)) | _ \<Rightarrow> True) \<and>
      (\<forall>path. StepOwner path \<in> set owners \<longrightarrow> distinct (own_sets (step_of path)))"
    using Cons by (simp add: owner_sets_distinct)
  then show ?case by (auto split: metrics_owner.splits)
qed simp

text \<open>
  Claim C34: when the metrics of a pipeline have different names. Deriving the five metrics sets of
  the repository succeeds and keeps the names of the fields. Initializing the sets of the payloads,
  of the steps of a pipeline and of the pipelines on its paths, each once, succeeds, whatever the
  steps are, and the names that are registered with the recorder are all different exactly if
  no step initializes one set twice in its \<open>setup\<close>: a combinator, which hands its scope to all the
  steps it holds, must not hold two \<open>AppendOrders\<close> or two \<open>RemoveRevertedTransactions\<close>, at any
  depth. Steps of other types are taken to have no set of their own, as those of the repository.
\<close>

theorem metric_names_unique:
  assumes "distinct owners" "StepOwner [] \<notin> set owners"
  shows "(\<forall>fs \<in> {payload_metrics_struct, step_metrics_struct, scope_metrics_struct, append_metrics_struct, revert_metrics_struct}.
      metrics_set_derive (Struct (Named fs)) = Inr (derived fs) \<and> map fm_name (derived fs) = map sf_ident fs) \<and>
    (\<exists>calls. run_hooks (owner_setup provider name step_of) owners [] = (0, calls, Inr ()) \<and>
      (distinct (registered calls) \<longleftrightarrow>
        (\<forall>path. StepOwner path \<in> set owners \<longrightarrow> distinct (own_sets (step_of path)))))"
proof -
  let ?calls = "\<lambda>ow. concat (map (\<lambda>fs. with_scope (owner_scope name ow) (derived fs)) (owner_sets step_of ow))"
  have "run_hooks (owner_setup provider name step_of) owners [] = (0, concat (map ?calls owners), Inr ())"
    using run_hooks_log [of owners "owner_setup provider name step_of" id ?calls "[]"] by (simp add: owner_setup_log)
  moreover have "registered (concat (map ?calls owners)) = concat (map (owner_names name step_of) owners)"
    unfolding registered_concat [of "map ?calls owners"] by (simp only: map_map comp_def registered_owner)
  ultimately show ?thesis
    using owners_distinct [OF assms, of name step_of] repository_derived by (auto simp: repository_sets_def)
qed

theorem metric_names_unique_witness:
  "\<exists>calls calls'.
     run_hooks (owner_setup (\<lambda>h. Inl ''none'') ''main'' (\<lambda>path. ChainType [AppendOrdersType, RemoveRevertedType]))
       [PayloadsOwner, PipelineOwner [], StepOwner [1], PipelineOwner [2], StepOwner [2, 1]] [] = (0, calls, Inr ()) \<and>
     distinct (registered calls) \<and>
     run_hooks (owner_setup (\<lambda>h. Inl ''none'') ''main'' (\<lambda>path. AtomicType [AppendOrdersType, OtherType, AppendOrdersType]))
       [StepOwner [1]] [] = (0, calls', Inr ()) \<and> \<not> distinct (registered calls')"
proof -
  have "append_metrics_struct \<noteq> []" by (simp add: append_metrics_struct_def)
  then have "append_metrics_struct \<noteq> revert_metrics_struct" using distinct_struct_names(3) by auto
  then have dist: "distinct (own_sets (ChainType [AppendOrdersType, RemoveRevertedType]))" by simp
  have twice: "\<not> distinct (own_sets (AtomicType [AppendOrdersType, OtherType, AppendOrdersType]))" by simp
  let ?owners = "[PayloadsOwner, PipelineOwner [], StepOwner [1], PipelineOwner [2], StepOwner [2, 1]]"
  have owners: "distinct ?owners" "StepOwner [] \<notin> set ?owners" "distinct [StepOwner [1]]" "StepOwner [] \<notin> set [StepOwner [1]]"
    by simp_all
  from conjunct2 [OF metric_names_unique [OF owners(1,2), of "\<lambda>h. Inl ''none''" "''main''"
      "\<lambda>path. ChainType [AppendOrdersType, RemoveRevertedType]"]]
  obtain calls where calls:
    "run_hooks (owner_setup (\<lambda>h. Inl ''none'') ''main'' (\<lambda>path. ChainType [AppendOrdersType, RemoveRevertedType]))
       ?owners [] = (0, calls, Inr ())"
    "distinct (registered calls) \<longleftrightarrow> (\<forall>path. StepOwner path \<in> set ?owners \<longrightarrow>
       distinct (own_sets (ChainType [AppendOrdersType, RemoveRevertedType])))"
    by (elim exE conjE)
  from conjunct2 [OF metric_names_unique [OF owners(3,4), of "\<lambda>h. Inl ''none''" "''main''"
      "\<lambda>path. AtomicType [AppendOrdersType, OtherType, AppendOrdersType]"]]
  obtain calls' where calls':
    "run_hooks (owner_setup (\<lambda>h. Inl ''none'') ''main'' (\<lambda>path. AtomicType [AppendOrdersType, OtherType, AppendOrdersType]))
       [StepOwner [1]] [] = (0, calls', Inr ())"
    "distinct (registered calls') \<longleftrightarrow> (\<forall>path. StepOwner path \<in> set [StepOwner [1]] \<longrightarrow>
       distinct (own_sets (AtomicType [AppendOrdersType, OtherType, AppendOrdersType])))"
    by (elim exE conjE)
  have "distinct (registered calls)" using dist by (intro iffD2 [OF calls(2)]) simp
  moreover have "\<not> distinct (registered calls')"
    using twice spec [OF iffD1 [OF calls'(2)], of "[1]"] by (auto simp del: own_sets.simps)
  ultimately show ?thesis using calls(1) calls'(1) by (intro exI [of _ calls] exI [of _ calls'] conjI)
qed

text \<open>Two \<open>AppendOrders\<close> in one chain register every name of their set twice.\<close>

lemma chained_steps_share_names:
  "\<exists>calls. step_setup (ChainType [AppendOrdersType, AppendOrdersType]) init [] = (0, calls @ calls, Inr ()) \<and>
     registered calls = map (full_name (ic_metrics_scope init)) (map sf_ident append_metrics_struct)"
proof -
  have "map fm_name (derived append_metrics_struct) = set_names append_metrics_struct"
    using repository_derived by (simp add: repository_sets_def)
  then have "registered (with_scope (ic_metrics_scope init) (derived append_metrics_struct)) =
      map (full_name (ic_metrics_scope init)) (set_names append_metrics_struct)"
    by (metis (no_types, lifting) comp_apply list.map_comp map_eq_conv registered_with_scope)
  then show ?thesis unfolding step_setup_log
    by (intro exI [of _ "with_scope (ic_metrics_scope init) (derived append_metrics_struct)"]) simp
qed

text \<open>
  Other names can collide: a metric whose name begins like an index, such as \<open>p_total\<close>, has on a step the
  name that the metric \<open>total\<close> has on the prologue of a pipeline at the step's place.
\<close>

lemma indexed_name_collides:
  "full_name (metrics_scope_of name [1]) ''p_total'' = full_name (metrics_scope_of name [1, PROLOGUE_INDEX]) ''total''"
  by (simp add: full_name_def metrics_scope_of_def index_text_def)

text \<open>
  The macro for tuples gives one implementation for every size from 2 to its argument, and each
  converts a tuple as \<open>into_pipeline\<close> converts its steps in order.
\<close>

theorem tuple_impls_convert:
  assumes "2 \<le> length ss" "length ss \<le> n"
  shows "length (impl_into_pipeline_steps n) = n - 1 \<and>
    run_tuple_impl caller_file caller_line (impl_into_pipeline_steps n ! (length ss - 2)) ss =
      into_pipeline caller_file caller_line (FromSteps ss)"
proof -
  have "impl_into_pipeline_steps n ! (length ss - 2) = generate_tuple_impl (2 + (length ss - 2))"
    using assms unfolding impl_into_pipeline_steps_def by (subst nth_map) (simp_all del: upt_Suc)
  then have "impl_into_pipeline_steps n ! (length ss - 2) = generate_tuple_impl (length ss)"
    using le_add_diff_inverse [OF assms(1)] by simp
  moreover have "length (impl_into_pipeline_steps n) = n - 1"
    by (simp add: impl_into_pipeline_steps_def del: upt_Suc)
  ultimately show ?thesis by (simp add: generated_tuple)
qed

end
