(* ===== verification/Spec2Isabelle.thy ===== *)
theory Spec2Isabelle
  imports Job_Runs Scoped_Limits Displays Combinators Revert Ordering Composition Sim_Tree Block_Steps Service Events Native_Pool Metrics_Set
begin

text \<open>
  A verification of rblib, a library for building blocks of Ethereum and Optimism on top of reth.

  \<^bold>\<open>The program.\<close> A payload job builds one block. \<open>crates/core\<close> has the values it works on: bundles
  of transactions with the blocks they are valid for, a block context with the state of the parent
  block, and checkpoints, an immutable tree of execution results whose paths are payloads.
  \<open>crates/pipeline\<close> has pipelines, trees of steps with prologues, epilogues and loops; an executor
  that runs the steps of a pipeline on checkpoints, each under the limits of the scope it is in;
  the steps and order pools that come with the library; and the service that turns a pipeline into
  reth's payload builder. The consensus client asks the service for a job; the job runs the
  executor; the executor calls the steps, which take orders from a pool, execute them into
  checkpoints and emit events, to which the pool listens.

  \<^bold>\<open>Correspondence.\<close> Paths are below \<open>crates\<close>, \<open>core\<close> and \<open>pipeline\<close> stand for their \<open>src\<close>.

  \<^item> \<open>Prelude\<close>: machine integers, results, iterator searches. \<open>Machines\<close>: the contract of a machine
    that does not panic. \<open>Printing\<close>: printed numbers, step paths (\<open>navi.rs\<close>), names of pipelines
    and types (\<open>pipelines/metrics.rs\<close>, \<open>step/name.rs\<close>).
  \<^item> \<open>Bundles\<close>: \<open>core/platform/bundle\<close>. The trait \<open>Bundle\<close> is the locale \<open>bundle_trait\<close>,
    \<open>FlashbotsBundle\<close> its interpretation.
  \<^item> \<open>Block_Context\<close>: \<open>core/payload/block.rs\<close> and its extensions. \<open>Cached_State\<close>:
    \<open>core/payload/ext/cached_state.rs\<close>, with the locale \<open>memoized_reader\<close>.
  \<^item> \<open>Exec\<close>: \<open>core/payload/exec.rs\<close>. \<open>Checkpoints\<close>: \<open>core/payload/checkpoint.rs\<close>, \<open>span.rs\<close> and
    their extensions. \<open>Displays\<close>: how they are printed. \<open>Allocation\<close>: how steps create checkpoints.
  \<^item> \<open>Limits\<close>: \<open>core/platform/limits.rs\<close>, the limits of the platforms and the scaling of
    \<open>pipelines/limits.rs\<close>. \<open>Scoped_Limits\<close>: the factories of that file.
    \<open>Platforms\<close>: \<open>core/platform/ethereum\<close> and \<open>optimism\<close>.
  \<^item> \<open>Pipelines\<close> and \<open>Navi\<close>: \<open>pipelines/mod.rs\<close>, \<open>iter.rs\<close>, \<open>exec/navi.rs\<close>. \<open>Scope\<close>:
    \<open>exec/scope.rs\<close>. \<open>Executor\<close>: \<open>exec/mod.rs\<close>, \<open>step/mod.rs\<close>, \<open>step/context.rs\<close> and the metrics
    of payloads. \<open>Job_Runs\<close>: a reference semantics of a whole job, which the executor refines.
    \<open>Step_Instances\<close>: \<open>step/instance.rs\<close>, \<open>step/metrics.rs\<close> and the setup of the
    steps. \<open>Jobs\<close>: \<open>pipelines/job.rs\<close>. \<open>Service\<close>: \<open>pipelines/service.rs\<close>. \<open>Events\<close>:
    \<open>pipelines/events.rs\<close> and the listener of \<open>pool/maintain.rs\<close>.
  \<^item> \<open>Combinators\<close>, \<open>Revert\<close>, \<open>Ordering\<close>, \<open>Block_Steps\<close>: \<open>pipeline/steps\<close>.
  \<^item> \<open>Order_Pool\<close> and \<open>Append\<close>: \<open>pipeline/pool\<close>. \<open>Priority_Pool\<close>, \<open>Priority_Append\<close>, \<open>Sim_Tree\<close>:
    \<open>pipeline/orderpool2\<close>.
  \<^item> \<open>Native_Pool\<close>: \<open>pool/native.rs\<close>. \<open>Metrics_Set\<close>: the macros of \<open>crates/pipeline-macros\<close> and the
    structs they are applied to.
  \<^item> \<open>Composition\<close>: no code of its own but the instance of \<open>AppendOrders\<close>; the executor, the scopes,
    the step instances and the steps together.

  A struct is a record, an enum a datatype, \<open>Result\<close> a sum with the error on the left, a hash map a
  map or an association list. A method that changes its object returns the new one. A failed
  \<open>expect\<close>, an index out of range, \<open>unreachable!\<close> or a failed assertion is \<open>None\<close> (in the executor a
  constructor of its own), so that the absence of panics is a theorem. \<open>Arc\<close> identity is an
  allocation number, an \<open>async\<close> method a number of pending polls with its effect and result.
  Arithmetic on integers of a width wraps as in a release build, unless the code saturates.

  \<^bold>\<open>What is shown.\<close>

  \<^item> \<^emph>\<open>Running a pipeline.\<close> The iterator yields every step once; the navigator, which works on flat
    paths, implements a recursive reference semantics of prologues, loops and epilogues; switching
    scopes never fails an assertion and the gas limit of an inner scope never exceeds that of an
    outer one; the executor never panics, its polls run exactly the steps of the reference, each on the input
    and with the limits the reference gives it, and after a failed initialization none. What all steps keep of a checkpoint holds of the job's payload; so a job that
    appends orders returns a payload within the platform's gas limit and without repetitions. These use rule induction over the reachable states.
  \<^item> \<^emph>\<open>Jobs and service.\<close> No order of polls and resolutions makes a job panic, and all futures of a
    job give the one output of its executor; a new job is on top of the header that was found and reads the state of that block
    whatever has been cached; every step gets metrics of its own, and the metrics of a pipeline
    have different names exactly if no combinator holds two steps with the same set; a subscription to events is a
    queue, and the pool's listener ends with its pipeline.
  \<^item> \<^emph>\<open>Payloads.\<close> Bundle execution is the documented truth table, for bundles that keep a transaction; histories are linear, spans their
    segments; reading through a checkpoint gives the latest write; applying an executable extends
    the payload by its transactions and gas; cached reads are those of the provider.
  \<^item> \<^emph>\<open>Steps.\<close> Removal of reverted transactions leaves none; ordering sorts the staging part as a
    greedy reference does and terminates, or fails with the error of a score or an execution;
    appending keeps within the limits, adds no transaction twice, and, where it breaks on limits,
    ends in a loop; combinators are associative, and atomic, within its deadline, is a chain with rollback;
    the prologue seals the sequencer's transactions and the epilogue fits the reserved gas.
  \<^item> \<^emph>\<open>Pools.\<close> The index of the order pool is exact and chain events clear what they must; any
    number of adapters of reth's pool behave as the pool they share; the prioritized pool never panics and pops a best order among those that are ready; the simulation
    tree never panics, and, if no two results have one identifier, its requests name the parents
    that fill their nonces and it keeps the best simulation of each nonce.

  Theorems without a claim number record where the code departs from its documentation or from its
  evident intention, such as limits lost by \<open>clamp\<close>, the panic on large fees or the adapters of
  reth's pool that are never freed.

  \<^bold>\<open>Interfaces.\<close> \<open>bundle_trait\<close> (what execution relies on of a bundle), \<open>memoized_reader\<close> (a cache
  before a provider), \<open>panic_free\<close> (scopes, jobs, the job generator and the adapters of reth's pool as machines driven
  from outside) and \<open>bounded_queue\<close> (a subscription) are locales, each interpreted on the definitions
  of the component that provides it.

  \<^bold>\<open>What is assumed.\<close> Code of other projects is a parameter, and what the development relies on is a
  named hypothesis with an instance that satisfies it: the EVM and reth's state provider
  (functions in records; \<open>commits\<close> for the state after a block, \<open>within_tx_gas\<close> for the gas a
  transaction may use), \<open>fresh_heap\<close> (allocations are new), \<open>collision_free\<close> (hashes of orders),
  \<open>nonces_cached\<close> (the source of nonces gives an account one nonce
  whenever it answers; it may fail), \<open>pq_laws\<close> (the crate \<open>priority_queue\<close>), \<open>set_iter_laws\<close> (iteration over a hash set),
  \<open>shared_laws\<close> (\<open>futures::Shared\<close>), \<open>broadcast_laws\<close> (tokio's channels). Pipelines have fewer
  than \<open>2 ^ 63\<close> items on a level (\<open>small_pipeline\<close>), as vectors have.

  \<^bold>\<open>Termination.\<close> Loops are recursive functions with a termination proof by a measure; where the code
  has no bound of its own, they are partial functions into \<open>option\<close> and their termination is a
  theorem (\<open>stream_next\<close>, the loops of \<open>Ordering\<close>, \<open>Revert\<close> and \<open>Priority_Append\<close>). No fuel is used.

  \<^bold>\<open>Not modelled.\<close> \<open>pool/setup.rs\<close> and the bounds in the platform traits are wiring without
  behaviour; of the macros, the path to the crate in generated code and the generation of tests;
  tests, examples and test utilities. Inside modelled files:
  tracing, wakers, \<open>Debug\<close> output, and the data that only feeds logs.
\<close>

end
